(* ===== verification/Prelude.thy ===== *)
theory Prelude
  imports Main "HOL-Library.Word" "HOL-Library.Sublist"
begin

text \<open>
  The shared base of the development: the exceptions of the code as values, the
  result type and the state-and-exception style in which stateful operations are
  written, Python's list operations (indexing that raises, \<open>insert\<close>, \<open>del\<close>), bytes and
  big-endian integers as \<open>struct\<close> packs them, the two searches of \<open>bisect\<close>, and sorted
  association lists, the abstract content of an index.

  The collections \<open>act_defs\<close> (the combinators of the state-and-exception style) and
  \<open>py_defs\<close> (Python's list operations) unfold the plumbing in the component theories.
\<close>

named_theorems act_defs "state and exception combinators"
named_theorems py_defs "operations of the Python standard library on lists"

section \<open>Exceptions and results\<close>

text \<open>
  One constructor per exception class that a modelled operation raises: the classes of
  \<open>errors.py\<close>, the built-in ones, \<open>struct.error\<close>, \<open>pickle.UnpicklingError\<close> and the
  \<open>SimCrash\<close> of \<open>simdisk.py\<close>. \<open>RecursionError\<close> is raised when a traversal is deeper
  than the bound it was given.
\<close>

datatype py_error =
    KeyError
  | ValueError
  | TypeError
  | IndexError
  | AttributeError
  | StructError
  | UnpicklingError
  | RecursionError
  | ImmuStoreError
  | DatabaseClosedError
  | DatabaseCorruptionError
  | KeyEncodingError
  | ConflictError
  | SimCrash
  | InvariantError
  | ProtocolError
  | IncompleteReadError
  | NotLeaderError
  | NoLeaderError

type_synonym 'a result = "py_error + 'a"

definition bindR :: "'a result \<Rightarrow> ('a \<Rightarrow> 'b result) \<Rightarrow> 'b result" where
  "bindR r f = (case r of Inl e \<Rightarrow> Inl e | Inr x \<Rightarrow> f x)"

lemma bindR_simps [simp]:
  "bindR (Inl e) f = Inl e"
  "bindR (Inr x) f = f x"
  by (simp_all add: bindR_def)

lemma bindR_eq_Inr: "bindR r f = Inr y \<longleftrightarrow> (\<exists>x. r = Inr x \<and> f x = Inr y)"
  by (cases r) auto

lemma bindR_assoc: "bindR (bindR r f) g = bindR r (\<lambda>x. bindR (f x) g)"
  by (cases r) auto

lemma bindR_cong [fundef_cong]:
  "r = r' \<Longrightarrow> (\<And>x. r' = Inr x \<Longrightarrow> f x = g x) \<Longrightarrow> bindR r f = bindR r' g"
  by (cases r') auto

fun mapR :: "('a \<Rightarrow> 'b result) \<Rightarrow> 'a list \<Rightarrow> 'b list result" where
  "mapR f [] = Inr []"
| "mapR f (x # xs) = bindR (f x) (\<lambda>y. bindR (mapR f xs) (\<lambda>ys. Inr (y # ys)))"

lemma mapR_cong [fundef_cong]:
  "xs = ys \<Longrightarrow> (\<And>x. x \<in> set ys \<Longrightarrow> f x = g x) \<Longrightarrow> mapR f xs = mapR g ys"
  by (induction xs arbitrary: ys) auto

lemma mapR_append: "mapR f (xs @ ys) = bindR (mapR f xs) (\<lambda>a. bindR (mapR f ys) (\<lambda>b. Inr (a @ b)))"
  by (induction xs) (auto simp: bindR_assoc bindR_def split: sum.splits)

lemma mapR_eq_Inr: "mapR f xs = Inr ys \<longleftrightarrow> list_all2 (\<lambda>x y. f x = Inr y) xs ys"
  by (induction xs arbitrary: ys) (auto simp: bindR_eq_Inr list_all2_Cons1)

text \<open>
  A stateful operation takes the state and returns what it returned or raised together
  with the state it leaves behind: a Python exception does not undo the mutations made
  before it was raised.
\<close>

type_synonym ('s, 'a) act = "'s \<Rightarrow> 'a result \<times> 's"

definition ret :: "'a \<Rightarrow> ('s, 'a) act" where
  [act_defs]: "ret x s = (Inr x, s)"

definition raise :: "py_error \<Rightarrow> ('s, 'a) act" where
  [act_defs]: "raise e s = (Inl e, s)"

definition bindS :: "('s, 'a) act \<Rightarrow> ('a \<Rightarrow> ('s, 'b) act) \<Rightarrow> ('s, 'b) act" where
  "bindS m f s = (case m s of (Inl e, s') \<Rightarrow> (Inl e, s') | (Inr x, s') \<Rightarrow> f x s')"

text \<open>\<open>lift\<close> runs an operation that only reads the state.\<close>

definition lift :: "('s \<Rightarrow> 'a result) \<Rightarrow> ('s, 'a) act" where
  [act_defs]: "lift f s = (f s, s)"

definition modify :: "('s \<Rightarrow> 's) \<Rightarrow> ('s, unit) act" where
  [act_defs]: "modify f s = (Inr (), f s)"

definition gets :: "('s \<Rightarrow> 'a) \<Rightarrow> ('s, 'a) act" where
  [act_defs]: "gets f s = (Inr (f s), s)"

text \<open>\<open>finallyS m c\<close> is \<open>try: m finally: c\<close>.\<close>

definition finallyS :: "('s, 'a) act \<Rightarrow> ('s, unit) act \<Rightarrow> ('s, 'a) act" where
  "finallyS m c s =
     (case m s of (r, s') \<Rightarrow> (case c s' of (Inl e, s'') \<Rightarrow> (Inl e, s'') | (Inr _, s'') \<Rightarrow> (r, s'')))"

definition whenS :: "bool \<Rightarrow> ('s, unit) act \<Rightarrow> ('s, unit) act" where
  [act_defs]: "whenS b m = (if b then m else ret ())"

lemma bindS_simps [simp]:
  "m s = (Inl e, s') \<Longrightarrow> bindS m f s = (Inl e, s')"
  "m s = (Inr x, s') \<Longrightarrow> bindS m f s = f x s'"
  by (simp_all add: bindS_def)

lemma bindS_eq_Inr:
  "bindS m f s = (Inr y, t) \<longleftrightarrow> (\<exists>x s'. m s = (Inr x, s') \<and> f x s' = (Inr y, t))"
  by (auto simp: bindS_def split: prod.splits sum.splits)

lemma bindS_eq_Inl:
  "bindS m f s = (Inl e, t) \<longleftrightarrow>
     m s = (Inl e, t) \<or> (\<exists>x s'. m s = (Inr x, s') \<and> f x s' = (Inl e, t))"
  by (auto simp: bindS_def split: prod.splits sum.splits)

lemma finallyS_simps [simp]:
  "m s = (r, s') \<Longrightarrow> c s' = (Inr u, s'') \<Longrightarrow> finallyS m c s = (r, s'')"
  by (simp add: finallyS_def)

lemma bindS_cong [fundef_cong]:
  "m s = m' s' \<Longrightarrow> s = s' \<Longrightarrow> (\<And>x t. m' s' = (Inr x, t) \<Longrightarrow> f x t = g x t)
    \<Longrightarrow> bindS m f s = bindS m' g s'"
  by (auto simp: bindS_def split: prod.splits sum.splits)

section \<open>Python lists\<close>

definition py_nth :: "'a list \<Rightarrow> nat \<Rightarrow> 'a result" where
  [py_defs]: "py_nth xs i = (if i < length xs then Inr (xs ! i) else Inl IndexError)"

definition py_last :: "'a list \<Rightarrow> 'a result" where
  [py_defs]: "py_last xs = (if xs = [] then Inl IndexError else Inr (last xs))"

definition insert_at :: "nat \<Rightarrow> 'a \<Rightarrow> 'a list \<Rightarrow> 'a list" where
  [py_defs]: "insert_at i x xs = take i xs @ x # drop i xs"

definition del_at :: "nat \<Rightarrow> 'a list \<Rightarrow> 'a list" where
  [py_defs]: "del_at i xs = take i xs @ drop (Suc i) xs"

lemma insert_at_append [simp]:
  "i = length xs \<Longrightarrow> insert_at i x (xs @ ys) = xs @ x # ys"
  by (simp add: insert_at_def)

lemma del_at_append [simp]:
  "i = length xs \<Longrightarrow> del_at i (xs @ y # ys) = xs @ ys"
  by (simp add: del_at_def)

lemma length_insert_at [simp]: "length (insert_at i x xs) = Suc (length xs)"
  by (simp add: insert_at_def min_def)

lemma length_del_at [simp]: "i < length xs \<Longrightarrow> length (del_at i xs) = length xs - 1"
  by (simp add: del_at_def min_def)

lemma py_nth_append [simp]: "i = length xs \<Longrightarrow> py_nth (xs @ y # ys) i = Inr y"
  by (simp add: py_nth_def)

section \<open>Bytes and big-endian integers\<close>

type_synonym byte = "8 word"
type_synonym bytes = "byte list"

text \<open>\<open>struct.pack\<close> of an unsigned field of \<open>k\<close> bytes in network order, and its inverse.\<close>

fun be_bytes :: "nat \<Rightarrow> nat \<Rightarrow> bytes" where
  "be_bytes 0 n = []"
| "be_bytes (Suc k) n = word_of_nat (n div 256 ^ k) # be_bytes k (n mod 256 ^ k)"

fun be_nat :: "bytes \<Rightarrow> nat" where
  "be_nat [] = 0"
| "be_nat (b # bs) = unat b * 256 ^ length bs + be_nat bs"

definition pack_uint :: "nat \<Rightarrow> int \<Rightarrow> bytes result" where
  "pack_uint k n = (if 0 \<le> n \<and> n < 256 ^ k then Inr (be_bytes k (nat n)) else Inl StructError)"

lemma length_be_bytes [simp]: "length (be_bytes k n) = k"
  by (induction k arbitrary: n) auto

lemma be_nat_be_bytes [simp]: "n < 256 ^ k \<Longrightarrow> be_nat (be_bytes k n) = n"
proof (induction k arbitrary: n)
  case 0
  then show ?case by simp
next
  case (Suc k)
  have q: "n div 256 ^ k < 256"
    using Suc.prems by (simp add: less_mult_imp_div_less)
  have "unat (word_of_nat (n div 256 ^ k) :: byte) = n div 256 ^ k"
    using q by (simp add: unat_of_nat take_bit_eq_mod)
  moreover have "be_nat (be_bytes k (n mod 256 ^ k)) = n mod 256 ^ k"
    by (rule Suc.IH) simp
  ultimately show ?case by (simp add: div_mult_mod_eq)
qed

lemma be_nat_less: "be_nat bs < 256 ^ length bs"
proof (induction bs)
  case Nil
  then show ?case by simp
next
  case (Cons b bs)
  have "unat b < 256"
    using unsigned_less [of b, where ?'a = nat] by simp
  then have "unat b * 256 ^ length bs + be_nat bs < (unat b + 1) * 256 ^ length bs"
    using Cons.IH by simp
  also have "\<dots> \<le> 256 * 256 ^ length bs"
    using \<open>unat b < 256\<close> by (intro mult_right_mono) auto
  finally show ?case by simp
qed

lemma pack_uint_Inr:
  "pack_uint k n = Inr bs \<longleftrightarrow> 0 \<le> n \<and> n < 256 ^ k \<and> bs = be_bytes k (nat n)"
  by (auto simp: pack_uint_def)

lemma nat_less_256_power: "0 \<le> n \<Longrightarrow> n < 256 ^ k \<Longrightarrow> nat n < 256 ^ k"
  by (metis nat_less_iff of_nat_numeral of_nat_power)

lemma pack_uint_length: "pack_uint k n = Inr bs \<Longrightarrow> length bs = k"
  by (auto simp: pack_uint_Inr)

lemma pack_uint_roundtrip: "pack_uint k n = Inr bs \<Longrightarrow> int (be_nat bs) = n"
  by (auto simp: pack_uint_Inr nat_less_256_power)

text \<open>A slice of a byte string, \<open>data[off : off + n]\<close>.\<close>

definition slice_at :: "nat \<Rightarrow> nat \<Rightarrow> 'a list \<Rightarrow> 'a list" where
  "slice_at off n xs = take n (drop off xs)"

lemma length_slice_at: "length (slice_at off n xs) = min n (length xs - off)"
  by (auto simp: slice_at_def)

lemma slice_append_left: "off + n \<le> length xs \<Longrightarrow> slice_at off n (xs @ ys) = slice_at off n xs"
  by (simp add: slice_at_def)

lemma slice_take: "off + n \<le> m \<Longrightarrow> slice_at off n (take m xs) = slice_at off n xs"
  by (simp add: slice_at_def drop_take min_def)

lemma slice_middle [simp]:
  "off = length xs \<Longrightarrow> n = length ys \<Longrightarrow> slice_at off n (xs @ ys @ zs) = ys"
  by (simp add: slice_at_def)

lemma slice_prefix_eq:
  "take m xs = take m ys \<Longrightarrow> off + n \<le> m \<Longrightarrow> slice_at off n xs = slice_at off n ys"
  by (metis slice_take)

section \<open>Binary search\<close>

function bisect_left_loop :: "'k::linorder list \<Rightarrow> 'k \<Rightarrow> nat \<Rightarrow> nat \<Rightarrow> nat" where
  "bisect_left_loop a x lo hi =
     (if lo < hi then
        let mid = (lo + hi) div 2 in
        if a ! mid < x then bisect_left_loop a x (mid + 1) hi else bisect_left_loop a x lo mid
      else lo)"
  by pat_completeness auto
termination
  by (relation "measure (\<lambda>(a, x, lo, hi). hi - lo)") auto

function bisect_right_loop :: "'k::linorder list \<Rightarrow> 'k \<Rightarrow> nat \<Rightarrow> nat \<Rightarrow> nat" where
  "bisect_right_loop a x lo hi =
     (if lo < hi then
        let mid = (lo + hi) div 2 in
        if x < a ! mid then bisect_right_loop a x lo mid else bisect_right_loop a x (mid + 1) hi
      else lo)"
  by pat_completeness auto
termination
  by (relation "measure (\<lambda>(a, x, lo, hi). hi - lo)") auto

declare bisect_left_loop.simps [simp del] bisect_right_loop.simps [simp del]

definition bisect_left :: "'k::linorder list \<Rightarrow> 'k \<Rightarrow> nat" where
  "bisect_left a x = bisect_left_loop a x 0 (length a)"

definition bisect_right :: "'k::linorder list \<Rightarrow> 'k \<Rightarrow> nat" where
  "bisect_right a x = bisect_right_loop a x 0 (length a)"

lemma bisect_left_loop_eq:
  "\<forall>i < length a. a ! i < x \<longleftrightarrow> i < r \<Longrightarrow> lo \<le> r \<Longrightarrow> r \<le> hi \<Longrightarrow> hi \<le> length a
     \<Longrightarrow> bisect_left_loop a x lo hi = r"
proof (induction a x lo hi rule: bisect_left_loop.induct)
  case (1 a x lo hi)
  show ?case
  proof (cases "lo < hi")
    case True
    let ?mid = "(lo + hi) div 2"
    have mid: "?mid < hi" "lo \<le> ?mid" using True by auto
    show ?thesis
      using "1.IH" [OF True refl] "1.prems" True mid
      by (cases "a ! ?mid < x") (auto simp: bisect_left_loop.simps [of a x lo hi] Let_def)
  next
    case False
    then show ?thesis using "1.prems" by (simp add: bisect_left_loop.simps)
  qed
qed

lemma bisect_right_loop_eq:
  "\<forall>i < length a. a ! i \<le> x \<longleftrightarrow> i < r \<Longrightarrow> lo \<le> r \<Longrightarrow> r \<le> hi \<Longrightarrow> hi \<le> length a
     \<Longrightarrow> bisect_right_loop a x lo hi = r"
proof (induction a x lo hi rule: bisect_right_loop.induct)
  case (1 a x lo hi)
  show ?case
  proof (cases "lo < hi")
    case True
    let ?mid = "(lo + hi) div 2"
    have mid: "?mid < hi" "lo \<le> ?mid" using True by auto
    then have "\<not> x < a ! ?mid \<longleftrightarrow> ?mid < r"
      using "1.prems" by (simp add: not_less)
    then show ?thesis
      using "1.IH" [OF True refl] "1.prems" True mid
      by (cases "x < a ! ?mid") (auto simp: bisect_right_loop.simps [of a x lo hi] Let_def)
  next
    case False
    then show ?thesis using "1.prems" by (simp add: bisect_right_loop.simps)
  qed
qed

text \<open>On a sorted list the searches find the boundary they are documented to find.\<close>

lemma bisect_left_append:
  assumes "\<forall>y\<in>set xs. y < x" "\<forall>y\<in>set ys. x \<le> y"
  shows "bisect_left (xs @ ys) x = length xs"
  unfolding bisect_left_def
proof (rule bisect_left_loop_eq)
  show "\<forall>i<length (xs @ ys). (xs @ ys) ! i < x \<longleftrightarrow> i < length xs"
    using assms by (auto simp: nth_append not_less)
qed simp_all

lemma bisect_right_append:
  assumes "\<forall>y\<in>set xs. y \<le> x" "\<forall>y\<in>set ys. x < y"
  shows "bisect_right (xs @ ys) x = length xs"
  unfolding bisect_right_def
proof (rule bisect_right_loop_eq)
  show "\<forall>i<length (xs @ ys). (xs @ ys) ! i \<le> x \<longleftrightarrow> i < length xs"
    using assms by (auto simp: nth_append not_le)
qed simp_all

lemma sorted_split_less:
  "sorted_wrt (<) (ks :: 'k::linorder list) \<Longrightarrow>
     \<exists>xs ys. ks = xs @ ys \<and> (\<forall>y\<in>set xs. y < x) \<and> (\<forall>y\<in>set ys. x \<le> y)"
proof (induction ks)
  case (Cons k ks)
  then obtain xs ys where ih: "ks = xs @ ys" "\<forall>y\<in>set xs. y < x" "\<forall>y\<in>set ys. x \<le> y"
    by auto
  show ?case
  proof (cases "k < x")
    case True
    with ih show ?thesis by (intro exI [of _ "k # xs"] exI [of _ ys]) simp
  next
    case False
    with Cons.prems show ?thesis by (intro exI [of _ "[]"] exI [of _ "k # ks"]) force
  qed
qed simp

lemma sorted_split_le:
  "sorted_wrt (<) (ks :: 'k::linorder list) \<Longrightarrow>
     \<exists>xs ys. ks = xs @ ys \<and> (\<forall>y\<in>set xs. y \<le> x) \<and> (\<forall>y\<in>set ys. x < y)"
proof (induction ks)
  case (Cons k ks)
  then obtain xs ys where ih: "ks = xs @ ys" "\<forall>y\<in>set xs. y \<le> x" "\<forall>y\<in>set ys. x < y"
    by auto
  show ?case
  proof (cases "k \<le> x")
    case True
    with ih show ?thesis by (intro exI [of _ "k # xs"] exI [of _ ys]) simp
  next
    case False
    with Cons.prems show ?thesis by (intro exI [of _ "[]"] exI [of _ "k # ks"]) force
  qed
qed simp

lemma bisect_left_split:
  assumes "sorted_wrt (<) ks"
  obtains xs ys where "ks = xs @ ys" "length xs = bisect_left ks x"
    "\<forall>y\<in>set xs. y < x" "\<forall>y\<in>set ys. x \<le> y"
  using sorted_split_less [OF assms, of x] bisect_left_append by metis

lemma bisect_right_split:
  assumes "sorted_wrt (<) ks"
  obtains xs ys where "ks = xs @ ys" "length xs = bisect_right ks x"
    "\<forall>y\<in>set xs. y \<le> x" "\<forall>y\<in>set ys. x < y"
  using sorted_split_le [OF assms, of x] bisect_right_append by metis

section \<open>Sorted association lists\<close>

fun kv_upd :: "'k::linorder \<Rightarrow> 'v \<Rightarrow> ('k \<times> 'v) list \<Rightarrow> ('k \<times> 'v) list" where
  "kv_upd k v [] = [(k, v)]"
| "kv_upd k v ((k', v') # xs) =
     (if k < k' then (k, v) # (k', v') # xs
      else if k = k' then (k, v) # xs
      else (k', v') # kv_upd k v xs)"

fun kv_del :: "'k \<Rightarrow> ('k \<times> 'v) list \<Rightarrow> ('k \<times> 'v) list" where
  "kv_del k [] = []"
| "kv_del k ((k', v') # xs) = (if k = k' then xs else (k', v') # kv_del k xs)"

abbreviation kv_sorted :: "('k::linorder \<times> 'v) list \<Rightarrow> bool" where
  "kv_sorted xs \<equiv> sorted_wrt (<) (map fst xs)"

lemma map_of_kv_upd: "map_of (kv_upd k v xs) = (map_of xs)(k \<mapsto> v)"
  by (induction xs) auto

lemma kv_del_absent: "k \<notin> fst ` set xs \<Longrightarrow> kv_del k xs = xs"
  by (induction xs) auto

lemma map_of_kv_del: "kv_sorted xs \<Longrightarrow> map_of (kv_del k xs) = (map_of xs)(k := None)"
proof (induction xs)
  case (Cons a xs)
  then have "map_of xs (fst a) = None"
    by (auto simp: map_of_eq_None_iff)
  with Cons show ?case by (cases a) (auto simp: fun_eq_iff)
qed simp

lemma set_kv_upd: "fst ` set (kv_upd k v xs) = insert k (fst ` set xs)"
  by (induction k v xs rule: kv_upd.induct) (simp_all add: insert_commute)

lemma set_kv_del: "set (kv_del k xs) \<subseteq> set xs"
  by (induction xs) (auto split: if_splits)

lemma kv_sorted_upd: "kv_sorted xs \<Longrightarrow> kv_sorted (kv_upd k v xs)"
proof (induction xs)
  case (Cons a xs)
  then show ?case
    using set_kv_upd [of k v xs] by (cases a) (force simp: image_iff)
qed simp

lemma kv_sorted_del: "kv_sorted xs \<Longrightarrow> kv_sorted (kv_del k xs)"
proof (induction xs)
  case (Cons a xs)
  then show ?case
    using set_kv_del [of k xs] by (cases a) (auto simp: image_iff subset_iff)
qed simp

lemma kv_upd_append:
  assumes "\<forall>x\<in>fst ` set xs. x < k" "\<forall>z\<in>fst ` set zs. k < z"
  shows "kv_upd k v (xs @ ys @ zs) = xs @ kv_upd k v ys @ zs"
proof -
  have "kv_upd k v (ys @ zs) = kv_upd k v ys @ zs"
    using assms(2) by (induction ys) (auto, cases zs, auto)
  then show ?thesis using assms(1) by (induction xs) auto
qed

lemma kv_del_append:
  assumes "k \<notin> fst ` set xs" "k \<notin> fst ` set zs"
  shows "kv_del k (xs @ ys @ zs) = xs @ kv_del k ys @ zs"
proof -
  have "kv_del k (ys @ zs) = kv_del k ys @ zs"
    using assms(2) by (induction ys) (auto simp: kv_del_absent)
  then show ?thesis using assms(1) by (induction xs) auto
qed

lemma length_kv_upd:
  "kv_sorted xs \<Longrightarrow> length (kv_upd k v xs) = (if k \<in> fst ` set xs then length xs else Suc (length xs))"
proof (induction k v xs rule: kv_upd.induct)
  case (2 k v k' v' xs)
  have "k \<notin> fst ` set xs" if "k \<le> k'"
    using "2.prems" that by (auto simp: image_iff)
  with 2 show ?case by auto
qed simp

lemma length_kv_del:
  "length (kv_del k xs) = (if k \<in> fst ` set xs then length xs - 1 else length xs)"
proof (induction xs)
  case (Cons a xs)
  then show ?case by (cases a; cases xs) auto
qed simp

lemma map_of_append_right: "k \<notin> fst ` set xs \<Longrightarrow> map_of (xs @ ys) k = map_of ys k"
  by (induction xs) auto

lemma map_of_append_left: "k \<notin> fst ` set ys \<Longrightarrow> map_of (xs @ ys) k = map_of xs k"
  by (induction xs) (auto simp: map_of_eq_None_iff)

end
