(* ===== verification/SimDisk.thy ===== *)
theory SimDisk
  imports Prelude
begin

text \<open>
  \<open>simdisk.py\<close>: the file object the storage engine runs on, an in-memory file that
  models \<open>fsync\<close>. \<open>live\<close> is what the process sees, \<open>durable\<close> what survives a power
  loss; only a flush that succeeds moves the first into the second. Offsets and the
  position are natural numbers: no call of the code seeks before the start of the file.

  The lemmas reduce a write to a splice of the byte string, say which slices a write
  leaves alone, and fix which flush an armed crash hits.
\<close>

section \<open>The file object\<close>

record disk =
  live :: bytes
  durable :: bytes
  pos :: nat
  closed :: bool
  flush_count :: nat
  crash_at_flush :: "nat option"

definition SimDisk :: "bytes \<Rightarrow> disk" where
  "SimDisk initial =
     \<lparr>live = initial, durable = initial, pos = 0, closed = False,
      flush_count = 0, crash_at_flush = None\<rparr>"

datatype whence = SEEK_SET | SEEK_CUR | SEEK_END

fun disk_seek :: "nat \<Rightarrow> whence \<Rightarrow> disk \<Rightarrow> disk" where
  "disk_seek offset SEEK_SET d = d\<lparr>pos := offset\<rparr>"
| "disk_seek offset SEEK_END d = d\<lparr>pos := length (live d) + offset\<rparr>"
| "disk_seek offset SEEK_CUR d = d\<lparr>pos := pos d + offset\<rparr>"

definition disk_tell :: "disk \<Rightarrow> nat" where
  "disk_tell d = pos d"

text \<open>\<open>read(size)\<close>; \<open>None\<close> stands for a missing or negative size.\<close>

definition disk_read :: "nat option \<Rightarrow> disk \<Rightarrow> bytes \<times> disk" where
  "disk_read sz d =
     (let end = (case sz of None \<Rightarrow> length (live d) | Some n \<Rightarrow> min (pos d + n) (length (live d)))
      in (take (end - pos d) (drop (pos d) (live d)), d\<lparr>pos := end\<rparr>))"

text \<open>The assignment \<open>_live[pos:end] = data\<close> after the file was extended with zeros.\<close>

definition overwrite :: "nat \<Rightarrow> bytes \<Rightarrow> bytes \<Rightarrow> bytes" where
  "overwrite p bs xs =
     (let end = p + length bs; ys = xs @ replicate (end - length xs) 0
      in take p ys @ bs @ drop end ys)"

definition disk_write :: "bytes \<Rightarrow> disk \<Rightarrow> disk" where
  "disk_write bs d = d\<lparr>live := overwrite (pos d) bs (live d), pos := pos d + length bs\<rparr>"

definition disk_truncate :: "nat \<Rightarrow> disk \<Rightarrow> disk" where
  "disk_truncate sz d =
     (if sz < length (live d) then d\<lparr>live := take sz (live d)\<rparr>
      else if sz > length (live d)
      then d\<lparr>live := live d @ replicate (sz - length (live d)) 0\<rparr>
      else d)"

definition disk_flush :: "(disk, unit) act" where
  "disk_flush d =
     (let d' = d\<lparr>flush_count := flush_count d + 1\<rparr>
      in case crash_at_flush d of
           Some n \<Rightarrow> if flush_count d' \<ge> n
                     then (Inl SimCrash, d'\<lparr>crash_at_flush := None\<rparr>)
                     else (Inr (), d'\<lparr>durable := live d\<rparr>)
         | None \<Rightarrow> (Inr (), d'\<lparr>durable := live d\<rparr>))"

definition disk_close :: "disk \<Rightarrow> disk" where
  "disk_close d = d\<lparr>closed := True\<rparr>"

definition arm_crash :: "nat \<Rightarrow> disk \<Rightarrow> disk" where
  "arm_crash after_flushes d = d\<lparr>crash_at_flush := Some (flush_count d + after_flushes)\<rparr>"

definition durable_bytes :: "disk \<Rightarrow> bytes" where
  "durable_bytes d = durable d"

section \<open>Writes as splices\<close>

lemma overwrite_inside:
  "p + length bs \<le> length xs \<Longrightarrow>
     overwrite p bs xs = take p xs @ bs @ drop (p + length bs) xs"
  by (simp add: overwrite_def)

lemma overwrite_end: "overwrite (length xs) bs xs = xs @ bs"
  by (simp add: overwrite_def)

lemma overwrite_beyond:
  "length xs \<le> p \<Longrightarrow> overwrite p bs xs = xs @ replicate (p - length xs) 0 @ bs"
proof -
  assume "length xs \<le> p"
  then have "take p (xs @ replicate (p + length bs - length xs) (0 :: byte))
      = xs @ replicate (p - length xs) 0"
    by (simp add: min_def)
  then show ?thesis by (simp add: overwrite_def Let_def)
qed

lemma length_overwrite [simp]:
  "length (overwrite p bs xs) = max (length xs) (p + length bs)"
  by (auto simp: overwrite_def Let_def min_def max_def)

lemma slice_overwrite_same [simp]:
  "n = length bs \<Longrightarrow> slice_at p n (overwrite p bs xs) = bs"
  by (simp add: slice_at_def overwrite_def Let_def min_def)

lemma take_overwrite:
  "m \<le> p \<Longrightarrow> m \<le> length xs \<Longrightarrow> take m (overwrite p bs xs) = take m xs"
  by (simp add: overwrite_def Let_def min_def)

lemma drop_overwrite:
  "p + length bs \<le> m \<Longrightarrow> m \<le> length xs \<Longrightarrow> drop m (overwrite p bs xs) = drop m xs"
  by (simp add: overwrite_inside min_def) (cases bs, auto)

lemma slice_overwrite_below:
  "off + n \<le> p \<Longrightarrow> off + n \<le> length xs \<Longrightarrow> slice_at off n (overwrite p bs xs) = slice_at off n xs"
  by (rule slice_prefix_eq [of "off + n"]) (simp_all add: take_overwrite)

lemma slice_overwrite_above:
  "p + length bs \<le> off \<Longrightarrow> off \<le> length xs \<Longrightarrow>
     slice_at off n (overwrite p bs xs) = slice_at off n xs"
  by (simp add: slice_at_def drop_overwrite)

section \<open>Flushes\<close>

lemma disk_flush_live [simp]: "live (snd (disk_flush d)) = live d"
  by (simp add: disk_flush_def Let_def split: option.splits)

lemma disk_flush_ok: "disk_flush d = (Inr u, d') \<Longrightarrow> durable d' = live d"
  by (auto simp: disk_flush_def Let_def split: option.splits if_splits)

lemma disk_flush_crash:
  "disk_flush d = (Inl e, d') \<Longrightarrow> e = SimCrash \<and> durable d' = durable d \<and> live d' = live d"
  by (auto simp: disk_flush_def Let_def split: option.splits if_splits)

lemma disk_flush_closed [simp]: "closed (snd (disk_flush d)) = closed d"
  by (simp add: disk_flush_def Let_def split: option.splits)

lemma disk_flush_unarmed:
  "crash_at_flush d = None \<Longrightarrow>
     disk_flush d = (Inr (), d\<lparr>flush_count := flush_count d + 1, durable := live d\<rparr>)"
  by (simp add: disk_flush_def)

text \<open>\<open>flushes n\<close> runs \<open>n\<close> flushes, stopping at the first one that raises.\<close>

fun flushes :: "nat \<Rightarrow> (disk, unit) act" where
  "flushes 0 = ret ()"
| "flushes (Suc n) = bindS disk_flush (\<lambda>_. flushes n)"

lemma flushes_armed:
  "crash_at_flush d = Some (flush_count d + Suc n) \<Longrightarrow>
     \<exists>d'. flushes n d = (Inr (), d') \<and> crash_at_flush d' = Some (flush_count d' + 1)
        \<and> live d' = live d \<and> durable d' = (if n = 0 then durable d else live d)"
proof (induction n arbitrary: d)
  case 0
  then show ?case by (simp add: ret_def)
next
  case (Suc n)
  let ?d = "d\<lparr>flush_count := flush_count d + 1, durable := live d\<rparr>"
  have "disk_flush d = (Inr (), ?d)"
    using Suc.prems by (simp add: disk_flush_def)
  moreover have "crash_at_flush ?d = Some (flush_count ?d + Suc n)"
    using Suc.prems by simp
  note Suc.IH [OF this]
  ultimately show ?case by auto
qed

text \<open>
  A crash armed for the \<open>n\<close>-th flush from now lets the \<open>n - 1\<close> flushes before it
  through, raises \<open>SimCrash\<close> at the \<open>n\<close>-th, and that flush makes nothing durable: what
  survives is the file at the last flush that succeeded (the old durable bytes when the
  very first one fails).
\<close>

theorem arm_crash_hits_nth_flush:
  assumes "0 < n"
  shows "\<exists>d'. flushes (n - 1) (arm_crash n d) = (Inr (), d')
    \<and> fst (disk_flush d') = Inl SimCrash
    \<and> durable_bytes (snd (disk_flush d')) = (if n = 1 then durable d else live d)
    \<and> crash_at_flush (snd (disk_flush d')) = None"
proof -
  obtain m where n: "n = Suc m"
    using assms by (cases n) auto
  have "crash_at_flush (arm_crash n d) = Some (flush_count (arm_crash n d) + Suc m)"
    by (simp add: arm_crash_def n)
  from flushes_armed [OF this] obtain d' where
    d': "flushes m (arm_crash n d) = (Inr (), d')" "crash_at_flush d' = Some (flush_count d' + 1)"
      "durable d' = (if m = 0 then durable d else live d)"
    by (auto simp: arm_crash_def)
  then show ?thesis
    by (auto simp: n disk_flush_def durable_bytes_def Let_def)
qed

theorem arm_crash_hits_nth_flush_witness:
  "(0::nat) < 2 \<and>
   (\<exists>d'. flushes (2 - 1) (arm_crash 2 (disk_write [1, 2] (SimDisk []))) = (Inr (), d')
     \<and> fst (disk_flush d') = Inl SimCrash
     \<and> durable_bytes (snd (disk_flush d')) = [1, 2]
     \<and> crash_at_flush (snd (disk_flush d')) = None)"
  using arm_crash_hits_nth_flush [of 2 "disk_write [1, 2] (SimDisk [])"]
  by (simp add: disk_write_def SimDisk_def overwrite_def)

end
