(* ===== verification/Physical.thy ===== *)
theory Physical
  imports SimDisk
begin

text \<open>
  \<open>physical.py\<close> (with the \<open>FileLock\<close> of \<open>locking.py\<close>): append-only records with a CRC-32
  each, two meta slots at the front of the file, commits that publish a root by writing
  the other slot, and recovery on open. The file object is the one of \<open>SimDisk\<close>, so
  \<open>flush\<close> is its \<open>flush\<close>: its \<open>fileno\<close> raises \<open>UnsupportedOperation\<close> and both \<open>os.fsync\<close>
  and \<open>flock\<close> are skipped.

  The file position is not carried from one operation to the next: every operation
  seeks to an absolute offset before it reads or writes. Operations that only read the
  file therefore return no new file.
\<close>

unbundle bit_operations_syntax

section \<open>CRC-32\<close>

text \<open>
  \<open>zlib.crc32\<close>: the reflected CRC with polynomial 0xEDB88320, register preset to all ones
  and complemented at the end, one bit at a time.
\<close>

definition crc32_bit :: "32 word \<Rightarrow> 32 word" where
  "crc32_bit c = (if bit c 0 then drop_bit 1 c XOR 0xEDB88320 else drop_bit 1 c)"

definition crc32_byte :: "32 word \<Rightarrow> byte \<Rightarrow> 32 word" where
  "crc32_byte c b = (crc32_bit ^^ 8) (c XOR ucast b)"

definition crc32 :: "bytes \<Rightarrow> 32 word" where
  "crc32 bs = NOT (foldl crc32_byte (NOT 0) bs)"

definition crc :: "bytes \<Rightarrow> nat" where
  "crc payload = unat (crc32 payload AND 0xFFFFFFFF)"

section \<open>Layout\<close>

definition MAGIC :: bytes where "MAGIC = [0x49, 0x4D, 0x4D, 0x55]"
definition FORMAT_VERSION :: nat where "FORMAT_VERSION = 2"
definition META_SLOT_SIZE :: nat where "META_SLOT_SIZE = 4096"
definition META_SLOTS :: nat where "META_SLOTS = 2"
definition SUPERBLOCK_SIZE :: nat where "SUPERBLOCK_SIZE = META_SLOT_SIZE * META_SLOTS"
definition META_BODY_BYTES :: nat where "META_BODY_BYTES = 40"
definition META_CRC_BYTES :: nat where "META_CRC_BYTES = 4"
definition RECORD_HEADER_BYTES :: nat where "RECORD_HEADER_BYTES = 8"

lemmas layout_defs =
  FORMAT_VERSION_def META_SLOT_SIZE_def META_SLOTS_def SUPERBLOCK_SIZE_def
  META_BODY_BYTES_def META_CRC_BYTES_def RECORD_HEADER_BYTES_def

definition DURABILITY_FULL :: string where "DURABILITY_FULL = ''full''"
definition DURABILITY_NONE :: string where "DURABILITY_NONE = ''none''"

record meta =
  txn_id :: nat
  root_address :: nat
  key_count :: int
  data_length :: nat
  slot :: nat

record storage_stats =
  ss_file_size :: nat
  ss_root_address :: nat
  ss_record_count :: nat
  ss_key_count :: int
  ss_txn_id :: nat

record storage =
  disk :: disk
  locked :: bool
  durability :: string
  readonly :: bool
  smeta :: "meta option"

section \<open>The lock\<close>

definition lock :: "(storage, bool) act" where
  "lock st = (if locked st then (Inr False, st) else (Inr True, st\<lparr>locked := True\<rparr>))"

definition unlock :: "(storage, unit) act" where
  "unlock st = (if \<not> locked st then (Inr (), st) else (Inr (), st\<lparr>locked := False\<rparr>))"

section \<open>File access\<close>

definition flush :: "(storage, unit) act" where
  "flush st = (case disk_flush (disk st) of (r, d) \<Rightarrow> (r, st\<lparr>disk := d\<rparr>))"

definition file_size :: "storage \<Rightarrow> nat" where
  "file_size st = disk_tell (disk_seek 0 SEEK_END (disk st))"

text \<open>\<open>_f.seek(off); _f.read(n)\<close> and \<open>_f.seek(off); _f.write(bs)\<close>.\<close>

definition read_at :: "storage \<Rightarrow> nat \<Rightarrow> nat \<Rightarrow> bytes" where
  "read_at st off n = fst (disk_read (Some n) (disk_seek off SEEK_SET (disk st)))"

definition write_at :: "nat \<Rightarrow> bytes \<Rightarrow> (storage, unit) act" where
  "write_at off bs st = (Inr (), st\<lparr>disk := disk_write bs (disk_seek off SEEK_SET (disk st))\<rparr>)"

section \<open>Meta slots\<close>

definition read_slot :: "storage \<Rightarrow> nat \<Rightarrow> meta option result" where
  "read_slot st index =
     (let raw = read_at st (index * META_SLOT_SIZE) (META_BODY_BYTES + META_CRC_BYTES) in
      if length raw < META_BODY_BYTES + META_CRC_BYTES then Inr None
      else
        let body = take META_BODY_BYTES raw;
            stored_crc = be_nat (drop META_BODY_BYTES raw) in
        if crc body \<noteq> stored_crc then Inr None
        else if slice_at 0 4 body \<noteq> MAGIC then Inr None
        else if be_nat (slice_at 4 4 body) \<noteq> FORMAT_VERSION then Inl DatabaseCorruptionError
        else Inr (Some \<lparr>txn_id = be_nat (slice_at 8 8 body),
                        root_address = be_nat (slice_at 16 8 body),
                        key_count = int (be_nat (slice_at 24 8 body)),
                        data_length = be_nat (slice_at 32 8 body),
                        slot = index\<rparr>))"

text \<open>\<open>max(valid, key=lambda meta: meta.txn_id)\<close>: the first of the largest.\<close>

fun max_txn :: "meta \<Rightarrow> meta list \<Rightarrow> meta" where
  "max_txn b [] = b"
| "max_txn b (m # ms) = max_txn (if txn_id b < txn_id m then m else b) ms"

definition read_best_meta :: "storage \<Rightarrow> meta result" where
  "read_best_meta st =
     bindR (mapR (read_slot st) [0..<META_SLOTS]) (\<lambda>candidates.
       case [the c. c \<leftarrow> candidates, c \<noteq> None] of
         [] \<Rightarrow> Inl DatabaseCorruptionError
       | m # ms \<Rightarrow> Inr (max_txn m ms))"

definition meta_body :: "meta \<Rightarrow> bytes result" where
  "meta_body m =
     bindR (pack_uint 4 (int FORMAT_VERSION)) (\<lambda>v.
     bindR (pack_uint 8 (int (txn_id m))) (\<lambda>t.
     bindR (pack_uint 8 (int (root_address m))) (\<lambda>r.
     bindR (pack_uint 8 (key_count m)) (\<lambda>k.
     bindR (pack_uint 8 (int (data_length m))) (\<lambda>l.
       Inr (MAGIC @ v @ t @ r @ k @ l))))))"

definition write_slot :: "nat \<Rightarrow> meta \<Rightarrow> (storage, unit) act" where
  "write_slot index m =
     bindS (lift (\<lambda>_. meta_body m)) (\<lambda>body.
     bindS (lift (\<lambda>_. pack_uint META_CRC_BYTES (int (crc body)))) (\<lambda>c.
       let block = body @ c in
       write_at (index * META_SLOT_SIZE) (block @ replicate (META_SLOT_SIZE - length block) 0)))"

definition empty_meta :: "nat \<Rightarrow> meta" where
  "empty_meta s =
     \<lparr>txn_id = 0, root_address = 0, key_count = 0, data_length = SUPERBLOCK_SIZE, slot = s\<rparr>"

definition init_meta :: "(storage, unit) act" where
  "init_meta =
     bindS (write_slot 0 (empty_meta 0)) (\<lambda>_.
     bindS (write_slot 1 (empty_meta 1)) (\<lambda>_.
     bindS (modify (\<lambda>st. st\<lparr>disk := disk_truncate SUPERBLOCK_SIZE (disk st)\<rparr>)) (\<lambda>_.
     bindS flush (\<lambda>_.
       modify (\<lambda>st. st\<lparr>smeta := Some (empty_meta 0)\<rparr>)))))"

definition recover :: "(storage, unit) act" where
  "recover =
     bindS (lift read_best_meta) (\<lambda>m.
     bindS (modify (\<lambda>st. st\<lparr>smeta := Some m\<rparr>)) (\<lambda>_.
     bindS (gets file_size) (\<lambda>sz.
       whenS (sz > data_length m)
         (bindS (modify (\<lambda>st. st\<lparr>disk := disk_truncate (data_length m) (disk st)\<rparr>)) (\<lambda>_.
          bindS (gets durability) (\<lambda>dur.
            whenS (dur = DURABILITY_FULL) flush))))))"

definition ensure_meta :: "(storage, unit) act" where
  "ensure_meta st =
     (if file_size st < SUPERBLOCK_SIZE then
        (if readonly st then (Inr (), st\<lparr>smeta := Some (empty_meta 0)\<rparr>) else init_meta st)
      else if readonly st then
        bindS (lift read_best_meta) (\<lambda>m. modify (\<lambda>st. st\<lparr>smeta := Some m\<rparr>)) st
      else bindS lock (\<lambda>_. finallyS recover unlock) st)"

text \<open>The constructor \<open>Storage(fileobj, durability, readonly)\<close>.\<close>

definition Storage :: "disk \<Rightarrow> string \<Rightarrow> bool \<Rightarrow> unit result \<times> storage" where
  "Storage d dur ro =
     (let st = \<lparr>disk = d, locked = False, durability = dur, readonly = ro, smeta = None\<rparr> in
      if dur \<notin> {DURABILITY_FULL, DURABILITY_NONE} then (Inl ValueError, st)
      else ensure_meta st)"

section \<open>Committed pointers\<close>

definition refresh_meta :: "(storage, meta) act" where
  "refresh_meta =
     bindS (lift read_best_meta) (\<lambda>m. bindS (modify (\<lambda>st. st\<lparr>smeta := Some m\<rparr>)) (\<lambda>_. ret m))"

definition get_root_address :: "(storage, nat) act" where
  "get_root_address = bindS refresh_meta (\<lambda>m. ret (root_address m))"

definition get_key_count :: "(storage, int) act" where
  "get_key_count = bindS refresh_meta (\<lambda>m. ret (key_count m))"

definition get_txn_id :: "(storage, nat) act" where
  "get_txn_id = bindS refresh_meta (\<lambda>m. ret (txn_id m))"

definition next_meta :: "nat \<Rightarrow> int \<Rightarrow> meta \<Rightarrow> nat \<Rightarrow> meta" where
  "next_meta root n m len =
     \<lparr>txn_id = txn_id m + 1, root_address = root, key_count = n, data_length = len,
      slot = 1 - slot m\<rparr>"

definition commit_root_address :: "nat \<Rightarrow> int \<Rightarrow> (storage, unit) act" where
  "commit_root_address root n st =
     (if readonly st then (Inl ImmuStoreError, st)
      else
        bindS lock (\<lambda>_.
        bindS (whenS (durability st = DURABILITY_FULL) flush) (\<lambda>_.
        bindS (gets smeta) (\<lambda>mo.
          case mo of
            None \<Rightarrow> raise AttributeError
          | Some m \<Rightarrow>
              bindS (gets file_size) (\<lambda>len.
              let new = next_meta root n m len in
              bindS (write_slot (slot new) new) (\<lambda>_.
              bindS (whenS (durability st = DURABILITY_FULL) flush) (\<lambda>_.
              bindS (modify (\<lambda>st. st\<lparr>smeta := Some new\<rparr>)) (\<lambda>_.
                unlock))))))) st)"

section \<open>Records\<close>

definition record_header :: "bytes \<Rightarrow> bytes result" where
  "record_header payload =
     bindR (pack_uint 4 (int (length payload))) (\<lambda>l.
     bindR (pack_uint 4 (int (crc payload))) (\<lambda>c. Inr (l @ c)))"

definition storage_write :: "bytes \<Rightarrow> (storage, nat) act" where
  "storage_write payload st =
     (if readonly st then (Inl ImmuStoreError, st)
      else
        let address = max (file_size st) SUPERBLOCK_SIZE in
        bindS (lift (\<lambda>_. record_header payload)) (\<lambda>h.
        bindS (write_at address (h @ payload)) (\<lambda>_.
          ret address)) st)"

definition storage_read :: "storage \<Rightarrow> nat \<Rightarrow> bytes result" where
  "storage_read st address =
     (if address \<le> 0 then Inl DatabaseCorruptionError
      else
        let header = read_at st address RECORD_HEADER_BYTES in
        if length header \<noteq> RECORD_HEADER_BYTES then Inl DatabaseCorruptionError
        else
          let len = be_nat (take 4 header);
              stored_crc = be_nat (drop 4 header);
              payload = read_at st (address + RECORD_HEADER_BYTES) len in
          if length payload \<noteq> len then Inl DatabaseCorruptionError
          else if crc payload \<noteq> stored_crc then Inl DatabaseCorruptionError
          else Inr payload)"

text \<open>The loop of \<open>count_records\<close> from \<open>address\<close> on; every round advances past a header.\<close>

function count_from :: "storage \<Rightarrow> nat \<Rightarrow> nat \<Rightarrow> nat \<Rightarrow> nat result" where
  "count_from st end address n =
     (if address < end then
        let header = read_at st address RECORD_HEADER_BYTES in
        if length header \<noteq> RECORD_HEADER_BYTES then Inl DatabaseCorruptionError
        else count_from st end (address + RECORD_HEADER_BYTES + be_nat (take 4 header)) (n + 1)
      else if address \<noteq> end then Inl DatabaseCorruptionError
      else Inr n)"
  by pat_completeness auto
termination
  by (relation "measure (\<lambda>(st, end, address, n). end - address)")
     (auto simp: RECORD_HEADER_BYTES_def)

declare count_from.simps [simp del]

definition count_records :: "storage \<Rightarrow> nat result" where
  "count_records st = count_from st (file_size st) SUPERBLOCK_SIZE 0"

definition storage_stats :: "(storage, storage_stats) act" where
  "storage_stats =
     bindS refresh_meta (\<lambda>m.
     bindS (gets file_size) (\<lambda>sz.
     bindS (lift count_records) (\<lambda>n.
       ret \<lparr>ss_file_size = sz, ss_root_address = root_address m, ss_record_count = n,
            ss_key_count = key_count m, ss_txn_id = txn_id m\<rparr>)))"

definition storage_close :: "(storage, unit) act" where
  "storage_close =
     bindS (gets locked) (\<lambda>l.
     bindS (whenS l unlock) (\<lambda>_.
       modify (\<lambda>st. st\<lparr>disk := disk_close (disk st)\<rparr>)))"

section \<open>CRC-32 separates payloads that differ in one byte\<close>

lemma crc32_bit_top: "bit (crc32_bit c) 31 = bit c 0"
  by (auto simp: crc32_bit_def bit_drop_bit_eq bit_xor_iff dest: bit_imp_le_length)

lemma xor_left_cancel: "(c :: 32 word) XOR a = c XOR b \<longleftrightarrow> a = b"
  by (metis xor.assoc xor_self_eq xor.left_neutral)

lemma xor_right_cancel: "(a :: 32 word) XOR c = b XOR c \<longleftrightarrow> a = b"
  by (metis xor.commute xor_left_cancel)

lemma crc32_bit_inj: "crc32_bit a = crc32_bit b \<Longrightarrow> a = b"
proof -
  assume eq: "crc32_bit a = crc32_bit b"
  then have b0: "bit a 0 = bit b 0"
    by (metis crc32_bit_top)
  with eq have d: "drop_bit 1 a = drop_bit 1 b"
    by (auto simp: crc32_bit_def xor_right_cancel split: if_splits) 
  show "a = b"
  proof (rule bit_word_eqI)
    fix n assume n: "n < LENGTH(32)"
    show "bit a n = bit b n"
    proof (cases n)
      case 0 then show ?thesis using b0 by simp
    next
      case (Suc m)
      from d have "bit (drop_bit 1 a) m = bit (drop_bit 1 b) m" by simp
      with Suc show ?thesis by (simp add: bit_drop_bit_eq)
    qed
  qed
qed

lemma funpow_inj:
  fixes f :: "'a \<Rightarrow> 'a"
  shows "(\<And>x y. f x = f y \<Longrightarrow> x = y) \<Longrightarrow> (f ^^ n) x = (f ^^ n) y \<Longrightarrow> x = y"
  by (induction n) auto

lemma crc32_byte_inj_byte: "crc32_byte c a = crc32_byte c b \<Longrightarrow> a = b"
proof -
  assume "crc32_byte c a = crc32_byte c b"
  then have "c XOR ucast a = c XOR ucast b"
    unfolding crc32_byte_def using funpow_inj [of crc32_bit] crc32_bit_inj by blast
  then have "(ucast a :: 32 word) = ucast b"
    by (simp only: xor_left_cancel)
  then have eq: "bit (ucast a :: 32 word) n = bit (ucast b :: 32 word) n" for n
    by simp
  show "a = b"
  proof (rule bit_word_eqI)
    fix n
    assume "n < LENGTH(8)"
    then show "bit a n = bit b n"
      using eq [of n] by (simp add: bit_ucast_iff)
  qed
qed

lemma crc32_byte_inj_state: "crc32_byte c b = crc32_byte d b \<Longrightarrow> c = d"
proof -
  assume "crc32_byte c b = crc32_byte d b"
  then have "c XOR ucast b = d XOR ucast b"
    unfolding crc32_byte_def using funpow_inj [of crc32_bit] crc32_bit_inj by blast
  then show "c = d"
    by (simp only: xor_right_cancel)
qed

lemma foldl_crc32_inj: "foldl crc32_byte c bs = foldl crc32_byte d bs \<Longrightarrow> c = d"
  by (induction bs arbitrary: c d) (auto dest: crc32_byte_inj_state)

lemma crc32_single_byte:
  assumes "a \<noteq> b"
  shows "crc32 (xs @ a # ys) \<noteq> crc32 (xs @ b # ys)"
  using assms by (auto simp: crc32_def dest: foldl_crc32_inj crc32_byte_inj_byte)

lemma crc_less: "crc bs < 256 ^ 4"
  unfolding crc_def using unsigned_less [of "crc32 bs AND 0xFFFFFFFF", where ?'a = nat] by simp

lemma crc_eq: "crc bs = unat (crc32 bs)"
proof -
  have "(0xFFFFFFFF :: 32 word) = - 1" by simp
  then show ?thesis unfolding crc_def by (simp only: and.right_neutral)
qed

lemma crc_single_byte: "a \<noteq> b \<Longrightarrow> crc (xs @ a # ys) \<noteq> crc (xs @ b # ys)"
  using crc32_single_byte [of a b xs ys] by (simp add: crc_eq word_unat_eq_iff)

section \<open>Reading and writing the file\<close>

lemma read_at_slice [simp]: "read_at st off n = slice_at off n (live (disk st))"
  by (simp add: read_at_def disk_read_def slice_at_def Let_def min_def)

lemma file_size_live [simp]: "file_size st = length (live (disk st))"
  by (simp add: file_size_def disk_tell_def)

lemma read_slot_cong:
  assumes "slice_at (i * META_SLOT_SIZE) (META_BODY_BYTES + META_CRC_BYTES) (live (disk st))
    = slice_at (i * META_SLOT_SIZE) (META_BODY_BYTES + META_CRC_BYTES) (live (disk st'))"
  shows "read_slot st i = read_slot st' i"
  by (simp add: read_slot_def assms)

lemma read_slot_prefix:
  assumes "take SUPERBLOCK_SIZE (live (disk st)) = take SUPERBLOCK_SIZE (live (disk st'))" "i < 2"
  shows "read_slot st i = read_slot st' i"
proof (rule read_slot_cong, rule slice_prefix_eq [OF assms(1)])
  from assms(2) have "i = 0 \<or> i = 1" by auto
  then show "i * META_SLOT_SIZE + (META_BODY_BYTES + META_CRC_BYTES) \<le> SUPERBLOCK_SIZE"
    by (auto simp: layout_defs)
qed

lemma read_best_meta_eq:
  "read_best_meta st =
     bindR (read_slot st 0) (\<lambda>a. bindR (read_slot st 1) (\<lambda>b.
       case (a, b) of
         (None, None) \<Rightarrow> Inl DatabaseCorruptionError
       | (Some m, None) \<Rightarrow> Inr m
       | (None, Some m') \<Rightarrow> Inr m'
       | (Some m, Some m') \<Rightarrow> Inr (if txn_id m < txn_id m' then m' else m)))"
  by (cases "read_slot st 0"; cases "read_slot st 1")
     (auto simp: read_best_meta_def META_SLOTS_def upt_rec split: option.splits)

lemma read_slot_slot: "read_slot st i = Inr (Some m) \<Longrightarrow> slot m = i"
  by (auto simp: read_slot_def Let_def split: if_splits)

lemma read_best_metaD:
  assumes "read_best_meta st = Inr m"
  shows "slot m < 2" "read_slot st (slot m) = Inr (Some m)"
    "\<exists>r. read_slot st (1 - slot m) = Inr r"
proof -
  from assms obtain a b where ab: "read_slot st 0 = Inr a" "read_slot st 1 = Inr b"
    by (auto simp: read_best_meta_eq bindR_eq_Inr)
  with assms have "a = Some m \<or> b = Some m"
    by (auto simp: read_best_meta_eq split: option.splits if_splits)
  then show "slot m < 2" "read_slot st (slot m) = Inr (Some m)"
    "\<exists>r. read_slot st (1 - slot m) = Inr r"
    using ab read_slot_slot by (auto dest: read_slot_slot)
qed

lemma read_best_meta_prefix:
  assumes "take SUPERBLOCK_SIZE (live (disk st)) = take SUPERBLOCK_SIZE (live (disk st'))"
  shows "read_best_meta st = read_best_meta st'"
  using read_slot_prefix [OF assms] by (simp add: read_best_meta_eq)

section \<open>The bytes of a meta slot\<close>

definition meta_fits :: "meta \<Rightarrow> bool" where
  "meta_fits m \<longleftrightarrow> txn_id m < 256 ^ 8 \<and> root_address m < 256 ^ 8
     \<and> 0 \<le> key_count m \<and> key_count m < 256 ^ 8 \<and> data_length m < 256 ^ 8"

definition meta_bytes :: "meta \<Rightarrow> bytes" where
  "meta_bytes m = MAGIC @ be_bytes 4 FORMAT_VERSION @ be_bytes 8 (txn_id m)
     @ be_bytes 8 (root_address m) @ be_bytes 8 (nat (key_count m)) @ be_bytes 8 (data_length m)"

definition slot_block :: "meta \<Rightarrow> bytes" where
  "slot_block m = meta_bytes m @ be_bytes 4 (crc (meta_bytes m)) @ replicate 4052 0"

lemma length_MAGIC [simp]: "length MAGIC = 4"
  by (simp add: MAGIC_def)

lemma length_meta_bytes [simp]: "length (meta_bytes m) = 40"
  by (simp add: meta_bytes_def)

lemma length_slot_block [simp]: "length (slot_block m) = META_SLOT_SIZE"
  by (simp add: slot_block_def META_SLOT_SIZE_def)

lemma pack_uint_int: "pack_uint k (int n) = (if n < 256 ^ k then Inr (be_bytes k n) else Inl StructError)"
proof -
  have "int n < 256 ^ k \<longleftrightarrow> n < 256 ^ k"
    by (metis of_nat_less_iff of_nat_numeral of_nat_power)
  then show ?thesis by (simp add: pack_uint_def)
qed

lemma meta_body_fits:
  "meta_body m = (if meta_fits m then Inr (meta_bytes m) else Inl StructError)"
proof -
  have v: "FORMAT_VERSION < 4294967296"
    by (simp add: FORMAT_VERSION_def)
  show ?thesis
    by (auto simp: meta_body_def v pack_uint_int meta_fits_def meta_bytes_def pack_uint_def [of _ "key_count m"])
qed

lemma write_slot_eq:
  "write_slot i m st = (if meta_fits m then write_at (i * META_SLOT_SIZE) (slot_block m) st
     else (Inl StructError, st))"
proof -
  have "pack_uint 4 (int (crc bs)) = Inr (be_bytes 4 (crc bs))" for bs
    using crc_less [of bs] by (simp add: pack_uint_int)
  then show ?thesis
    by (simp add: write_slot_def bindS_def lift_def meta_body_fits slot_block_def
        META_CRC_BYTES_def META_SLOT_SIZE_def)
qed

lemma slice_at_append:
  "slice_at off n (xs @ ys) =
     (if off + n \<le> length xs then slice_at off n xs
      else if length xs \<le> off then slice_at (off - length xs) n ys
      else drop off xs @ take (n - (length xs - off)) ys)"
  by (auto simp: slice_at_def)

lemma slice_at_0_all [simp]: "n = length xs \<Longrightarrow> slice_at 0 n xs = xs"
  by (simp add: slice_at_def)

lemma read_slot_block:
  assumes "slice_at (i * META_SLOT_SIZE) 44 (live (disk st)) = take 44 (slot_block m)"
    and "meta_fits m" "slot m = i"
  shows "read_slot st i = Inr (Some m)"
proof -
  let ?raw = "slice_at (i * META_SLOT_SIZE) 44 (live (disk st))"
  have raw: "?raw = meta_bytes m @ be_bytes 4 (crc (meta_bytes m))"
    by (simp add: assms(1) slot_block_def)
  have fields: "slice_at 0 4 (meta_bytes m) = MAGIC"
    "slice_at 4 4 (meta_bytes m) = be_bytes 4 FORMAT_VERSION"
    "slice_at 8 8 (meta_bytes m) = be_bytes 8 (txn_id m)"
    "slice_at 16 8 (meta_bytes m) = be_bytes 8 (root_address m)"
    "slice_at 24 8 (meta_bytes m) = be_bytes 8 (nat (key_count m))"
    "slice_at 32 8 (meta_bytes m) = be_bytes 8 (data_length m)"
    by (simp_all add: meta_bytes_def slice_at_append)
  have "nat (key_count m) < 256 ^ 8"
    using assms(2) by (simp add: meta_fits_def nat_less_iff)
  then have k: "int (be_nat (be_bytes 8 (nat (key_count m)))) = key_count m"
    using assms(2) by (simp only: be_nat_be_bytes) (simp add: meta_fits_def)
  show ?thesis
    using assms(2,3) crc_less [of "meta_bytes m"]
    by (simp add: read_slot_def META_BODY_BYTES_def META_CRC_BYTES_def raw fields k meta_fits_def
        FORMAT_VERSION_def)
qed

section \<open>The invariant of an open storage\<close>

definition storage_inv :: "storage \<Rightarrow> meta \<Rightarrow> bool" where
  "storage_inv st m \<longleftrightarrow>
     \<not> readonly st \<and> smeta st = Some m \<and> read_best_meta st = Inr m
     \<and> SUPERBLOCK_SIZE \<le> data_length m \<and> data_length m \<le> length (live (disk st))
     \<and> (durability st = DURABILITY_FULL \<longrightarrow>
          data_length m \<le> length (durable (disk st))
          \<and> take (data_length m) (durable (disk st)) = take (data_length m) (live (disk st)))"

lemma storage_inv_simps:
  assumes "storage_inv st m"
  shows "\<not> readonly st" "smeta st = Some m" "read_best_meta st = Inr m"
    "SUPERBLOCK_SIZE \<le> data_length m" "data_length m \<le> length (live (disk st))"
    "slot m < 2" "read_slot st (slot m) = Inr (Some m)"
  using assms read_best_metaD [of st m] by (auto simp: storage_inv_def)

text \<open>What an operation that only appends does to a storage.\<close>

definition appended :: "storage \<Rightarrow> storage \<Rightarrow> bytes \<Rightarrow> bool" where
  "appended st st' bs \<longleftrightarrow>
     live (disk st') = live (disk st) @ bs \<and> durable (disk st') = durable (disk st)
     \<and> closed (disk st') = closed (disk st)
     \<and> flush_count (disk st') = flush_count (disk st)
     \<and> crash_at_flush (disk st') = crash_at_flush (disk st)
     \<and> locked st' = locked st \<and> durability st' = durability st \<and> readonly st' = readonly st
     \<and> smeta st' = smeta st"

lemma appended_refl [simp]: "appended st st []"
  by (simp add: appended_def)

lemma appended_trans: "appended st st' bs \<Longrightarrow> appended st' st'' cs \<Longrightarrow> appended st st'' (bs @ cs)"
  by (simp add: appended_def)

lemma appended_inv:
  assumes "storage_inv st m" "appended st st' bs"
  shows "storage_inv st' m"
proof -
  have "take SUPERBLOCK_SIZE (live (disk st')) = take SUPERBLOCK_SIZE (live (disk st))"
    using assms by (simp add: storage_inv_def appended_def)
  then have "read_best_meta st' = read_best_meta st"
    by (rule read_best_meta_prefix)
  then show ?thesis
    using assms by (auto simp: storage_inv_def appended_def)
qed

section \<open>Commits\<close>

definition flush_crashes :: "disk \<Rightarrow> bool" where
  "flush_crashes d = (case crash_at_flush d of None \<Rightarrow> False | Some n \<Rightarrow> n \<le> flush_count d + 1)"

lemma flush_eq:
  "flush st =
     (if flush_crashes (disk st)
      then (Inl SimCrash, st\<lparr>disk := disk st\<lparr>flush_count := flush_count (disk st) + 1, crash_at_flush := None\<rparr>\<rparr>)
      else (Inr (), st\<lparr>disk := disk st\<lparr>flush_count := flush_count (disk st) + 1, durable := live (disk st)\<rparr>\<rparr>))"
  by (simp add: flush_def disk_flush_def flush_crashes_def Let_def split: option.splits)

lemma flush_cases:
  obtains (ok) d where "flush st = (Inr (), st\<lparr>disk := d\<rparr>)" "live d = live (disk st)"
      "durable d = live (disk st)" "closed d = closed (disk st)"
      "crash_at_flush d = crash_at_flush (disk st)" "flush_count d = Suc (flush_count (disk st))"
      "\<not> flush_crashes (disk st)"
  | (crash) d where "flush st = (Inl SimCrash, st\<lparr>disk := d\<rparr>)" "live d = live (disk st)"
      "durable d = durable (disk st)" "closed d = closed (disk st)" "crash_at_flush d = None"
      "flush_crashes (disk st)"
  using flush_eq [of st] by (cases "flush_crashes (disk st)") auto

lemma flush_crashes_armed: "flush_crashes d \<Longrightarrow> crash_at_flush d \<noteq> None"
  by (auto simp: flush_crashes_def split: option.splits)

text \<open>How many flushes are left until an armed crash, and what the two flushes of a commit do to that.\<close>

definition flushes_left :: "disk \<Rightarrow> nat option" where
  "flushes_left d = map_option (\<lambda>n. n - flush_count d) (crash_at_flush d)"

definition crashes_soon :: "disk \<Rightarrow> bool" where
  "crashes_soon d \<longleftrightarrow> (case flushes_left d of None \<Rightarrow> False | Some n \<Rightarrow> n \<le> 2)"

definition flushed_twice :: "disk \<Rightarrow> disk \<Rightarrow> bool" where
  "flushed_twice d d' \<longleftrightarrow> \<not> crashes_soon d \<and> flushes_left d' = map_option (\<lambda>n. n - 2) (flushes_left d)"

lemma flushes_left_arm [simp]: "flushes_left (arm_crash n d) = Some n"
  by (simp add: flushes_left_def arm_crash_def)

lemma flushes_left_None: "flushes_left d = None \<longleftrightarrow> crash_at_flush d = None"
  by (simp add: flushes_left_def)

lemma crashes_soon_flush:
  "flush_crashes d \<Longrightarrow> crashes_soon d"
  "crash_at_flush d' = crash_at_flush d \<Longrightarrow> flush_count d' = Suc (flush_count d) \<Longrightarrow> flush_crashes d' \<Longrightarrow> crashes_soon d"
  by (auto simp: flush_crashes_def crashes_soon_def flushes_left_def split: option.splits)

lemma flushed_twiceI:
  "crash_at_flush d' = crash_at_flush d \<Longrightarrow> flush_count d' = Suc (Suc (flush_count d)) \<Longrightarrow> \<not> flush_crashes d1
    \<Longrightarrow> crash_at_flush d1 = crash_at_flush d \<Longrightarrow> flush_count d1 = Suc (flush_count d) \<Longrightarrow> flushed_twice d d'"
  by (auto simp: flush_crashes_def crashes_soon_def flushed_twice_def flushes_left_def split: option.splits)

lemma flush_count_same:
  assumes "crash_at_flush d' = crash_at_flush d" "flush_count d' = flush_count d"
  shows "crashes_soon d' \<longleftrightarrow> crashes_soon d" "flushed_twice d' e \<longleftrightarrow> flushed_twice d e"
  using assms by (simp_all add: crashes_soon_def flushed_twice_def flushes_left_def)

lemma lock_eq: "lock st = (Inr (\<not> locked st), st\<lparr>locked := True\<rparr>)"
  by (cases st) (auto simp: lock_def)

lemma unlock_eq: "unlock st = (Inr (), st\<lparr>locked := False\<rparr>)"
  by (cases st) (auto simp: unlock_def)

lemma meta_slot_page:
  assumes "slot m < 2"
  shows "(1 - slot m) * META_SLOT_SIZE + META_SLOT_SIZE \<le> SUPERBLOCK_SIZE"
  using assms by (cases "slot m") (auto simp: layout_defs)

lemma read_best_meta_written:
  assumes m: "read_best_meta st = Inr m"
    and live: "live (disk st') = overwrite ((1 - slot m) * META_SLOT_SIZE) (slot_block new) (live (disk st))"
    and len: "SUPERBLOCK_SIZE \<le> length (live (disk st))"
    and new: "meta_fits new" "slot new = 1 - slot m" "txn_id m < txn_id new"
  shows "read_best_meta st' = Inr new"
proof -
  note m' = read_best_metaD [OF m]
  have "slice_at ((1 - slot m) * META_SLOT_SIZE) 44 (live (disk st')) = take 44 (slot_block new)"
    by (simp add: live overwrite_def slice_at_def Let_def min_def META_SLOT_SIZE_def)
  then have other: "read_slot st' (1 - slot m) = Inr (Some new)"
    using new by (intro read_slot_block)
  have "read_slot st' (slot m) = read_slot st (slot m)"
  proof (rule read_slot_cong)
    show "slice_at (slot m * META_SLOT_SIZE) (META_BODY_BYTES + META_CRC_BYTES) (live (disk st'))
      = slice_at (slot m * META_SLOT_SIZE) (META_BODY_BYTES + META_CRC_BYTES) (live (disk st))"
    proof (cases "slot m = 0")
      case True
      then show ?thesis
        using len by (simp add: live slice_overwrite_below layout_defs)
    next
      case False
      then have "slot m = 1" using m' by simp
      then show ?thesis
        using len by (simp add: live slice_overwrite_above layout_defs)
    qed
  qed
  then have same: "read_slot st' (slot m) = Inr (Some m)"
    using m' by simp
  show ?thesis
  proof (cases "slot m = 0")
    case True
    then show ?thesis using same other new by (simp add: read_best_meta_eq)
  next
    case False
    then have "slot m = 1" using m' by simp
    then show ?thesis using same other new by (simp add: read_best_meta_eq)
  qed
qed

text \<open>
  What a commit does: with the storage invariant it ends in one of three ways. It
  succeeds and the new meta block is the one recovery will read; a flush crashed and the
  durable bytes still hold the old state up to its recorded length; or a field of the
  meta block does not fit and nothing was written.
\<close>

lemma commit_root_address_cases:
  fixes root :: nat and n :: int
  assumes inv: "storage_inv st m" and full: "durability st = DURABILITY_FULL"
  defines "new \<equiv> next_meta root n m (length (live (disk st)))"
  obtains (ok) st' where "commit_root_address root n st = (Inr (), st')" "meta_fits new"
      "storage_inv st' new" "\<not> locked st'"
      "live (disk st') = overwrite (slot new * META_SLOT_SIZE) (slot_block new) (live (disk st))"
      "durable (disk st') = live (disk st')" "durability st' = DURABILITY_FULL"
      "crash_at_flush (disk st') = crash_at_flush (disk st)"
      "closed (disk st') = closed (disk st)" "flushed_twice (disk st) (disk st')"
  | (crash) st' where "commit_root_address root n st = (Inl SimCrash, st')"
      "data_length m \<le> length (durable (disk st'))"
      "take (data_length m) (durable (disk st')) = take (data_length m) (live (disk st))"
      "crash_at_flush (disk st) \<noteq> None" "crashes_soon (disk st)"
  | (too_big) st' where "commit_root_address root n st = (Inl StructError, st')" "\<not> meta_fits new"
      "data_length m \<le> length (durable (disk st'))"
      "take (data_length m) (durable (disk st')) = take (data_length m) (live (disk st))"
proof -
  note m = storage_inv_simps [OF inv]
  let ?st1 = "st\<lparr>locked := True\<rparr>"
  have new: "txn_id m < txn_id new" "slot new = 1 - slot m"
    "data_length new = length (live (disk st))"
    by (simp_all add: new_def next_meta_def)
  show thesis
  proof (cases ?st1 rule: flush_cases)
    case (crash d)
    then have "commit_root_address root n st = (Inl SimCrash, ?st1\<lparr>disk := d\<rparr>)"
      using m full by (simp add: commit_root_address_def bindS_def lock_eq whenS_def)
    moreover have "crash_at_flush (disk st) \<noteq> None" "crashes_soon (disk st)"
      using flush_crashes_armed [OF crash(6)] crashes_soon_flush(1) [OF crash(6)] by simp_all
    ultimately show thesis
      using crash inv full by (intro that(2)) (auto simp: storage_inv_def)
  next
    case (ok d)
    note first = ok
    let ?st2 = "?st1\<lparr>disk := d\<rparr>"
    let ?off = "slot new * META_SLOT_SIZE"
    show thesis
    proof (cases "meta_fits new")
      case False
      then have "commit_root_address root n st = (Inl StructError, ?st2)"
        using ok m full new_def
        by (simp add: commit_root_address_def bindS_def lock_eq whenS_def gets_def Let_def write_slot_eq)
      then show thesis using False ok m by (intro that(3)) auto
    next
      case True
      let ?d3 = "disk_write (slot_block new) (disk_seek ?off SEEK_SET d)"
      let ?st3 = "?st2\<lparr>disk := ?d3\<rparr>"
      have w: "commit_root_address root n st =
        bindS flush (\<lambda>_. bindS (modify (\<lambda>st. st\<lparr>smeta := Some new\<rparr>)) (\<lambda>_. unlock)) ?st3"
        using ok m full new_def True
        by (simp add: commit_root_address_def bindS_def [of lock] bindS_def [of flush "\<lambda>_. bindS (gets smeta) _"]
             bindS_def [of "gets _"] lock_eq whenS_def gets_def Let_def
            write_slot_eq write_at_def bindS_def [of "write_slot _ _"])
      have live3: "live ?d3 = overwrite ?off (slot_block new) (live (disk st))"
        using ok by (simp add: disk_write_def)
      have best: "read_best_meta ?st3 = Inr new"
        using m new True live3 by (intro read_best_meta_written [OF m(3)]) auto
      show thesis
      proof (cases ?st3 rule: flush_cases)
        case (crash d4)
        then have "commit_root_address root n st = (Inl SimCrash, ?st3\<lparr>disk := d4\<rparr>)"
          unfolding w by simp
        moreover have "crash_at_flush (disk st) \<noteq> None"
          using flush_crashes_armed [OF crash(6)] ok by (simp add: disk_write_def)
        moreover have "crashes_soon (disk st)"
          by (rule crashes_soon_flush(2) [OF _ _ crash(6)]) (use ok in \<open>simp_all add: disk_write_def\<close>)
        ultimately show thesis
          using crash ok m by (intro that(2)) (auto simp: disk_write_def)
      next
        case (ok d4)
        let ?st4 = "?st3\<lparr>disk := d4, smeta := Some new, locked := False\<rparr>"
        have c: "commit_root_address root n st = (Inr (), ?st4)"
          unfolding w using ok by (simp add: modify_def unlock_eq bindS_def)
        have "take SUPERBLOCK_SIZE (live (disk ?st4)) = take SUPERBLOCK_SIZE (live (disk ?st3))"
          using ok by simp
        then have "read_best_meta ?st4 = Inr new"
          using best read_best_meta_prefix by metis
        moreover have "length (live d4) = length (live (disk st))"
          using ok live3 m new meta_slot_page [OF m(6)] by simp
        ultimately have inv': "storage_inv ?st4 new"
          using m new ok by (simp add: storage_inv_def)
        have twice: "flushed_twice (disk st) (disk ?st4)"
          by (rule flushed_twiceI [of _ _ "disk ?st3"]) (use ok first in \<open>simp_all add: disk_write_def\<close>)
        show thesis
          by (rule that(1) [OF c True inv'])
             (use ok live3 full first twice in \<open>simp_all add: disk_write_def\<close>)
      qed
    qed
  qed
qed

section \<open>Opening a file\<close>

text \<open>\<open>file_meta f\<close> is what recovery reads as the newest meta block of a file \<open>f\<close>.\<close>

definition file_meta :: "bytes \<Rightarrow> meta result" where
  "file_meta f =
     read_best_meta \<lparr>disk = SimDisk f, locked = False, durability = DURABILITY_FULL,
       readonly = False, smeta = None\<rparr>"

lemma read_best_meta_file: "read_best_meta st = file_meta (live (disk st))"
  unfolding file_meta_def by (rule read_best_meta_prefix) (simp add: SimDisk_def)

lemma file_meta_prefix:
  "take SUPERBLOCK_SIZE f = take SUPERBLOCK_SIZE g \<Longrightarrow> file_meta f = file_meta g"
  unfolding file_meta_def by (rule read_best_meta_prefix) (simp add: SimDisk_def)

lemma Storage_recovers:
  assumes best: "file_meta f = Inr m"
    and len: "SUPERBLOCK_SIZE \<le> data_length m" "data_length m \<le> length f"
  obtains st where "Storage (SimDisk f) DURABILITY_FULL False = (Inr (), st)"
    "live (disk st) = take (data_length m) f" "durable (disk st) = take (data_length m) f"
    "smeta st = Some m" "storage_inv st m" "\<not> locked st" "durability st = DURABILITY_FULL"
    "crash_at_flush (disk st) = None" "\<not> closed (disk st)"
proof -
  let ?st = "\<lparr>disk = SimDisk f, locked = False, durability = DURABILITY_FULL,
       readonly = False, smeta = None\<rparr>"
  have best': "read_best_meta (?st\<lparr>locked := True\<rparr>) = Inr m"
    using best by (simp add: read_best_meta_file SimDisk_def)
  have pre: "file_meta (take (data_length m) f) = Inr m"
    using best file_meta_prefix [of "take (data_length m) f" f] len by simp
  show thesis
  proof (cases "data_length m < length f")
    case True
    let ?d = "(SimDisk f)\<lparr>live := take (data_length m) f, durable := take (data_length m) f, flush_count := 1\<rparr>"
    have "Storage (SimDisk f) DURABILITY_FULL False
      = (Inr (), ?st\<lparr>disk := ?d, smeta := Some m\<rparr>)"
      using best' len True
      by (simp add: Storage_def Let_def ensure_meta_def recover_def lock_eq unlock_eq bindS_def finallyS_def
          act_defs disk_truncate_def flush_def disk_flush_def SimDisk_def)
    then show thesis
      using len pre
      by (intro that) (auto simp: SimDisk_def storage_inv_def read_best_meta_file min_def)
  next
    case False
    then have eq: "data_length m = length f" using len by simp
    have "Storage (SimDisk f) DURABILITY_FULL False = (Inr (), ?st\<lparr>smeta := Some m\<rparr>)"
      using best' len False
      by (simp add: Storage_def Let_def ensure_meta_def recover_def lock_eq unlock_eq bindS_def finallyS_def
          act_defs SimDisk_def)
    then show thesis
      using len pre eq
      by (intro that) (auto simp: SimDisk_def storage_inv_def read_best_meta_file)
  qed
qed

lemma Storage_initialises:
  assumes "length f < SUPERBLOCK_SIZE"
  obtains st where "Storage (SimDisk f) DURABILITY_FULL False = (Inr (), st)"
    "storage_inv st (empty_meta 0)" "\<not> locked st" "durability st = DURABILITY_FULL"
    "length (live (disk st)) = SUPERBLOCK_SIZE" "durable (disk st) = live (disk st)"
    "crash_at_flush (disk st) = None" "\<not> closed (disk st)"
proof -
  let ?f0 = "overwrite 0 (slot_block (empty_meta 0)) f"
  let ?f1 = "overwrite META_SLOT_SIZE (slot_block (empty_meta 1)) ?f0"
  have fits: "meta_fits (empty_meta 0)" "meta_fits (empty_meta 1)"
    by (simp_all add: meta_fits_def empty_meta_def layout_defs)
  have len: "length ?f1 = SUPERBLOCK_SIZE"
    using assms by (simp add: layout_defs)
  let ?d = "(SimDisk f)\<lparr>live := ?f1, durable := ?f1, pos := SUPERBLOCK_SIZE, flush_count := 1\<rparr>"
  let ?st = "\<lparr>disk = ?d, locked = False, durability = DURABILITY_FULL, readonly = False,
       smeta = Some (empty_meta 0)\<rparr>"
  have open_eq: "Storage (SimDisk f) DURABILITY_FULL False = (Inr (), ?st)"
    using assms fits len
    by (simp add: Storage_def Let_def ensure_meta_def init_meta_def bindS_def act_defs write_slot_eq
        write_at_def disk_write_def disk_truncate_def flush_def disk_flush_def SimDisk_def layout_defs)
  have "slice_at (1 * META_SLOT_SIZE) 44 ?f1 = take 44 (slot_block (empty_meta 1))"
    by (simp add: overwrite_def slice_at_def Let_def min_def META_SLOT_SIZE_def)
  then have r1: "read_slot ?st 1 = Inr (Some (empty_meta 1))"
    using fits by (intro read_slot_block) (simp_all add: empty_meta_def)
  have "slice_at 0 44 ?f1 = slice_at 0 44 ?f0"
    using assms by (intro slice_overwrite_below) (simp_all add: layout_defs)
  also have "\<dots> = take 44 (slot_block (empty_meta 0))"
    by (simp add: overwrite_def slice_at_def Let_def min_def META_SLOT_SIZE_def)
  finally have r0: "read_slot ?st 0 = Inr (Some (empty_meta 0))"
    using fits by (intro read_slot_block) (simp_all add: empty_meta_def)
  have "read_best_meta ?st = Inr (empty_meta 0)"
    using r0 r1 by (simp add: read_best_meta_eq empty_meta_def)
  then have inv: "storage_inv ?st (empty_meta 0)"
    using len by (simp add: storage_inv_def empty_meta_def)
  show thesis
    by (rule that [OF open_eq inv]) (use len in \<open>simp_all add: SimDisk_def\<close>)
qed

section \<open>Records\<close>

lemma record_header_eq:
  "record_header p = (if length p < 256 ^ 4 then Inr (be_bytes 4 (length p) @ be_bytes 4 (crc p))
     else Inl StructError)"
  using crc_less [of p] by (simp add: record_header_def pack_uint_int)

lemma storage_write_cases:
  assumes "\<not> readonly st" "SUPERBLOCK_SIZE \<le> length (live (disk st))"
  obtains (ok) st' where "storage_write p st = (Inr (length (live (disk st))), st')"
      "length p < 256 ^ 4"
      "appended st st' (be_bytes 4 (length p) @ be_bytes 4 (crc p) @ p)"
  | (too_big) "storage_write p st = (Inl StructError, st)" "\<not> length p < 256 ^ 4"
proof (cases "length p < 256 ^ 4")
  case True
  let ?h = "be_bytes 4 (length p) @ be_bytes 4 (crc p)"
  let ?st = "st\<lparr>disk := disk_write (?h @ p) (disk_seek (length (live (disk st))) SEEK_SET (disk st))\<rparr>"
  have "storage_write p st = (Inr (length (live (disk st))), ?st)"
    using True assms
    by (simp add: storage_write_def Let_def bindS_def act_defs record_header_eq write_at_def max_def)
  moreover have "appended st ?st (?h @ p)"
    by (simp add: appended_def disk_write_def overwrite_end)
  ultimately show thesis using True ok by simp
next
  case False
  then have "storage_write p st = (Inl StructError, st)"
    using assms by (simp add: storage_write_def Let_def bindS_def act_defs record_header_eq)
  then show thesis using False too_big by blast
qed

lemma storage_read_record:
  assumes "live (disk st) = xs @ be_bytes 4 (length p) @ be_bytes 4 c @ q @ ys" "xs \<noteq> []"
    "length q = length p" "length p < 256 ^ 4" "c < 256 ^ 4"
  shows "storage_read st (length xs) = (if crc q = c then Inr q else Inl DatabaseCorruptionError)"
proof -
  have h: "slice_at (length xs) 8 (live (disk st)) = be_bytes 4 (length p) @ be_bytes 4 c"
    by (simp add: assms(1) slice_at_def)
  have b: "slice_at (length xs + 8) (length p) (live (disk st)) = q"
    by (simp add: assms(1,3) slice_at_def)
  show ?thesis
    using assms(2-5) by (simp add: storage_read_def RECORD_HEADER_BYTES_def Let_def h b)
qed

text \<open>
  A record that can be read stays readable, with the same payload, in every later file
  that has the same bytes past the meta slots, possibly followed by more.
\<close>

lemma slice_at_drop: "s \<le> a \<Longrightarrow> slice_at a n xs = slice_at (a - s) n (drop s xs)"
  by (simp add: slice_at_def)

lemma slice_at_extend:
  assumes "s \<le> a" "drop s ys = drop s xs @ zs" "length (slice_at a n xs) = n"
  shows "slice_at a n ys = slice_at a n xs"
proof (cases "n = 0")
  case True
  then show ?thesis by (simp add: slice_at_def)
next
  case False
  then have "a + n \<le> length xs"
    using assms(3) by (auto simp: length_slice_at min_def split: if_splits)
  then have "a - s + n \<le> length (drop s xs)"
    using assms(1) by simp
  then show ?thesis
    by (simp add: slice_at_drop [OF assms(1)] assms(2) slice_append_left)
qed

lemma storage_read_frame:
  assumes "storage_read st a = Inr p" "SUPERBLOCK_SIZE \<le> a"
    "drop SUPERBLOCK_SIZE (live (disk st')) = drop SUPERBLOCK_SIZE (live (disk st)) @ bs"
  shows "storage_read st' a = Inr p"
proof -
  let ?h = "slice_at a RECORD_HEADER_BYTES (live (disk st))"
  let ?n = "be_nat (take 4 ?h)"
  have h: "length ?h = RECORD_HEADER_BYTES" and n: "length p = ?n"
    and p: "slice_at (a + RECORD_HEADER_BYTES) ?n (live (disk st)) = p"
    and c: "crc p = be_nat (drop 4 ?h)" and a: "0 < a"
    using assms(1) by (auto simp: storage_read_def Let_def split: if_splits)
  have h': "slice_at a RECORD_HEADER_BYTES (live (disk st')) = ?h"
    using assms(2,3) h by (rule slice_at_extend)
  have "slice_at (a + RECORD_HEADER_BYTES) ?n (live (disk st')) = p"
    using slice_at_extend [of SUPERBLOCK_SIZE "a + RECORD_HEADER_BYTES" "live (disk st')" "live (disk st)" bs ?n]
      assms(2,3) p n by simp
  then show ?thesis
    using h h' n c a by (simp add: storage_read_def Let_def)
qed

section \<open>Properties\<close>

text \<open>A freshly created database file, for the witnesses.\<close>

definition fresh_storage :: storage where
  "fresh_storage = snd (Storage (SimDisk []) DURABILITY_FULL False)"

lemma fresh_storage:
  "storage_inv fresh_storage (empty_meta 0)" "\<not> locked fresh_storage"
  "durability fresh_storage = DURABILITY_FULL"
  "length (live (disk fresh_storage)) = SUPERBLOCK_SIZE"
  "durable (disk fresh_storage) = live (disk fresh_storage)"
  "crash_at_flush (disk fresh_storage) = None" "\<not> closed (disk fresh_storage)"
  "Storage (SimDisk []) DURABILITY_FULL False = (Inr (), fresh_storage)"
proof -
  have "length [] < SUPERBLOCK_SIZE" by (simp add: layout_defs)
  from Storage_initialises [OF this] obtain st where
    "Storage (SimDisk []) DURABILITY_FULL False = (Inr (), st)" "storage_inv st (empty_meta 0)"
    "\<not> locked st" "durability st = DURABILITY_FULL"
    "length (live (disk st)) = SUPERBLOCK_SIZE" "durable (disk st) = live (disk st)"
    "crash_at_flush (disk st) = None" "\<not> closed (disk st)"
    by metis
  then show "storage_inv fresh_storage (empty_meta 0)" "\<not> locked fresh_storage"
    "durability fresh_storage = DURABILITY_FULL"
    "length (live (disk fresh_storage)) = SUPERBLOCK_SIZE"
    "durable (disk fresh_storage) = live (disk fresh_storage)"
    "crash_at_flush (disk fresh_storage) = None" "\<not> closed (disk fresh_storage)"
    "Storage (SimDisk []) DURABILITY_FULL False = (Inr (), fresh_storage)"
    by (simp_all add: fresh_storage_def)
qed

text \<open>
  C11. A crash in the middle of a commit, at the flush of the records or at the flush of
  the meta block, loses exactly that commit: reopening the bytes that survived gives
  the meta block of the last commit and, byte for byte, the file as that commit left it,
  whatever records had been appended since.
\<close>

theorem commit_crash_recovers:
  assumes inv: "storage_inv st m" and full: "durability st = DURABILITY_FULL"
    and n: "n = 1 \<or> n = 2"
    and fits: "meta_fits (next_meta root k m (length (live (disk st))))"
  shows "\<exists>st2 st3.
    commit_root_address root k (st\<lparr>disk := arm_crash n (disk st)\<rparr>) = (Inl SimCrash, st2)
    \<and> Storage (SimDisk (durable_bytes (disk st2))) DURABILITY_FULL False = (Inr (), st3)
    \<and> smeta st3 = Some m
    \<and> live (disk st3) = take (data_length m) (live (disk st))
    \<and> storage_inv st3 m \<and> \<not> locked st3"
proof -
  let ?st1 = "st\<lparr>disk := arm_crash n (disk st)\<rparr>"
  have live1: "live (disk ?st1) = live (disk st)" "durable (disk ?st1) = durable (disk st)"
    by (simp_all add: arm_crash_def)
  have inv1: "storage_inv ?st1 m"
    using inv by (auto simp: storage_inv_def read_best_meta_file arm_crash_def)
  have full1: "durability ?st1 = DURABILITY_FULL" using full by simp
  show ?thesis
  proof (rule commit_root_address_cases [OF inv1 full1, of root k])
    fix st2
    assume "commit_root_address root k ?st1 = (Inr (), st2)"
    then have False
      using n fits storage_inv_simps [OF inv] full
      by (auto simp: commit_root_address_def bindS_eq_Inr act_defs lock_eq flush_eq flush_crashes_def
          arm_crash_def write_slot_eq write_at_def disk_write_def Let_def split: if_splits)
    then show ?thesis ..
  next
    fix st2
    assume c: "commit_root_address root k ?st1 = (Inl SimCrash, st2)"
      and d: "data_length m \<le> length (durable (disk st2))"
        "take (data_length m) (durable (disk st2)) = take (data_length m) (live (disk ?st1))"
    have "take SUPERBLOCK_SIZE (durable (disk st2)) = take SUPERBLOCK_SIZE (live (disk st))"
      using arg_cong [OF d(2), of "take SUPERBLOCK_SIZE"] live1 storage_inv_simps(4) [OF inv]
      by (simp add: min_def)
    then have "file_meta (durable (disk st2)) = Inr m"
      using storage_inv_simps(3) [OF inv] file_meta_prefix by (metis read_best_meta_file)
    from Storage_recovers [OF this storage_inv_simps(4) [OF inv] d(1)] show ?thesis
      using c d(2) live1 by (metis durable_bytes_def)
  next
    assume "\<not> meta_fits (next_meta root k m (length (live (disk ?st1))))"
    then show ?thesis using fits live1 by simp
  qed
qed

theorem commit_crash_recovers_witness:
  "storage_inv fresh_storage (empty_meta 0)
   \<and> (\<exists>st2 st3.
        commit_root_address 8192 1 (fresh_storage\<lparr>disk := arm_crash 2 (disk fresh_storage)\<rparr>) = (Inl SimCrash, st2)
        \<and> Storage (SimDisk (durable_bytes (disk st2))) DURABILITY_FULL False = (Inr (), st3)
        \<and> smeta st3 = Some (empty_meta 0)
        \<and> live (disk st3) = take (data_length (empty_meta 0)) (live (disk fresh_storage))
        \<and> storage_inv st3 (empty_meta 0) \<and> \<not> locked st3)"
proof -
  have "meta_fits (next_meta 8192 1 (empty_meta 0) (length (live (disk fresh_storage))))"
    by (simp add: fresh_storage meta_fits_def next_meta_def empty_meta_def layout_defs)
  with commit_crash_recovers [OF fresh_storage(1,3), of 2 8192 1] show ?thesis
    using fresh_storage(1) by simp
qed

text \<open>
  C34. A commit that returns is durable: reopening the surviving bytes gives the new root
  and key count, under the next transaction id, and every record of the file.
\<close>

theorem commit_is_durable:
  assumes inv: "storage_inv st m" and full: "durability st = DURABILITY_FULL"
    and ok: "commit_root_address root k st = (Inr (), st2)"
  shows "\<exists>st3. Storage (SimDisk (durable_bytes (disk st2))) DURABILITY_FULL False = (Inr (), st3)
    \<and> smeta st3 = Some (next_meta root k m (length (live (disk st))))
    \<and> drop SUPERBLOCK_SIZE (live (disk st3)) = drop SUPERBLOCK_SIZE (live (disk st))
    \<and> storage_inv st3 (next_meta root k m (length (live (disk st))))"
proof (rule commit_root_address_cases [OF inv full, of root k])
  let ?new = "next_meta root k m (length (live (disk st)))"
  fix st'
  assume c: "commit_root_address root k st = (Inr (), st')" "storage_inv st' ?new"
    "live (disk st') = overwrite (slot ?new * META_SLOT_SIZE) (slot_block ?new) (live (disk st))"
    "durable (disk st') = live (disk st')"
  have st2: "st' = st2" using c(1) ok by simp
  have page: "slot ?new * META_SLOT_SIZE + META_SLOT_SIZE \<le> SUPERBLOCK_SIZE"
    using meta_slot_page [OF storage_inv_simps(6) [OF inv]] by (simp add: next_meta_def)
  have len: "length (live (disk st2)) = length (live (disk st))" "data_length ?new = length (live (disk st))"
    using c(3) page storage_inv_simps(4,5) [OF inv] by (simp_all add: st2 next_meta_def)
  have best: "file_meta (durable (disk st2)) = Inr ?new"
    using c storage_inv_simps(3) [OF c(2)] by (simp add: read_best_meta_file st2)
  have dl: "data_length ?new \<le> length (durable (disk st2))"
    using len c(4) by (simp add: st2)
  obtain st3 where st3:
    "Storage (SimDisk (durable (disk st2))) DURABILITY_FULL False = (Inr (), st3)"
    "live (disk st3) = take (data_length ?new) (durable (disk st2))" "smeta st3 = Some ?new"
    "storage_inv st3 ?new"
    by (rule Storage_recovers [OF best storage_inv_simps(4) [OF c(2)] dl])
  have "drop SUPERBLOCK_SIZE (live (disk st3)) = drop SUPERBLOCK_SIZE (live (disk st))"
    using st3(2) c(3,4) len page storage_inv_simps(4,5) [OF inv]
    by (simp add: st2 drop_overwrite)
  then show ?thesis using st3 by (auto simp: durable_bytes_def)
qed (use ok in simp_all)

lemma commit_unarmed_ok:
  assumes inv: "storage_inv st m" and full: "durability st = DURABILITY_FULL"
    and "crash_at_flush (disk st) = None"
    and fits: "meta_fits (next_meta root k m (length (live (disk st))))"
  shows "fst (commit_root_address root k st) = Inr ()"
  by (rule commit_root_address_cases [OF inv full, of root k]) (use assms in simp_all)

theorem commit_is_durable_witness:
  "\<exists>st2 st3. commit_root_address 8192 1 fresh_storage = (Inr (), st2)
     \<and> Storage (SimDisk (durable_bytes (disk st2))) DURABILITY_FULL False = (Inr (), st3)
     \<and> smeta st3 = Some (next_meta 8192 1 (empty_meta 0) 8192)
     \<and> drop SUPERBLOCK_SIZE (live (disk st3)) = drop SUPERBLOCK_SIZE (live (disk fresh_storage))
     \<and> storage_inv st3 (next_meta 8192 1 (empty_meta 0) 8192)"
proof -
  have len: "length (live (disk fresh_storage)) = 8192"
    by (simp add: fresh_storage layout_defs)
  have "meta_fits (next_meta 8192 1 (empty_meta 0) (length (live (disk fresh_storage))))"
    by (simp add: len meta_fits_def next_meta_def empty_meta_def)
  from commit_unarmed_ok [OF fresh_storage(1,3,6) this] obtain st2 where
    st2: "commit_root_address 8192 1 fresh_storage = (Inr (), st2)"
    by (metis prod.collapse)
  show ?thesis
    using st2 commit_is_durable [OF fresh_storage(1,3) st2] by (simp add: len)
qed

text \<open>
  C35. A torn meta block and a torn tail are both healed: take any file that agrees with
  the committed one on the slot of the last commit and on the records up to the recorded
  length, whose other slot does not verify, and that has any bytes at all after that
  length. Opening it adopts the last commit, cuts the tail off and leaves the records as
  they were.
\<close>

theorem torn_meta_and_tail_recover:
  assumes inv: "storage_inv st m"
    and len: "data_length m \<le> length f"
    and slot_same: "slice_at (slot m * META_SLOT_SIZE) META_SLOT_SIZE f
      = slice_at (slot m * META_SLOT_SIZE) META_SLOT_SIZE (live (disk st))"
    and torn: "read_slot (st\<lparr>disk := SimDisk f\<rparr>) (1 - slot m) = Inr None"
    and records_same: "drop SUPERBLOCK_SIZE (take (data_length m) f)
      = drop SUPERBLOCK_SIZE (take (data_length m) (live (disk st)))"
  shows "\<exists>st'. Storage (SimDisk f) DURABILITY_FULL False = (Inr (), st')
    \<and> smeta st' = Some m \<and> length (live (disk st')) = data_length m
    \<and> drop SUPERBLOCK_SIZE (live (disk st'))
        = drop SUPERBLOCK_SIZE (take (data_length m) (live (disk st)))
    \<and> storage_inv st' m"
proof -
  let ?st = "st\<lparr>disk := SimDisk f\<rparr>"
  note m = storage_inv_simps [OF inv]
  have "slice_at (slot m * META_SLOT_SIZE) 44 f = slice_at (slot m * META_SLOT_SIZE) 44 (live (disk st))"
    using arg_cong [OF slot_same, of "take 44"] by (simp add: slice_at_def layout_defs min_def)
  then have "read_slot ?st (slot m) = read_slot st (slot m)"
    by (intro read_slot_cong) (simp add: SimDisk_def layout_defs)
  then have "read_slot ?st (slot m) = Inr (Some m)" using m by simp
  then have "read_best_meta ?st = Inr m"
    using torn m(6) by (cases "slot m = 0") (auto simp: read_best_meta_eq less_2_cases_iff)
  then have best: "file_meta f = Inr m"
    by (simp add: read_best_meta_file SimDisk_def)
  obtain st' where "Storage (SimDisk f) DURABILITY_FULL False = (Inr (), st')"
    "live (disk st') = take (data_length m) f" "smeta st' = Some m" "storage_inv st' m"
    by (rule Storage_recovers [OF best m(4) len])
  then show ?thesis using records_same len by auto
qed

text \<open>A file whose second slot was wiped: both the wiped slot and a torn tail.\<close>

definition wiped :: "bytes \<Rightarrow> bytes" where
  "wiped f = overwrite META_SLOT_SIZE (replicate META_SLOT_SIZE 0) f @ [0xFF, 0x07]"

lemma read_slot_zeros:
  assumes "slice_at (i * META_SLOT_SIZE) 44 (live (disk st)) = replicate 44 0"
  shows "read_slot st i = Inr None"
proof -
  have "hd (slice_at 0 4 (replicate 40 (0 :: byte))) \<noteq> hd MAGIC"
    by (simp add: slice_at_def MAGIC_def)
  then have "slice_at 0 4 (replicate 40 (0 :: byte)) \<noteq> MAGIC"
    by metis
  then show ?thesis
    by (simp add: read_slot_def META_BODY_BYTES_def META_CRC_BYTES_def assms Let_def)
qed

theorem torn_meta_and_tail_recover_witness:
  "\<exists>st'. Storage (SimDisk (wiped (live (disk fresh_storage)))) DURABILITY_FULL False = (Inr (), st')
    \<and> smeta st' = Some (empty_meta 0) \<and> length (live (disk st')) = 8192
    \<and> drop SUPERBLOCK_SIZE (live (disk st'))
        = drop SUPERBLOCK_SIZE (take 8192 (live (disk fresh_storage)))
    \<and> storage_inv st' (empty_meta 0)"
proof -
  let ?g = "live (disk fresh_storage)"
  let ?f = "wiped ?g"
  have len: "length ?g = 8192"
    by (simp add: fresh_storage layout_defs)
  have m: "data_length (empty_meta 0) = 8192" "slot (empty_meta 0) = 0"
    by (simp_all add: empty_meta_def layout_defs)
  have sb: "META_SLOT_SIZE = 4096" "SUPERBLOCK_SIZE = 8192"
    by (simp_all add: layout_defs)
  have f: "?f = take 4096 ?g @ replicate 4096 0 @ [0xFF, 0x07]"
    using len by (simp only: wiped_def overwrite_inside sb length_replicate drop_all) simp
  have lf: "8192 \<le> length ?f"
    by (simp only: f length_append length_take len length_replicate)
  have "slice_at META_SLOT_SIZE 44 ?f = replicate 44 0"
    unfolding f sb by (simp add: slice_at_def len)
  then have torn: "read_slot (fresh_storage\<lparr>disk := SimDisk ?f\<rparr>) (1 - slot (empty_meta 0)) = Inr None"
    by (intro read_slot_zeros) (simp add: m SimDisk_def)
  have same: "slice_at (slot (empty_meta 0) * META_SLOT_SIZE) META_SLOT_SIZE ?f
      = slice_at (slot (empty_meta 0) * META_SLOT_SIZE) META_SLOT_SIZE ?g"
    unfolding f sb m by (simp add: slice_at_def len)
  have recs: "drop SUPERBLOCK_SIZE (take (data_length (empty_meta 0)) ?f)
      = drop SUPERBLOCK_SIZE (take (data_length (empty_meta 0)) ?g)"
    unfolding sb m by simp
  show ?thesis
    using torn_meta_and_tail_recover [OF fresh_storage(1) _ same torn recs] lf unfolding m by blast
qed

lemma appended_read:
  assumes "appended st st' bs" "SUPERBLOCK_SIZE \<le> length (live (disk st))"
    and "SUPERBLOCK_SIZE \<le> b" "storage_read st b = Inr q"
  shows "storage_read st' b = Inr q"
proof (rule storage_read_frame [OF assms(4,3)])
  show "drop SUPERBLOCK_SIZE (live (disk st')) = drop SUPERBLOCK_SIZE (live (disk st)) @ bs"
    using assms(1,2) by (simp add: appended_def)
qed

lemma record_written:
  assumes "\<not> readonly st" "SUPERBLOCK_SIZE \<le> length (live (disk st))"
    and "storage_write p st = (Inr a, st')"
  shows "storage_read st' a = Inr p \<and> SUPERBLOCK_SIZE \<le> a
    \<and> (\<forall>b q. SUPERBLOCK_SIZE \<le> b \<longrightarrow> storage_read st b = Inr q \<longrightarrow> storage_read st' b = Inr q)"
proof (rule storage_write_cases [OF assms(1,2), of p])
  fix st2
  assume w: "storage_write p st = (Inr (length (live (disk st))), st2)" "length p < 256 ^ 4"
    "appended st st2 (be_bytes 4 (length p) @ be_bytes 4 (crc p) @ p)"
  then have eq: "st2 = st'" "a = length (live (disk st))" using assms(3) by auto
  have "live (disk st) \<noteq> []" using assms(2) by (auto simp: layout_defs)
  then have "storage_read st' a = Inr p"
    using w crc_less [of p] storage_read_record [of st' "live (disk st)" p "crc p" p "[]"]
    by (simp add: eq appended_def)
  moreover have "storage_read st' b = Inr q" if "SUPERBLOCK_SIZE \<le> b" "storage_read st b = Inr q" for b q
    by (rule appended_read [OF w(3) [unfolded eq] assms(2) that])
  ultimately show ?thesis using assms(2) eq by blast
qed (use assms in simp_all)

text \<open>
  C36. A record that was written is read back, at the address the write returned, and
  every record that could be read before still reads the same: the file only grows.
\<close>

theorem record_roundtrip:
  assumes "\<not> readonly st" "SUPERBLOCK_SIZE \<le> length (live (disk st))"
    and "storage_write p st = (Inr a, st')"
  shows "storage_read st' a = Inr p \<and> SUPERBLOCK_SIZE \<le> a
    \<and> (\<forall>b q. SUPERBLOCK_SIZE \<le> b \<longrightarrow> storage_read st b = Inr q \<longrightarrow> storage_read st' b = Inr q)"
  by (rule record_written [OF assms])

theorem record_roundtrip_witness:
  "\<exists>st'. storage_write [1, 2, 3] fresh_storage = (Inr 8192, st')
     \<and> storage_read st' 8192 = Inr [1, 2, 3] \<and> SUPERBLOCK_SIZE \<le> 8192
     \<and> (\<forall>b q. SUPERBLOCK_SIZE \<le> b \<longrightarrow> storage_read fresh_storage b = Inr q \<longrightarrow> storage_read st' b = Inr q)"
proof -
  have ro: "\<not> readonly fresh_storage" and len: "length (live (disk fresh_storage)) = 8192"
    using storage_inv_simps(1) [OF fresh_storage(1)] by (simp_all add: fresh_storage layout_defs)
  have sb: "SUPERBLOCK_SIZE \<le> length (live (disk fresh_storage))"
    by (simp add: fresh_storage)
  have "\<exists>st'. storage_write [1, 2, 3] fresh_storage = (Inr 8192, st')"
    by (rule storage_write_cases [OF ro sb, of "[1, 2, 3]"]) (simp_all add: len)
  then obtain st' where w: "storage_write [1, 2, 3] fresh_storage = (Inr 8192, st')"
    by blast
  show ?thesis
    using w record_roundtrip [OF ro sb w] by blast
qed

text \<open>
  C37. Bit rot is caught: change any single byte of a stored payload and reading the record
  raises \<open>DatabaseCorruptionError\<close>, it never returns junk. (CRC-32 separates any two
  payloads that differ in one byte.)
\<close>

theorem payload_corruption_detected:
  assumes "\<not> readonly st" "SUPERBLOCK_SIZE \<le> length (live (disk st))"
    and "storage_write p st = (Inr a, st')"
    and "i < length p" "b \<noteq> p ! i"
    and "live (disk st2) = (live (disk st'))[a + RECORD_HEADER_BYTES + i := b]"
  shows "storage_read st2 a = Inl DatabaseCorruptionError"
proof (rule storage_write_cases [OF assms(1,2), of p])
  fix st1
  assume w: "storage_write p st = (Inr (length (live (disk st))), st1)" "length p < 256 ^ 4"
    "appended st st1 (be_bytes 4 (length p) @ be_bytes 4 (crc p) @ p)"
  then have eq: "st1 = st'" "a = length (live (disk st))" using assms(3) by auto
  have ne: "live (disk st) \<noteq> []" using assms(2) by (auto simp: layout_defs)
  have "live (disk st2) = live (disk st) @ be_bytes 4 (length p) @ be_bytes 4 (crc p) @ p[i := b] @ []"
    using w(3) by (simp add: assms(6) eq appended_def list_update_append RECORD_HEADER_BYTES_def)
  moreover have "crc (p[i := b]) \<noteq> crc p"
    using crc_single_byte [OF assms(5), of "take i p" "drop (Suc i) p"]
      id_take_nth_drop [OF assms(4)] upd_conv_take_nth_drop [OF assms(4), of b] by metis
  ultimately show ?thesis
    using storage_read_record [of st2 "live (disk st)" p "crc p" "p[i := b]" "[]"] ne w(2) crc_less [of p]
    by (simp add: eq)
qed (use assms in simp_all)

theorem payload_corruption_detected_witness:
  "\<exists>st'. storage_write [1, 2, 3] fresh_storage = (Inr 8192, st')
     \<and> storage_read (st'\<lparr>disk := (disk st')\<lparr>live := (live (disk st'))[8192 + RECORD_HEADER_BYTES + 1 := 9]\<rparr>\<rparr>) 8192
         = Inl DatabaseCorruptionError"
proof -
  have ro: "\<not> readonly fresh_storage" and len: "length (live (disk fresh_storage)) = 8192"
    using storage_inv_simps(1) [OF fresh_storage(1)] by (simp_all add: fresh_storage layout_defs)
  have sb: "SUPERBLOCK_SIZE \<le> length (live (disk fresh_storage))"
    by (simp add: fresh_storage)
  have "\<exists>st'. storage_write [1, 2, 3] fresh_storage = (Inr 8192, st')"
    by (rule storage_write_cases [OF ro sb, of "[1, 2, 3]"]) (simp_all add: len)
  then obtain st' where w: "storage_write [1, 2, 3] fresh_storage = (Inr 8192, st')"
    by blast
  have "(9 :: byte) \<noteq> [1, 2, 3] ! 1" by simp
  from payload_corruption_detected [OF ro sb w _ this] w show ?thesis
    by (intro exI [of _ st']) simp
qed

definition record_bytes :: "bytes \<Rightarrow> bytes" where
  "record_bytes p = be_bytes 4 (length p) @ be_bytes 4 (crc p) @ p"

lemma count_from_records:
  "live (disk st) = xs @ concat (map record_bytes ps) \<Longrightarrow> \<forall>p\<in>set ps. length p < 256 ^ 4 \<Longrightarrow>
     count_from st (length (live (disk st))) (length xs) n = Inr (n + length ps)"
proof (induction ps arbitrary: xs n)
  case Nil
  then show ?case by (simp add: count_from.simps)
next
  case (Cons p ps)
  let ?l = "length (live (disk st))"
  have live: "live (disk st) = (xs @ record_bytes p) @ concat (map record_bytes ps)"
    using Cons.prems by simp
  have h: "slice_at (length xs) 8 (live (disk st)) = be_bytes 4 (length p) @ be_bytes 4 (crc p)"
    using Cons.prems(1) by (simp add: slice_at_def record_bytes_def)
  have lt: "length xs < ?l"
    using Cons.prems(1) by (simp add: record_bytes_def)
  have "count_from st ?l (length xs) n = count_from st ?l (length (xs @ record_bytes p)) (n + 1)"
    using lt h Cons.prems(2)
    by (simp add: count_from.simps [of st ?l "length xs"] RECORD_HEADER_BYTES_def record_bytes_def ac_simps)
  also have "\<dots> = Inr (n + 1 + length ps)"
    using Cons.prems(2) by (intro Cons.IH [OF live]) simp
  finally show ?case by simp
qed

text \<open>A sequence of whole records.\<close>

definition records :: "bytes \<Rightarrow> bool" where
  "records bs \<longleftrightarrow> (\<exists>ps. bs = concat (map record_bytes ps) \<and> (\<forall>p \<in> set ps. length p < 256 ^ 4))"

lemma records_Nil [simp]: "records []"
  unfolding records_def by (rule exI [of _ "[]"]) simp

lemma records_one: "length p < 256 ^ 4 \<Longrightarrow> records (be_bytes 4 (length p) @ be_bytes 4 (crc p) @ p)"
  unfolding records_def by (rule exI [of _ "[p]"]) (simp add: record_bytes_def)

lemma records_append [intro]: "records as \<Longrightarrow> records bs \<Longrightarrow> records (as @ bs)"
proof -
  assume "records as" "records bs"
  then obtain ps qs where "as = concat (map record_bytes ps)" "bs = concat (map record_bytes qs)"
    "\<forall>p \<in> set (ps @ qs). length p < 256 ^ 4"
    by (auto simp: records_def)
  then show ?thesis unfolding records_def by (intro exI [of _ "ps @ qs"]) simp
qed

lemma count_records_ok:
  assumes "SUPERBLOCK_SIZE \<le> length (live (disk st))" "records (drop SUPERBLOCK_SIZE (live (disk st)))"
  shows "\<exists>n. count_records st = Inr n"
proof -
  obtain ps where ps: "drop SUPERBLOCK_SIZE (live (disk st)) = concat (map record_bytes ps)" "\<forall>p \<in> set ps. length p < 256 ^ 4"
    using assms(2) by (auto simp: records_def)
  have "live (disk st) = take SUPERBLOCK_SIZE (live (disk st)) @ concat (map record_bytes ps)"
    using ps(1) by (metis append_take_drop_id)
  from count_from_records [OF this ps(2), of 0] show ?thesis using assms(1) by (auto simp: count_records_def min.absorb2)
qed

fun write_all :: "bytes list \<Rightarrow> (storage, nat list) act" where
  "write_all [] = ret []"
| "write_all (p # ps) = bindS (storage_write p) (\<lambda>a. bindS (write_all ps) (\<lambda>as. ret (a # as)))"

lemma write_all_appended:
  assumes "write_all ps st = (Inr as, st')" "\<not> readonly st" "SUPERBLOCK_SIZE \<le> length (live (disk st))"
  shows "appended st st' (concat (map record_bytes ps)) \<and> (\<forall>p\<in>set ps. length p < 256 ^ 4)"
  using assms
proof (induction ps arbitrary: st as)
  case Nil
  then show ?case by (simp add: act_defs)
next
  case (Cons p ps)
  from Cons.prems(1) obtain a st1 as' where
    w: "storage_write p st = (Inr a, st1)" and r: "write_all ps st1 = (Inr as', st')"
    by (auto simp: bindS_eq_Inr act_defs)
  have one: "appended st st1 (record_bytes p) \<and> length p < 256 ^ 4"
    by (rule storage_write_cases [OF Cons.prems(2,3), of p]) (use w in \<open>auto simp: record_bytes_def\<close>)
  then have "\<not> readonly st1" "SUPERBLOCK_SIZE \<le> length (live (disk st1))"
    using Cons.prems by (auto simp: appended_def)
  from Cons.IH [OF r this] one show ?case by (auto intro: appended_trans)
qed

text \<open>
  \<open>count_records\<close> counts: after any sequence of writes into a file without records it
  returns the number of records written, walking the headers to a clean end.
\<close>

theorem count_records_counts:
  assumes "write_all ps st = (Inr as, st')" "\<not> readonly st"
    and "length (live (disk st)) = SUPERBLOCK_SIZE"
  shows "count_records st' = Inr (length ps)"
proof -
  have "appended st st' (concat (map record_bytes ps))" "\<forall>p\<in>set ps. length p < 256 ^ 4"
    using write_all_appended [OF assms(1,2)] assms(3) by simp_all
  then show ?thesis
    using count_from_records [of st' "live (disk st)" ps 0] assms(3)
    by (simp add: count_records_def appended_def)
qed

theorem count_records_counts_witness:
  "\<exists>as st'. write_all [[1], [2, 3]] fresh_storage = (Inr as, st') \<and> count_records st' = Inr 2"
proof -
  have ro: "\<not> readonly fresh_storage" and len: "length (live (disk fresh_storage)) = SUPERBLOCK_SIZE"
    using storage_inv_simps(1) [OF fresh_storage(1)] by (simp_all add: fresh_storage)
  obtain a st1 where w1: "storage_write [1] fresh_storage = (Inr a, st1)"
    and st1: "\<not> readonly st1" "SUPERBLOCK_SIZE \<le> length (live (disk st1))"
    by (rule storage_write_cases [OF ro, of "[1]"]) (use len ro in \<open>simp_all add: appended_def\<close>)
  obtain b st2 where w2: "storage_write [2, 3] st1 = (Inr b, st2)"
    by (rule storage_write_cases [OF st1, of "[2, 3]"]) simp_all
  have w: "write_all [[1], [2, 3]] fresh_storage = (Inr [a, b], st2)"
    using w1 w2 by (simp add: act_defs)
  show ?thesis using w count_records_counts [OF w ro len] by auto
qed

end
