(* ===== verification/Logical.thy ===== *)
theory Logical
  imports Physical
begin

text \<open>
  \<open>logical.py\<close>: references to stored values and the base class of the index engines.

  A reference holds what it refers to, or the address it was stored at, or both after a
  store. \<open>get\<close> caches what it read in the reference; the model reads again instead, which
  gives the same result because a record is never overwritten.

  \<open>LogicalBase\<close> is a template: its methods call \<open>_refresh_tree_ref\<close>, \<open>_follow\<close>, \<open>_get\<close>,
  \<open>_insert\<close>, \<open>_delete\<close>, \<open>_items\<close> and \<open>_range_items\<close> of the engine. The record
  \<open>index_class\<close> is that method table and the operations here take it as an argument. The
  generators \<open>items\<close> and \<open>range_items\<close> are the lists of what they yield.

  Nodes are pickled. \<open>pickle\<close> belongs to the Python library and its byte format is not
  the program's: the two functions are the parameter \<open>P\<close> of the model, and what the code
  relies on, that loading a dumped object gives it back, is \<open>pickle_ok P\<close>.
\<close>

section \<open>Value references\<close>

datatype value_ref = ValueRef (vr_referent: "bytes option") (vr_address: nat)

fun vref_get :: "storage \<Rightarrow> value_ref \<Rightarrow> bytes option result" where
  "vref_get st (ValueRef r a) =
     (if r = None \<and> a \<noteq> 0 then bindR (storage_read st a) (\<lambda>bs. Inr (Some bs)) else Inr r)"

text \<open>
  \<open>store\<close> returns what it raised, if anything, the reference with its address, and the
  storage.
\<close>

fun vref_store :: "value_ref \<Rightarrow> storage \<Rightarrow> unit result \<times> value_ref \<times> storage" where
  "vref_store (ValueRef r a) st =
     (case r of
        Some bs \<Rightarrow>
          if a = 0 then
            (case storage_write bs st of
               (Inl e, st') \<Rightarrow> (Inl e, ValueRef r a, st')
             | (Inr a', st') \<Rightarrow> (Inr (), ValueRef r a', st'))
          else (Inr (), ValueRef r a, st)
      | None \<Rightarrow> (Inr (), ValueRef r a, st))"

text \<open>The loop over references of \<open>store_refs\<close>: it stops at the first that raises.\<close>

fun store_all ::
  "('r \<Rightarrow> storage \<Rightarrow> unit result \<times> 'r \<times> storage) \<Rightarrow> 'r list \<Rightarrow> storage
     \<Rightarrow> unit result \<times> 'r list \<times> storage" where
  "store_all f [] st = (Inr (), [], st)"
| "store_all f (r # rs) st =
     (case f r st of
        (Inl e, r', st') \<Rightarrow> (Inl e, r' # rs, st')
      | (Inr _, r', st') \<Rightarrow>
          (case store_all f rs st' of (x, rs', st'') \<Rightarrow> (x, r' # rs', st'')))"

lemma store_all_cong [fundef_cong]:
  "rs = rs' \<Longrightarrow> st = st' \<Longrightarrow> (\<And>r s. r \<in> set rs' \<Longrightarrow> f r s = g r s)
    \<Longrightarrow> store_all f rs st = store_all g rs' st'"
  by (induction rs arbitrary: rs' st st') (auto split: prod.splits sum.splits)

section \<open>Pickled nodes\<close>

text \<open>The dictionaries that \<open>referent_to_bytes\<close> of the two engines pickle.\<close>

datatype 'k pickled =
    PLeaf "'k list" "nat list"
  | PInternal "'k list" "nat list"
  | PBinary nat 'k nat nat int

record 'k pickle =
  dumps :: "'k pickled \<Rightarrow> bytes"
  loads :: "bytes \<Rightarrow> 'k pickled result"

definition pickle_ok :: "'k pickle \<Rightarrow> bool" where
  "pickle_ok P \<longleftrightarrow> (\<forall>x. loads P (dumps P x) = Inr x)"

section \<open>The base class of the index engines\<close>

record 'r logical_base =
  lstorage :: storage
  tree_ref :: 'r

type_synonym ('r, 'z) lstate = "('r, 'z) logical_base_scheme"

definition on_storage :: "(storage, 'a) act \<Rightarrow> (('r, 'z) lstate, 'a) act" where
  "on_storage m s = (case m (lstorage s) of (r, st) \<Rightarrow> (r, s\<lparr>lstorage := st\<rparr>))"

record ('s, 'r, 'n, 'k) index_class =
  refresh_tree_ref :: "('s, unit) act"
  follow :: "storage \<Rightarrow> 'r \<Rightarrow> 'n option result"
  get_node :: "'s \<Rightarrow> 'n option \<Rightarrow> 'k \<Rightarrow> bytes option result"
  insert_node :: "'n option \<Rightarrow> 'k \<Rightarrow> value_ref \<Rightarrow> ('s, 'r) act"
  delete_node :: "'n option \<Rightarrow> 'k \<Rightarrow> ('s, 'r) act"
  items_node :: "'s \<Rightarrow> 'n option \<Rightarrow> ('k \<times> bytes option) list result"
  range_node :: "'s \<Rightarrow> 'n option \<Rightarrow> 'k option \<Rightarrow> 'k option \<Rightarrow> ('k \<times> bytes option) list result"

type_synonym ('r, 'z, 'n, 'k) engine = "(('r, 'z) lstate, 'r, 'n, 'k) index_class"

text \<open>\<open>if not self._storage.locked: self._refresh_tree_ref()\<close>, then the root node.\<close>

definition read_root :: "('r, 'z, 'n, 'k) engine \<Rightarrow> (('r, 'z) lstate, 'n option) act" where
  "read_root C =
     bindS (gets (\<lambda>s. locked (lstorage s))) (\<lambda>l.
     bindS (whenS (\<not> l) (refresh_tree_ref C)) (\<lambda>_.
       lift (\<lambda>s. follow C (lstorage s) (tree_ref s))))"

text \<open>\<open>if self._storage.lock(): self._refresh_tree_ref()\<close>, then the root node.\<close>

definition write_root :: "('r, 'z, 'n, 'k) engine \<Rightarrow> (('r, 'z) lstate, 'n option) act" where
  "write_root C =
     bindS (on_storage lock) (\<lambda>first.
     bindS (whenS first (refresh_tree_ref C)) (\<lambda>_.
       lift (\<lambda>s. follow C (lstorage s) (tree_ref s))))"

definition set_tree_ref :: "'r \<Rightarrow> (('r, 'z) lstate, unit) act" where
  "set_tree_ref r = modify (\<lambda>s. s\<lparr>tree_ref := r\<rparr>)"

definition logical_get :: "('r, 'z, 'n, 'k) engine \<Rightarrow> 'k \<Rightarrow> (('r, 'z) lstate, bytes option) act" where
  "logical_get C key = bindS (read_root C) (\<lambda>node. lift (\<lambda>s. get_node C s node key))"

definition logical_set :: "('r, 'z, 'n, 'k) engine \<Rightarrow> 'k \<Rightarrow> bytes \<Rightarrow> (('r, 'z) lstate, unit) act" where
  "logical_set C key v =
     bindS (write_root C) (\<lambda>node.
     bindS (insert_node C node key (ValueRef (Some v) 0)) set_tree_ref)"

definition logical_delete :: "('r, 'z, 'n, 'k) engine \<Rightarrow> 'k \<Rightarrow> (('r, 'z) lstate, unit) act" where
  "logical_delete C key =
     bindS (write_root C) (\<lambda>node.
     bindS (delete_node C node key) set_tree_ref)"

definition logical_items ::
  "('r, 'z, 'n, 'k) engine \<Rightarrow> (('r, 'z) lstate, ('k \<times> bytes option) list) act" where
  "logical_items C = bindS (read_root C) (\<lambda>node. lift (\<lambda>s. items_node C s node))"

definition logical_range_items ::
  "('r, 'z, 'n, 'k) engine \<Rightarrow> 'k option \<Rightarrow> 'k option \<Rightarrow> (('r, 'z) lstate, ('k \<times> bytes option) list) act" where
  "logical_range_items C start stop =
     bindS (read_root C) (\<lambda>node. lift (\<lambda>s. range_node C s node start stop))"

end
