(* ===== verification/BPlusTree.thy ===== *)
theory BPlusTree
  imports Logical
begin

text \<open>
  \<open>bplus_tree.py\<close> (with the \<open>AuditReport\<close> of \<open>audit.py\<close>): the copy-on-write B+ tree.

  A node is read through its reference, so the operations take the storage the references
  point into; they never change it. \<open>_count\<close>, which insertion and deletion update on the
  way, is the state of those two. A traversal follows addresses of the file and a
  corrupt file may have a cycle, so every traversal has a depth bound \<open>lim\<close> (Python's
  recursion limit) and raises \<open>RecursionError\<close> beyond it. \<open>_get\<close> and \<open>height\<close> are loops in the
  code: there the value beyond the bound stands for a loop that need not end. The correctness lemmas hold
  for every bound that is at least the height of the tree.
\<close>

section \<open>Nodes\<close>

datatype 'k bnode =
    LeafNode "'k list" "value_ref list"
  | InternalNode "'k list" "'k bref list"
and 'k bref = BPlusNodeRef "'k bnode option" nat

fun node_keys :: "'k bnode \<Rightarrow> 'k list" where
  "node_keys (LeafNode ks vs) = ks"
| "node_keys (InternalNode ks cs) = ks"

fun bref_referent :: "'k bref \<Rightarrow> 'k bnode option" where
  "bref_referent (BPlusNodeRef r a) = r"

fun bref_address :: "'k bref \<Rightarrow> nat" where
  "bref_address (BPlusNodeRef r a) = a"

fun node_to_pickled :: "'k bnode \<Rightarrow> 'k pickled" where
  "node_to_pickled (LeafNode ks vs) = PLeaf ks (map vr_address vs)"
| "node_to_pickled (InternalNode ks cs) = PInternal ks (map bref_address cs)"

text \<open>A pickled node of the other engine has no \<open>"leaf"\<close> entry.\<close>

fun pickled_to_node :: "'k pickled \<Rightarrow> 'k bnode result" where
  "pickled_to_node (PLeaf ks as) = Inr (LeafNode ks (map (ValueRef None) as))"
| "pickled_to_node (PInternal ks as) = Inr (InternalNode ks (map (BPlusNodeRef None) as))"
| "pickled_to_node (PBinary _ _ _ _ _) = Inl KeyError"

definition referent_to_bytes :: "'k pickle \<Rightarrow> 'k bnode \<Rightarrow> bytes" where
  "referent_to_bytes P n = dumps P (node_to_pickled n)"

definition bytes_to_referent :: "'k pickle \<Rightarrow> bytes \<Rightarrow> 'k bnode result" where
  "bytes_to_referent P bs = bindR (loads P bs) pickled_to_node"

fun bref_get :: "'k pickle \<Rightarrow> storage \<Rightarrow> 'k bref \<Rightarrow> 'k bnode option result" where
  "bref_get P st (BPlusNodeRef r a) =
     (if r = None \<and> a \<noteq> 0
      then bindR (storage_read st a) (\<lambda>bs. bindR (bytes_to_referent P bs) (\<lambda>n. Inr (Some n)))
      else Inr r)"

text \<open>\<open>store\<close> and \<open>store_refs\<close>: children and values first, then the node itself.\<close>

fun bref_store :: "'k pickle \<Rightarrow> 'k bref \<Rightarrow> storage \<Rightarrow> unit result \<times> 'k bref \<times> storage"
  and store_refs :: "'k pickle \<Rightarrow> 'k bnode \<Rightarrow> storage \<Rightarrow> unit result \<times> 'k bnode \<times> storage" where
  "bref_store P (BPlusNodeRef None a) st = (Inr (), BPlusNodeRef None a, st)"
| "bref_store P (BPlusNodeRef (Some n) a) st =
     (if a = 0 then
        (case store_refs P n st of
           (Inl e, n', st') \<Rightarrow> (Inl e, BPlusNodeRef (Some n') a, st')
         | (Inr _, n', st') \<Rightarrow>
             (case storage_write (referent_to_bytes P n') st' of
                (Inl e, st'') \<Rightarrow> (Inl e, BPlusNodeRef (Some n') a, st'')
              | (Inr a', st'') \<Rightarrow> (Inr (), BPlusNodeRef (Some n') a', st'')))
      else (Inr (), BPlusNodeRef (Some n) a, st))"
| "store_refs P (LeafNode ks vs) st =
     (case store_all vref_store vs st of (x, vs', st') \<Rightarrow> (x, LeafNode ks vs', st'))"
| "store_refs P (InternalNode ks cs) st =
     (case store_all (bref_store P) cs st of (x, cs', st') \<Rightarrow> (x, InternalNode ks cs', st'))"

definition leaf_ref :: "'k list \<Rightarrow> value_ref list \<Rightarrow> 'k bref" where
  "leaf_ref ks vs = BPlusNodeRef (Some (LeafNode ks vs)) 0"

definition internal_ref :: "'k list \<Rightarrow> 'k bref list \<Rightarrow> 'k bref" where
  "internal_ref ks cs = BPlusNodeRef (Some (InternalNode ks cs)) 0"

definition num_keys :: "'k bnode \<Rightarrow> nat" where
  "num_keys n = length (node_keys n)"

section \<open>Reads\<close>

fun bp_get ::
  "'k::linorder pickle \<Rightarrow> storage \<Rightarrow> nat \<Rightarrow> 'k bnode option \<Rightarrow> 'k \<Rightarrow> bytes option result" where
  "bp_get P st 0 node key = Inl RecursionError"
| "bp_get P st (Suc lim) None key = Inl KeyError"
| "bp_get P st (Suc lim) (Some (LeafNode ks vs)) key =
     (let index = bisect_left ks key in
      if index < length ks \<and> ks ! index = key then bindR (py_nth vs index) (vref_get st)
      else Inl KeyError)"
| "bp_get P st (Suc lim) (Some (InternalNode ks cs)) key =
     bindR (py_nth cs (bisect_right ks key)) (\<lambda>c.
     bindR (bref_get P st c) (\<lambda>node. bp_get P st lim node key))"

definition leaf_items ::
  "storage \<Rightarrow> ('k \<times> value_ref) list \<Rightarrow> ('k \<times> bytes option) list result" where
  "leaf_items st = mapR (\<lambda>(key, v). bindR (vref_get st v) (\<lambda>p. Inr (key, p)))"

fun bp_items ::
  "'k pickle \<Rightarrow> storage \<Rightarrow> nat \<Rightarrow> 'k bnode option \<Rightarrow> ('k \<times> bytes option) list result" where
  "bp_items P st 0 node = Inl RecursionError"
| "bp_items P st (Suc lim) None = Inr []"
| "bp_items P st (Suc lim) (Some (LeafNode ks vs)) = leaf_items st (zip ks vs)"
| "bp_items P st (Suc lim) (Some (InternalNode ks cs)) =
     bindR (mapR (\<lambda>c. bindR (bref_get P st c) (bp_items P st lim)) cs) (\<lambda>xss. Inr (concat xss))"

text \<open>The loop over a leaf: skip keys below \<open>start\<close>, stop at the first key from \<open>stop\<close> on.\<close>

fun leaf_range ::
  "storage \<Rightarrow> 'k::linorder option \<Rightarrow> 'k option \<Rightarrow> ('k \<times> value_ref) list
     \<Rightarrow> ('k \<times> bytes option) list result" where
  "leaf_range st start stop [] = Inr []"
| "leaf_range st start stop ((key, v) # kvs) =
     (if start \<noteq> None \<and> key < the start then leaf_range st start stop kvs
      else if stop \<noteq> None \<and> key \<ge> the stop then Inr []
      else bindR (vref_get st v) (\<lambda>p. bindR (leaf_range st start stop kvs) (\<lambda>xs. Inr ((key, p) # xs))))"

text \<open>The loop over the children, pruning those outside the bounds.\<close>

fun range_children ::
  "('c \<Rightarrow> 'x list result) \<Rightarrow> 'k::linorder list \<Rightarrow> 'k option \<Rightarrow> 'k option \<Rightarrow> nat \<Rightarrow> 'c list
     \<Rightarrow> 'x list result" where
  "range_children f ks start stop index [] = Inr []"
| "range_children f ks start stop index (c # cs) =
     bindR (if index > 0 then bindR (py_nth ks (index - 1)) (\<lambda>k. Inr (Some k)) else Inr None) (\<lambda>left_bound.
     let right_bound = (if index < length ks then Some (ks ! index) else None) in
     if stop \<noteq> None \<and> left_bound \<noteq> None \<and> the left_bound \<ge> the stop then Inr []
     else if start \<noteq> None \<and> right_bound \<noteq> None \<and> the right_bound \<le> the start
     then range_children f ks start stop (index + 1) cs
     else bindR (f c) (\<lambda>xs. bindR (range_children f ks start stop (index + 1) cs) (\<lambda>ys. Inr (xs @ ys))))"

fun bp_range ::
  "'k::linorder pickle \<Rightarrow> storage \<Rightarrow> nat \<Rightarrow> 'k option \<Rightarrow> 'k option \<Rightarrow> 'k bnode option
     \<Rightarrow> ('k \<times> bytes option) list result" where
  "bp_range P st 0 start stop node = Inl RecursionError"
| "bp_range P st (Suc lim) start stop None = Inr []"
| "bp_range P st (Suc lim) start stop (Some (LeafNode ks vs)) = leaf_range st start stop (zip ks vs)"
| "bp_range P st (Suc lim) start stop (Some (InternalNode ks cs)) =
     range_children (\<lambda>c. bindR (bref_get P st c) (bp_range P st lim start stop)) ks start stop 0 cs"

section \<open>Insertion\<close>

text \<open>\<open>values[index] = v\<close> and \<open>del values[index]\<close>, which raise out of range.\<close>

definition py_set :: "'a list \<Rightarrow> nat \<Rightarrow> 'a \<Rightarrow> 'a list result" where
  [py_defs]: "py_set xs i v = (if i < length xs then Inr (xs[i := v]) else Inl IndexError)"

definition py_del :: "'a list \<Rightarrow> nat \<Rightarrow> 'a list result" where
  [py_defs]: "py_del xs i = (if i < length xs then Inr (del_at i xs) else Inl IndexError)"

type_synonym 'k split = "'k bref \<times> ('k \<times> 'k bref) option"

definition split_leaf :: "nat \<Rightarrow> 'k list \<Rightarrow> value_ref list \<Rightarrow> 'k split" where
  "split_leaf order ks vs =
     (if length ks \<le> order then (leaf_ref ks vs, None)
      else let mid = length ks div 2 in
        (leaf_ref (take mid ks) (take mid vs), Some (ks ! mid, leaf_ref (drop mid ks) (drop mid vs))))"

definition split_internal :: "nat \<Rightarrow> 'k list \<Rightarrow> 'k bref list \<Rightarrow> 'k split" where
  "split_internal order ks cs =
     (if length ks \<le> order then (internal_ref ks cs, None)
      else let mid = length ks div 2 in
        (internal_ref (take mid ks) (take (mid + 1) cs),
         Some (ks ! mid, internal_ref (drop (mid + 1) ks) (drop (mid + 1) cs))))"

fun bp_insert_rec ::
  "'k::linorder pickle \<Rightarrow> storage \<Rightarrow> nat \<Rightarrow> nat \<Rightarrow> 'k bnode \<Rightarrow> 'k \<Rightarrow> value_ref \<Rightarrow> (int, 'k split) act" where
  "bp_insert_rec P st order 0 node key v = raise RecursionError"
| "bp_insert_rec P st order (Suc lim) (LeafNode ks vs) key v =
     (let index = bisect_left ks key in
      if index < length ks \<and> ks ! index = key then
        bindS (lift (\<lambda>_. py_set vs index v)) (\<lambda>vs'. ret (split_leaf order ks vs'))
      else
        bindS (modify (\<lambda>count. count + 1)) (\<lambda>_.
          ret (split_leaf order (insert_at index key ks) (insert_at index v vs))))"
| "bp_insert_rec P st order (Suc lim) (InternalNode ks cs) key v =
     (let child_index = bisect_right ks key in
      bindS (lift (\<lambda>_. bindR (py_nth cs child_index) (bref_get P st))) (\<lambda>child.
        case child of
          None \<Rightarrow> raise AttributeError
        | Some n \<Rightarrow>
            bindS (bp_insert_rec P st order lim n key v) (\<lambda>(new_child, split).
              let cs' = cs[child_index := new_child] in
              case split of
                None \<Rightarrow> ret (split_internal order ks cs')
              | Some (separator, right) \<Rightarrow>
                  ret (split_internal order (insert_at child_index separator ks)
                         (insert_at (child_index + 1) right cs')))))"

definition bp_insert ::
  "'k::linorder pickle \<Rightarrow> storage \<Rightarrow> nat \<Rightarrow> nat \<Rightarrow> 'k bnode option \<Rightarrow> 'k \<Rightarrow> value_ref \<Rightarrow> (int, 'k bref) act" where
  "bp_insert P st order lim node key v =
     (case node of
        None \<Rightarrow> bindS (modify (\<lambda>count. count + 1)) (\<lambda>_. ret (leaf_ref [key] [v]))
      | Some n \<Rightarrow>
          bindS (bp_insert_rec P st order lim n key v) (\<lambda>(new, split).
            case split of
              None \<Rightarrow> ret new
            | Some (separator, right) \<Rightarrow> ret (internal_ref [separator] [new, right])))"

section \<open>Deletion\<close>

type_synonym 'k lists = "'k list \<times> 'k bref list"

fun borrow_from_left :: "'k list \<Rightarrow> 'k bref list \<Rightarrow> nat \<Rightarrow> 'k bnode \<Rightarrow> 'k bnode \<Rightarrow> 'k lists result" where
  "borrow_from_left ks cs index (LeafNode lk lv) (LeafNode ck cv) =
     bindR (py_last lk) (\<lambda>k. bindR (py_last lv) (\<lambda>v.
     bindR (py_set ks (index - 1) k) (\<lambda>ks'.
       Inr (ks', cs[index - 1 := leaf_ref (butlast lk) (butlast lv), index := leaf_ref (k # ck) (v # cv)]))))"
| "borrow_from_left ks cs index (InternalNode lk lc) (InternalNode ck cc) =
     bindR (py_nth ks (index - 1)) (\<lambda>sep. bindR (py_last lk) (\<lambda>k. bindR (py_last lc) (\<lambda>c.
       Inr (ks[index - 1 := k],
            cs[index - 1 := internal_ref (butlast lk) (butlast lc), index := internal_ref (sep # ck) (c # cc)]))))"
| "borrow_from_left ks cs index _ _ = Inl AttributeError"

fun borrow_from_right :: "'k list \<Rightarrow> 'k bref list \<Rightarrow> nat \<Rightarrow> 'k bnode \<Rightarrow> 'k bnode \<Rightarrow> 'k lists result" where
  "borrow_from_right ks cs index (LeafNode rk rv) (LeafNode ck cv) =
     bindR (py_nth rk 0) (\<lambda>k. bindR (py_nth rv 0) (\<lambda>v. bindR (py_nth rk 1) (\<lambda>k'.
     bindR (py_set ks index k') (\<lambda>ks'.
       Inr (ks', cs[index := leaf_ref (ck @ [k]) (cv @ [v]), index + 1 := leaf_ref (tl rk) (tl rv)])))))"
| "borrow_from_right ks cs index (InternalNode rk rc) (InternalNode ck cc) =
     bindR (py_nth ks index) (\<lambda>sep. bindR (py_nth rk 0) (\<lambda>k. bindR (py_nth rc 0) (\<lambda>c.
       Inr (ks[index := k],
            cs[index := internal_ref (ck @ [sep]) (cc @ [c]), index + 1 := internal_ref (tl rk) (tl rc)]))))"
| "borrow_from_right ks cs index _ _ = Inl AttributeError"

fun merge_nodes :: "'k list \<Rightarrow> 'k bref list \<Rightarrow> nat \<Rightarrow> 'k bnode \<Rightarrow> 'k bnode \<Rightarrow> 'k lists result" where
  "merge_nodes ks cs left_index (LeafNode lk lv) (LeafNode rk rv) =
     bindR (py_del ks left_index) (\<lambda>ks'.
       Inr (ks', del_at (left_index + 1) (cs[left_index := leaf_ref (lk @ rk) (lv @ rv)])))"
| "merge_nodes ks cs left_index (InternalNode lk lc) (InternalNode rk rc) =
     bindR (py_nth ks left_index) (\<lambda>sep.
       Inr (del_at left_index ks,
            del_at (left_index + 1) (cs[left_index := internal_ref (lk @ sep # rk) (lc @ rc)])))"
| "merge_nodes ks cs left_index _ _ = Inl AttributeError"

definition follow_at :: "'k pickle \<Rightarrow> storage \<Rightarrow> 'k bref list \<Rightarrow> nat \<Rightarrow> 'k bnode option result" where
  "follow_at P st cs i = bindR (py_nth cs i) (bref_get P st)"

definition rebalance ::
  "'k pickle \<Rightarrow> storage \<Rightarrow> nat \<Rightarrow> 'k list \<Rightarrow> 'k bref list \<Rightarrow> nat \<Rightarrow> 'k bref result" where
  "rebalance P st min_keys ks cs index =
     bindR (follow_at P st cs index) (\<lambda>child.
     bindR (if index > 0 then follow_at P st cs (index - 1) else Inr None) (\<lambda>left.
     bindR (if index + 1 < length cs then follow_at P st cs (index + 1) else Inr None) (\<lambda>right.
     bindR (case child of
         None \<Rightarrow> Inl AttributeError
       | Some c \<Rightarrow>
           if (case left of None \<Rightarrow> False | Some l \<Rightarrow> num_keys l > min_keys)
           then borrow_from_left ks cs index (the left) c
           else if (case right of None \<Rightarrow> False | Some r \<Rightarrow> num_keys r > min_keys)
           then borrow_from_right ks cs index (the right) c
           else case left of
                  Some l \<Rightarrow> merge_nodes ks cs (index - 1) l c
                | None \<Rightarrow> (case right of
                             Some r \<Rightarrow> merge_nodes ks cs index c r
                           | None \<Rightarrow> Inl AttributeError))
       (\<lambda>(ks', cs'). Inr (internal_ref ks' cs')))))"

fun bp_delete_rec ::
  "'k::linorder pickle \<Rightarrow> storage \<Rightarrow> nat \<Rightarrow> nat \<Rightarrow> 'k bnode \<Rightarrow> 'k \<Rightarrow> (int, 'k bref) act" where
  "bp_delete_rec P st min_keys 0 node key = raise RecursionError"
| "bp_delete_rec P st min_keys (Suc lim) (LeafNode ks vs) key =
     (let index = bisect_left ks key in
      if index \<ge> length ks \<or> ks ! index \<noteq> key then raise KeyError
      else
        bindS (lift (\<lambda>_. py_del vs index)) (\<lambda>vs'.
        bindS (modify (\<lambda>count. count - 1)) (\<lambda>_.
          ret (leaf_ref (del_at index ks) vs'))))"
| "bp_delete_rec P st min_keys (Suc lim) (InternalNode ks cs) key =
     (let child_index = bisect_right ks key in
      bindS (lift (\<lambda>_. follow_at P st cs child_index)) (\<lambda>child.
        case child of
          None \<Rightarrow> raise AttributeError
        | Some n \<Rightarrow>
            bindS (bp_delete_rec P st min_keys lim n key) (\<lambda>new_child.
              let cs' = cs[child_index := new_child] in
              bindS (lift (\<lambda>_. bref_get P st new_child)) (\<lambda>new.
                case new of
                  None \<Rightarrow> raise AttributeError
                | Some m \<Rightarrow>
                    if num_keys m \<ge> min_keys then ret (internal_ref ks cs')
                    else lift (\<lambda>_. rebalance P st min_keys ks cs' child_index)))))"

definition bp_delete ::
  "'k::linorder pickle \<Rightarrow> storage \<Rightarrow> nat \<Rightarrow> nat \<Rightarrow> 'k bnode option \<Rightarrow> 'k \<Rightarrow> (int, 'k bref) act" where
  "bp_delete P st min_keys lim node key =
     (case node of
        None \<Rightarrow> raise KeyError
      | Some n \<Rightarrow>
          bindS (bp_delete_rec P st min_keys lim n key) (\<lambda>new_ref.
          bindS (lift (\<lambda>_. bref_get P st new_ref)) (\<lambda>new_node.
            case new_node of
              Some (InternalNode [] cs) \<Rightarrow> lift (\<lambda>_. py_nth cs 0)
            | Some (LeafNode [] vs) \<Rightarrow> ret (BPlusNodeRef None 0)
            | _ \<Rightarrow> ret new_ref)))"

section \<open>Height and audit\<close>

fun bp_height :: "'k pickle \<Rightarrow> storage \<Rightarrow> nat \<Rightarrow> 'k bnode option \<Rightarrow> nat result" where
  "bp_height P st 0 node = Inl RecursionError"
| "bp_height P st (Suc lim) None = Inr 0"
| "bp_height P st (Suc lim) (Some (LeafNode ks vs)) = Inr 1"
| "bp_height P st (Suc lim) (Some (InternalNode ks cs)) =
     bindR (follow_at P st cs 0) (\<lambda>node. bindR (bp_height P st lim node) (\<lambda>h. Inr (h + 1)))"

text \<open>One constructor per message that \<open>audit\<close> appends.\<close>

datatype 'k audit_error =
    KeysOutOfOrder 'k 'k
  | BelowLowerBound 'k 'k
  | NotBelowUpperBound 'k 'k
  | NodeOverflow nat nat
  | NodeUnderflow nat nat
  | LeafMismatch
  | ValueNotLoaded 'k py_error
  | ChildMismatch
  | RootWithoutKeys
  | NotBalanced
  | CountMismatch int nat
  | WrongLength 'k int nat

record 'k audit_report =
  ar_keys :: nat
  ar_nodes :: nat
  ar_values :: nat
  ar_height :: nat
  ar_errors :: "'k audit_error list"

definition audit_ok :: "'k audit_report \<Rightarrow> bool" where
  "audit_ok r = (ar_errors r = [])"

record 'k audit_state =
  as_nodes :: nat
  as_values :: nat
  as_leaf_keys :: nat
  as_errors :: "'k audit_error list"

definition order_errors :: "'k::linorder list \<Rightarrow> 'k audit_error list" where
  "order_errors ks = [KeysOutOfOrder a b. (a, b) \<leftarrow> zip ks (tl ks), \<not> a < b]"

definition bound_errors :: "'k::linorder option \<Rightarrow> 'k option \<Rightarrow> 'k list \<Rightarrow> 'k audit_error list" where
  "bound_errors lower upper ks =
     concat (map (\<lambda>k.
       (if lower \<noteq> None \<and> k < the lower then [BelowLowerBound k (the lower)] else [])
       @ (if upper \<noteq> None \<and> k \<ge> the upper then [NotBelowUpperBound k (the upper)] else [])) ks)"

definition size_errors :: "nat \<Rightarrow> nat \<Rightarrow> bool \<Rightarrow> nat \<Rightarrow> 'k audit_error list" where
  "size_errors order min_keys is_root n =
     (if n > order then [NodeOverflow n order] else [])
     @ (if \<not> is_root \<and> n < min_keys then [NodeUnderflow n min_keys] else [])"

definition add_errors :: "'k audit_error list \<Rightarrow> ('k audit_state, unit) act" where
  "add_errors es = modify (\<lambda>a. a\<lparr>as_errors := as_errors a @ es\<rparr>)"

fun load_values :: "storage \<Rightarrow> ('k \<times> value_ref) list \<Rightarrow> ('k audit_state, unit) act" where
  "load_values st [] = ret ()"
| "load_values st ((key, v) # kvs) =
     bindS (case vref_get st v of
        Inr _ \<Rightarrow> modify (\<lambda>a. a\<lparr>as_values := as_values a + 1\<rparr>)
      | Inl e \<Rightarrow> add_errors [ValueNotLoaded key e]) (\<lambda>_. load_values st kvs)"

text \<open>The loop over the children, with the bounds each one gets; it collects the heights.\<close>

fun check_children ::
  "('k option \<Rightarrow> 'k option \<Rightarrow> 'c \<Rightarrow> ('s, nat) act) \<Rightarrow> 'k list \<Rightarrow> 'k option \<Rightarrow> 'k option
     \<Rightarrow> nat \<Rightarrow> 'c list \<Rightarrow> ('s, nat list) act" where
  "check_children f ks lower upper i [] = ret []"
| "check_children f ks lower upper i (c # cs) =
     bindS (if i > 0 then lift (\<lambda>_. bindR (py_nth ks (i - 1)) (\<lambda>k. Inr (Some k))) else ret lower) (\<lambda>lo.
     let hi = (if i < length ks then Some (ks ! i) else upper) in
     bindS (f lo hi c) (\<lambda>h.
     bindS (check_children f ks lower upper (i + 1) cs) (\<lambda>hs. ret (h # hs))))"

fun bp_check ::
  "'k::linorder pickle \<Rightarrow> storage \<Rightarrow> nat \<Rightarrow> nat \<Rightarrow> nat \<Rightarrow> 'k option \<Rightarrow> 'k option \<Rightarrow> bool
     \<Rightarrow> 'k bnode option \<Rightarrow> ('k audit_state, nat) act" where
  "bp_check P st order min_keys 0 lower upper is_root node = raise RecursionError"
| "bp_check P st order min_keys (Suc lim) lower upper is_root None =
     bindS (modify (\<lambda>a. a\<lparr>as_nodes := as_nodes a + 1\<rparr>)) (\<lambda>_. raise AttributeError)"
| "bp_check P st order min_keys (Suc lim) lower upper is_root (Some node) =
     bindS (modify (\<lambda>a. a\<lparr>as_nodes := as_nodes a + 1\<rparr>)) (\<lambda>_.
     bindS (add_errors (order_errors (node_keys node) @ bound_errors lower upper (node_keys node)
              @ size_errors order min_keys is_root (length (node_keys node)))) (\<lambda>_.
       case node of
         LeafNode ks vs \<Rightarrow>
           bindS (add_errors (if length vs \<noteq> length ks then [LeafMismatch] else [])) (\<lambda>_.
           bindS (load_values st (zip ks vs)) (\<lambda>_.
           bindS (modify (\<lambda>a. a\<lparr>as_leaf_keys := as_leaf_keys a + length ks\<rparr>)) (\<lambda>_.
             ret 1)))
       | InternalNode ks cs \<Rightarrow>
           bindS (add_errors ((if length cs \<noteq> length ks + 1 then [ChildMismatch] else [])
                    @ (if is_root \<and> length ks < 1 then [RootWithoutKeys] else []))) (\<lambda>_.
           bindS (check_children
                    (\<lambda>lo hi c. bindS (lift (\<lambda>_. bref_get P st c)) (bp_check P st order min_keys lim lo hi False))
                    ks lower upper 0 cs) (\<lambda>heights.
           bindS (add_errors (if card (set heights) > 1 then [NotBalanced] else [])) (\<lambda>_.
             ret (1 + (if heights = [] then 0 else Max (set heights))))))))"

definition bp_audit ::
  "'k::linorder pickle \<Rightarrow> storage \<Rightarrow> nat \<Rightarrow> nat \<Rightarrow> nat \<Rightarrow> 'k bref \<Rightarrow> int \<Rightarrow> 'k audit_report result" where
  "bp_audit P st order min_keys lim root_ref count =
     bindR (bref_get P st root_ref) (\<lambda>root.
       case (case root of
               None \<Rightarrow> ret 0
             | Some n \<Rightarrow> bp_check P st order min_keys lim None None True (Some n))
            \<lparr>as_nodes = 0, as_values = 0, as_leaf_keys = 0, as_errors = []\<rparr> of
         (Inl e, _) \<Rightarrow> Inl e
       | (Inr height, a) \<Rightarrow>
           Inr \<lparr>ar_keys = as_leaf_keys a, ar_nodes = as_nodes a, ar_values = as_values a,
                ar_height = height,
                ar_errors = as_errors a
                  @ (if int (as_leaf_keys a) \<noteq> count then [CountMismatch count (as_leaf_keys a)] else [])\<rparr>)"

section \<open>The engine\<close>

record 'k bplus_tree = "'k bref logical_base" +
  order :: nat
  min_keys :: nat
  count :: int

definition bp_refresh :: "('k bplus_tree, unit) act" where
  "bp_refresh =
     bindS (on_storage get_root_address) (\<lambda>a.
     bindS (modify (\<lambda>s. s\<lparr>tree_ref := BPlusNodeRef None a\<rparr>)) (\<lambda>_.
     bindS (on_storage get_key_count) (\<lambda>n.
       modify (\<lambda>s. s\<lparr>count := n\<rparr>))))"

definition on_count :: "(int, 'a) act \<Rightarrow> ('k bplus_tree, 'a) act" where
  "on_count m s = (case m (count s) of (r, n) \<Rightarrow> (r, s\<lparr>count := n\<rparr>))"

definition bplus_class ::
  "'k::linorder pickle \<Rightarrow> nat \<Rightarrow> ('k bplus_tree, 'k bref, 'k bnode, 'k) index_class" where
  "bplus_class P lim =
     \<lparr>refresh_tree_ref = bp_refresh,
      follow = bref_get P,
      get_node = (\<lambda>s. bp_get P (lstorage s) lim),
      insert_node = (\<lambda>node key v s. on_count (bp_insert P (lstorage s) (order s) lim node key v) s),
      delete_node = (\<lambda>node key s. on_count (bp_delete P (lstorage s) (min_keys s) lim node key) s),
      items_node = (\<lambda>s. bp_items P (lstorage s) lim),
      range_node = (\<lambda>s node start stop. bp_range P (lstorage s) lim start stop node)\<rparr>"

definition DEFAULT_ORDER :: nat where "DEFAULT_ORDER = 64"

text \<open>The constructor \<open>BPlusTree(storage, order)\<close>.\<close>

definition BPlusTree :: "storage \<Rightarrow> nat \<Rightarrow> unit result \<times> 'k bplus_tree" where
  "BPlusTree st ord =
     (let s = \<lparr>lstorage = st, tree_ref = BPlusNodeRef None 0, order = ord, min_keys = ord div 2, count = 0\<rparr> in
      if ord < 3 then (Inl ValueError, s) else bp_refresh s)"

definition bp_commit :: "'k pickle \<Rightarrow> ('k bplus_tree, unit) act" where
  "bp_commit P s =
     (case bref_store P (tree_ref s) (lstorage s) of
        (x, r, st) \<Rightarrow>
          bindS (lift (\<lambda>_. x)) (\<lambda>_.
          bindS (gets (\<lambda>s. (bref_address (tree_ref s), count s))) (\<lambda>(a, n).
          bindS (on_storage (commit_root_address a n)) (\<lambda>_.
            bp_refresh))) (s\<lparr>lstorage := st, tree_ref := r\<rparr>))"

definition bp_length :: "('k bplus_tree, int) act" where
  "bp_length =
     bindS (gets (\<lambda>s. locked (lstorage s))) (\<lambda>l.
     bindS (whenS (\<not> l) bp_refresh) (\<lambda>_. gets count))"

text \<open>\<open>height()\<close> and \<open>audit()\<close> of the engine read the committed version unless the lock is held.\<close>

definition bp_height_op :: "'k pickle \<Rightarrow> nat \<Rightarrow> ('k bplus_tree, nat) act" where
  "bp_height_op P lim =
     bindS (gets (\<lambda>s. locked (lstorage s))) (\<lambda>l.
     bindS (whenS (\<not> l) bp_refresh) (\<lambda>_.
       lift (\<lambda>s. bindR (bref_get P (lstorage s) (tree_ref s)) (bp_height P (lstorage s) lim))))"

definition bp_audit_op :: "'k::linorder pickle \<Rightarrow> nat \<Rightarrow> ('k bplus_tree, 'k audit_report) act" where
  "bp_audit_op P lim =
     bindS (gets (\<lambda>s. locked (lstorage s))) (\<lambda>l.
     bindS (whenS (\<not> l) bp_refresh) (\<lambda>_.
       lift (\<lambda>s. bp_audit P (lstorage s) (order s) (min_keys s) lim (tree_ref s) (count s))))"

end
