(* ===== verification/IndexContract.thy ===== *)
theory IndexContract
  imports Logical
begin

text \<open>
  The contract of an index engine, the interface that \<open>interface.py\<close> and \<open>simulation.py\<close>
  program against.

  \<open>index_ops\<close> is what a class of \<open>INDEX_CLASSES\<close> offers on a database file. The abstract
  specification is a pair of sorted association lists, the content of the last commit and
  the content with the writes staged since; \<open>spec_step\<close> says what every request does to it.
  The locale \<open>index_engine\<close> states what an engine promises in these terms and shows that
  every run of requests, power failures and failing commits among them, is a run of the
  specification. A request can also arm a crash of the disk at a later flush, so that
  commits fail in the middle; \<open>flush_run\<close> says which ones do.
\<close>

section \<open>Contents\<close>

fun in_bounds :: "'k::linorder option \<Rightarrow> 'k option \<Rightarrow> 'k \<Rightarrow> bool" where
  "in_bounds lo hi k \<longleftrightarrow>
     (case lo of None \<Rightarrow> True | Some l \<Rightarrow> l \<le> k) \<and> (case hi of None \<Rightarrow> True | Some h \<Rightarrow> k < h)"

declare in_bounds.simps [simp del]

lemma in_bounds_None [simp]: "in_bounds None None k"
  by (simp add: in_bounds.simps)

text \<open>\<open>start \<le> key < stop\<close>, a missing bound being no bound: the contract of a range scan.\<close>

abbreviation in_range :: "'k::linorder option \<Rightarrow> 'k option \<Rightarrow> 'k \<times> 'v \<Rightarrow> bool" where
  "in_range start stop kv \<equiv> in_bounds start stop (fst kv)"

abbreviation somes :: "('k \<times> bytes) list \<Rightarrow> ('k \<times> bytes option) list" where
  "somes xs \<equiv> map (\<lambda>(k, v). (k, Some v)) xs"

definition lookup_result :: "('k \<rightharpoonup> bytes) \<Rightarrow> 'k \<Rightarrow> bytes option result" where
  "lookup_result m k = (case m k of None \<Rightarrow> Inl KeyError | Some v \<Rightarrow> Inr (Some v))"

section \<open>Operations of an engine\<close>

text \<open>
  The methods of an engine, opening the engine on the bytes of a file, the bytes that survive a
  power failure, and arming a crash of its disk at the \<open>n\<close>-th flush from now on.
\<close>

record ('s, 'k) index_ops =
  op_get :: "'k \<Rightarrow> ('s, bytes option) act"
  op_set :: "'k \<Rightarrow> bytes \<Rightarrow> ('s, unit) act"
  op_delete :: "'k \<Rightarrow> ('s, unit) act"
  op_items :: "('s, ('k \<times> bytes option) list) act"
  op_range :: "'k option \<Rightarrow> 'k option \<Rightarrow> ('s, ('k \<times> bytes option) list) act"
  op_length :: "('s, int) act"
  op_commit :: "('s, unit) act"
  op_open :: "bytes \<Rightarrow> unit result \<times> 's"
  op_image :: "'s \<Rightarrow> bytes"
  op_arm :: "nat \<Rightarrow> 's \<Rightarrow> 's"

section \<open>The specification\<close>

type_synonym 'k content = "('k \<times> bytes) list"

datatype 'k request =
    Get 'k
  | Put 'k bytes
  | Remove 'k
  | Items
  | Range "'k option" "'k option"
  | Length
  | Commit
  | PowerLoss
  | CrashAt nat

datatype 'k reply =
    Value "bytes option"
  | Pairs "('k \<times> bytes option) list"
  | Number int
  | Done
  | Raised py_error

inductive spec_step ::
  "'k::linorder content \<times> 'k content \<Rightarrow> 'k request \<Rightarrow> 'k reply \<Rightarrow> 'k content \<times> 'k content \<Rightarrow> bool" where
  spec_get: "map_of ys k = Some v \<Longrightarrow> spec_step (xs, ys) (Get k) (Value (Some v)) (xs, ys)"
| spec_get_missing: "map_of ys k = None \<Longrightarrow> spec_step (xs, ys) (Get k) (Raised KeyError) (xs, ys)"
| spec_put: "spec_step (xs, ys) (Put k v) Done (xs, kv_upd k v ys)"
| spec_remove: "k \<in> fst ` set ys \<Longrightarrow> spec_step (xs, ys) (Remove k) Done (xs, kv_del k ys)"
| spec_remove_missing: "k \<notin> fst ` set ys \<Longrightarrow> spec_step (xs, ys) (Remove k) (Raised KeyError) (xs, ys)"
| spec_items: "spec_step (xs, ys) Items (Pairs (somes ys)) (xs, ys)"
| spec_range: "spec_step (xs, ys) (Range a b) (Pairs (somes (filter (in_range a b) ys))) (xs, ys)"
| spec_length: "spec_step (xs, ys) Length (Number (int (length ys))) (xs, ys)"
| spec_commit: "spec_step (xs, ys) Commit Done (ys, ys)"
| spec_commit_fails: "spec_step (xs, ys) Commit (Raised e) (xs, xs)"
| spec_power_loss: "spec_step (xs, ys) PowerLoss Done (xs, xs)"
| spec_crash_at: "spec_step (xs, ys) (CrashAt n) Done (xs, ys)"

inductive spec_run ::
  "'k::linorder content \<times> 'k content \<Rightarrow> 'k request list \<Rightarrow> 'k reply list \<Rightarrow> 'k content \<times> 'k content \<Rightarrow> bool" where
  spec_run_Nil: "spec_run c [] [] c"
| spec_run_Cons: "spec_step c q r c' \<Longrightarrow> spec_run c' qs rs c'' \<Longrightarrow> spec_run c (q # qs) (r # rs) c''"

inductive_cases spec_run_ConsE: "spec_run c (q # qs) rs c'"
inductive_cases spec_commitE: "spec_step c Commit r c'"

inductive_simps spec_step_simps:
  "spec_step c (Get k) r c'" "spec_step c (Put k v) r c'" "spec_step c (Remove k) r c'" "spec_step c Items r c'"
  "spec_step c (Range a b) r c'" "spec_step c Length r c'" "spec_step c Commit r c'" "spec_step c PowerLoss r c'"
  "spec_step c (CrashAt n) r c'"

text \<open>
  Which commits fail at a flush, from the requests and replies alone: \<open>a\<close> is the number of flushes left
  until an armed crash. A commit flushes twice, first the records and then the meta block. It returns only when
  the crash is further away; otherwise it raises, unless it has failed before with a
  \<open>struct.error\<close>. Opening the database again disarms.
\<close>

fun flush_run :: "nat option \<Rightarrow> 'k request list \<Rightarrow> 'k reply list \<Rightarrow> bool" where
  "flush_run a (Commit # qs) (r # rs) \<longleftrightarrow>
     (if r = Done then (case a of None \<Rightarrow> True | Some n \<Rightarrow> 2 < n) \<and> flush_run (map_option (\<lambda>n. n - 2) a) qs rs
      else (r = Raised SimCrash \<and> (case a of None \<Rightarrow> False | Some n \<Rightarrow> n \<le> 2) \<or> r = Raised StructError) \<and> flush_run None qs rs)"
| "flush_run a (PowerLoss # qs) (r # rs) \<longleftrightarrow> flush_run None qs rs"
| "flush_run a (CrashAt n # qs) (r # rs) \<longleftrightarrow> flush_run (Some n) qs rs"
| "flush_run a (_ # qs) (_ # rs) \<longleftrightarrow> flush_run a qs rs"
| "flush_run a _ _ \<longleftrightarrow> True"

section \<open>Running an engine\<close>

definition reply_of :: "('a \<Rightarrow> 'k reply) \<Rightarrow> 'a result \<times> 's \<Rightarrow> 'k reply \<times> 's" where
  "reply_of f p = (case p of (Inr x, s) \<Rightarrow> (f x, s) | (Inl e, s) \<Rightarrow> (Raised e, s))"

definition reopened :: "('s, 'k) index_ops \<Rightarrow> 's \<Rightarrow> unit result \<times> 's" where
  "reopened E s = op_open E (op_image E s)"

text \<open>
  One request. After a commit that raised, or when the power fails, the database is opened
  again on the bytes that survived.
\<close>

fun engine_step :: "('s, 'k) index_ops \<Rightarrow> 'k request \<Rightarrow> 's \<Rightarrow> 'k reply \<times> 's" where
  "engine_step E (Get k) s = reply_of Value (op_get E k s)"
| "engine_step E (Put k v) s = reply_of (\<lambda>_. Done) (op_set E k v s)"
| "engine_step E (Remove k) s = reply_of (\<lambda>_. Done) (op_delete E k s)"
| "engine_step E Items s = reply_of Pairs (op_items E s)"
| "engine_step E (Range a b) s = reply_of Pairs (op_range E a b s)"
| "engine_step E Length s = reply_of Number (op_length E s)"
| "engine_step E Commit s =
     (case op_commit E s of
        (Inr _, s') \<Rightarrow> (Done, s')
      | (Inl e, s') \<Rightarrow>
          (case reopened E s' of
             (Inr _, s'') \<Rightarrow> (Raised e, s'')
           | (Inl e', s'') \<Rightarrow> (Raised e', s'')))"
| "engine_step E PowerLoss s = reply_of (\<lambda>_. Done) (reopened E s)"
| "engine_step E (CrashAt n) s = (Done, op_arm E n s)"

fun engine_run :: "('s, 'k) index_ops \<Rightarrow> 'k request list \<Rightarrow> 's \<Rightarrow> 'k reply list \<times> 's" where
  "engine_run E [] s = ([], s)"
| "engine_run E (q # qs) s =
     (case engine_step E q s of (r, s') \<Rightarrow> (case engine_run E qs s' of (rs, s'') \<Rightarrow> (r # rs, s'')))"

lemma engine_run_length: "engine_run E qs s = (rs, s') \<Longrightarrow> length rs = length qs"
  by (induction qs arbitrary: s rs) (auto split: prod.splits)

fun puts :: "'k request list \<Rightarrow> nat" where
  "puts [] = 0"
| "puts (Put k v # qs) = Suc (puts qs)"
| "puts (_ # qs) = puts qs"

lemma spec_step_length:
  "spec_step c q r c' \<Longrightarrow> kv_sorted (snd c) \<Longrightarrow>
     max (length (fst c')) (length (snd c')) \<le> max (length (fst c)) (length (snd c)) + puts [q]"
  by (induction rule: spec_step.induct) (auto simp: length_kv_upd length_kv_del)

section \<open>The contract\<close>

text \<open>
  \<open>rep s xs ys\<close>: the engine in state \<open>s\<close> has committed \<open>xs\<close> and shows \<open>ys\<close>. \<open>cap\<close> is a number
  of keys up to which its recursion depth suffices. \<open>stor\<close> is its storage: reads leave it alone,
  writes take its lock, and a commit releases the lock after two flushes of the disk.
\<close>

locale index_engine =
  fixes E :: "('s, 'k::linorder) index_ops"
    and rep :: "'s \<Rightarrow> 'k content \<Rightarrow> 'k content \<Rightarrow> bool"
    and cap :: nat
    and stor :: "'s \<Rightarrow> storage"
  assumes rep_sorted: "rep s xs ys \<Longrightarrow> kv_sorted xs \<and> kv_sorted ys"
    and get_law: "rep s xs ys \<Longrightarrow> \<exists>s'. op_get E k s = (lookup_result (map_of ys) k, s') \<and> rep s' xs ys \<and> stor s' = stor s"
    and set_law: "rep s xs ys \<Longrightarrow> Suc (length ys) < cap
      \<Longrightarrow> \<exists>s'. op_set E k v s = (Inr (), s') \<and> rep s' xs (kv_upd k v ys) \<and> stor s' = (stor s)\<lparr>locked := True\<rparr>"
    and delete_law: "rep s xs ys
      \<Longrightarrow> \<exists>s'. op_delete E k s = (if k \<in> fst ` set ys then Inr () else Inl KeyError, s') \<and> rep s' xs (kv_del k ys)
            \<and> stor s' = (stor s)\<lparr>locked := True\<rparr>"
    and items_law: "rep s xs ys \<Longrightarrow> \<exists>s'. op_items E s = (Inr (somes ys), s') \<and> rep s' xs ys \<and> stor s' = stor s"
    and range_law: "rep s xs ys
      \<Longrightarrow> \<exists>s'. op_range E a b s = (Inr (somes (filter (in_range a b) ys)), s') \<and> rep s' xs ys \<and> stor s' = stor s"
    and length_law: "rep s xs ys \<Longrightarrow> \<exists>s'. op_length E s = (Inr (int (length ys)), s') \<and> rep s' xs ys \<and> stor s' = stor s"
    and commit_law: "rep s xs ys \<Longrightarrow>
      (\<exists>s'. op_commit E s = (Inr (), s') \<and> rep s' ys ys \<and> flushed_twice (disk (stor s)) (disk (stor s')) \<and> \<not> locked (stor s'))
      \<or> (\<exists>e s' s''. op_commit E s = (Inl e, s') \<and> (e = StructError \<or> e = SimCrash \<and> crashes_soon (disk (stor s)))
           \<and> reopened E s' = (Inr (), s'') \<and> rep s'' xs xs \<and> flushes_left (disk (stor s'')) = None)"
    and reopen_law: "rep s xs ys \<Longrightarrow> \<exists>s'. reopened E s = (Inr (), s') \<and> rep s' xs xs \<and> flushes_left (disk (stor s')) = None"
    and arm_law: "rep s xs ys \<Longrightarrow> rep (op_arm E n s) xs ys \<and> stor (op_arm E n s) = (stor s)\<lparr>disk := arm_crash n (disk (stor s))\<rparr>"
begin

abbreviation left :: "'s \<Rightarrow> nat option" where
  "left s \<equiv> flushes_left (disk (stor s))"

lemma step_refines:
  assumes "rep s xs ys" "Suc (length ys) < cap" "engine_step E q s = (r, s')"
  shows "\<exists>xs' ys'. spec_step (xs, ys) q r (xs', ys') \<and> rep s' xs' ys'
    \<and> (\<forall>qs rs. flush_run (left s') qs rs \<longrightarrow> flush_run (left s) (q # qs) (r # rs))"
proof (cases q)
  case (Get k)
  obtain t where "op_get E k s = (lookup_result (map_of ys) k, t)" "rep t xs ys" "stor t = stor s"
    using get_law [OF assms(1)] by blast
  then show ?thesis
    using Get assms(3) spec_get [of ys k _ xs] spec_get_missing [of ys k xs]
    by (cases "map_of ys k") (fastforce simp: reply_of_def lookup_result_def)+
next
  case (Put k v)
  then show ?thesis
    using set_law [OF assms(1,2), of k v] assms(3) spec_put by (fastforce simp: reply_of_def)
next
  case (Remove k)
  obtain t where "op_delete E k s = (if k \<in> fst ` set ys then Inr () else Inl KeyError, t)" "rep t xs (kv_del k ys)"
    "stor t = (stor s)\<lparr>locked := True\<rparr>"
    using delete_law [OF assms(1)] by blast
  then show ?thesis
    using Remove assms(3) spec_remove [of k ys xs] spec_remove_missing [of k ys xs] kv_del_absent [of k ys]
    by (cases "k \<in> fst ` set ys") (auto simp: reply_of_def)
next
  case Items
  then show ?thesis
    using items_law [OF assms(1)] assms(3) spec_items by (fastforce simp: reply_of_def)
next
  case (Range a b)
  then show ?thesis
    using range_law [OF assms(1), of a b] assms(3) spec_range by (fastforce simp: reply_of_def)
next
  case Length
  then show ?thesis
    using length_law [OF assms(1)] assms(3) spec_length by (fastforce simp: reply_of_def)
next
  case Commit
  consider (ok) t where "op_commit E s = (Inr (), t)" "rep t ys ys" "flushed_twice (disk (stor s)) (disk (stor t))"
    | (fails) e t u where "op_commit E s = (Inl e, t)" "reopened E t = (Inr (), u)" "rep u xs xs" "left u = None"
      "e = StructError \<or> e = SimCrash \<and> crashes_soon (disk (stor s))"
    using commit_law [OF assms(1)] by blast
  then show ?thesis
  proof cases
    case t: (ok t)
    then have "r = Done" "s' = t" using Commit assms(3) by auto
    moreover have "case left s of None \<Rightarrow> True | Some n \<Rightarrow> 2 < n" "left t = map_option (\<lambda>n. n - 2) (left s)"
      using t(3) by (auto simp: flushed_twice_def crashes_soon_def split: option.splits)
    ultimately show ?thesis using Commit t(2) spec_commit by fastforce
  next
    case t: (fails e t u)
    then have "r = Raised e" "s' = u" using Commit assms(3) by auto
    then show ?thesis using Commit t(3-5) spec_commit_fails by (fastforce simp: crashes_soon_def)
  qed
next
  case PowerLoss
  then show ?thesis
    using reopen_law [OF assms(1)] assms(3) spec_power_loss by (fastforce simp: reply_of_def)
next
  case (CrashAt n)
  then show ?thesis
    using arm_law [OF assms(1), of n] assms(3) spec_crash_at by fastforce
qed

lemma run_refines:
  "rep s xs ys \<Longrightarrow> Suc (max (length xs) (length ys) + puts qs) < cap \<Longrightarrow> engine_run E qs s = (rs, s')
    \<Longrightarrow> \<exists>xs' ys'. spec_run (xs, ys) qs rs (xs', ys') \<and> rep s' xs' ys' \<and> flush_run (left s) qs rs"
proof (induction qs arbitrary: s xs ys rs)
  case Nil
  then show ?case by (auto intro: spec_run_Nil)
next
  case (Cons q qs)
  obtain r s1 where 1: "engine_step E q s = (r, s1)" by fastforce
  obtain rs' where 2: "engine_run E qs s1 = (rs', s')" "rs = r # rs'"
    using Cons.prems(3) 1 by (auto split: prod.splits)
  have "puts (q # qs) = puts [q] + puts qs" by (cases q) auto
  then have b: "Suc (max (length xs) (length ys) + puts [q] + puts qs) < cap" using Cons.prems(2) by simp
  then have "Suc (length ys) < cap" by linarith
  then obtain xs1 ys1 where 3: "spec_step (xs, ys) q r (xs1, ys1)" "rep s1 xs1 ys1"
    "\<forall>qs rs. flush_run (left s1) qs rs \<longrightarrow> flush_run (left s) (q # qs) (r # rs)"
    using step_refines [OF Cons.prems(1) _ 1] by blast
  moreover have "max (length xs1) (length ys1) \<le> max (length xs) (length ys) + puts [q]"
    using spec_step_length [OF 3(1)] rep_sorted [OF Cons.prems(1)] by simp
  ultimately have "Suc (max (length xs1) (length ys1) + puts qs) < cap" using b by linarith
  then obtain xs' ys' where "spec_run (xs1, ys1) qs rs' (xs', ys')" "rep s' xs' ys'" "flush_run (left s1) qs rs'"
    using Cons.IH [OF 3(2) _ 2(1)] by blast
  then show ?case using spec_run_Cons [OF 3(1)] 3(3) 2(2) by blast
qed

text \<open>Only a commit and opening the file again release the lock.\<close>

lemma step_keeps_lock:
  assumes "rep s xs ys" "Suc (length ys) < cap" "engine_step E q s = (r, s')" "q \<noteq> Commit" "q \<noteq> PowerLoss" "locked (stor s)"
  shows "locked (stor s')"
proof (cases q)
  case (Get k)
  then show ?thesis using get_law [OF assms(1), of k] assms(3,6) by (auto simp: reply_of_def split: sum.splits)
next
  case (Put k v)
  then show ?thesis using set_law [OF assms(1,2), of k v] assms(3) by (auto simp: reply_of_def)
next
  case (Remove k)
  then show ?thesis using delete_law [OF assms(1), of k] assms(3) by (auto simp: reply_of_def split: sum.splits if_splits)
next
  case Items
  then show ?thesis using items_law [OF assms(1)] assms(3,6) by (auto simp: reply_of_def)
next
  case (Range a b)
  then show ?thesis using range_law [OF assms(1), of a b] assms(3,6) by (auto simp: reply_of_def)
next
  case Length
  then show ?thesis using length_law [OF assms(1)] assms(3,6) by (auto simp: reply_of_def)
next
  case (CrashAt n)
  then show ?thesis using arm_law [OF assms(1), of n] assms(3,6) by auto
qed (use assms in simp_all)

lemma run_keeps_lock:
  "rep s xs ys \<Longrightarrow> Suc (max (length xs) (length ys) + puts qs) < cap \<Longrightarrow> engine_run E qs s = (rs, s')
    \<Longrightarrow> list_all (\<lambda>q. q \<noteq> Commit \<and> q \<noteq> PowerLoss) qs \<Longrightarrow> locked (stor s) \<Longrightarrow> locked (stor s')"
proof (induction qs arbitrary: s xs ys rs)
  case (Cons q qs)
  obtain r s1 where 1: "engine_step E q s = (r, s1)" by fastforce
  obtain rs' where 2: "engine_run E qs s1 = (rs', s')" using Cons.prems(3) 1 by (auto split: prod.splits)
  have "puts (q # qs) = puts [q] + puts qs" by (cases q) auto
  then have b: "Suc (max (length xs) (length ys) + puts [q] + puts qs) < cap" using Cons.prems(2) by simp
  then have small: "Suc (length ys) < cap" by linarith
  then obtain xs1 ys1 where 3: "spec_step (xs, ys) q r (xs1, ys1)" "rep s1 xs1 ys1"
    using step_refines [OF Cons.prems(1) _ 1] by blast
  have "max (length xs1) (length ys1) \<le> max (length xs) (length ys) + puts [q]"
    using spec_step_length [OF 3(1)] rep_sorted [OF Cons.prems(1)] by simp
  then have "Suc (max (length xs1) (length ys1) + puts qs) < cap" using b by linarith
  then show ?case
    using Cons.IH [OF 3(2) _ 2] step_keeps_lock [OF Cons.prems(1) small 1] Cons.prems(4,5) by simp
qed simp

end

end
