(* ===== verification/LogicalEngine.thy ===== *)
theory LogicalEngine
  imports IndexContract
begin

text \<open>
  \<open>LogicalBase\<close> proved once for every engine. The locale states what an engine class owes to
  the template: that its node methods implement the content that the state represents, and
  that refreshing shows the last commit. From that the lemmas give \<open>get\<close>, \<open>set\<close>, \<open>delete\<close>,
  \<open>items\<close> and \<open>range_items\<close> with the lock and the refresh around them.
\<close>

abbreviation hold_lock :: "('r, 'z) lstate \<Rightarrow> ('r, 'z) lstate" where
  "hold_lock s \<equiv> s\<lparr>lstorage := lstorage s\<lparr>locked := True\<rparr>\<rparr>"

locale logical_engine =
  fixes C :: "('r, 'z, 'n, 'k::linorder) engine"
    and inv :: "('r, 'z) lstate \<Rightarrow> 'k content \<Rightarrow> 'k content \<Rightarrow> bool"
    and cap :: nat
  assumes unlocked_law: "inv s xs ys \<Longrightarrow> \<not> locked (lstorage s) \<Longrightarrow> ys = xs"
    and refresh_law: "inv s xs ys \<Longrightarrow>
      \<exists>s'. refresh_tree_ref C s = (Inr (), s') \<and> inv s' xs xs \<and> lstorage s' = lstorage s"
    and lock_law: "inv s xs ys \<Longrightarrow> inv (hold_lock s) xs ys"
    and read_law: "inv s xs ys \<Longrightarrow> \<exists>node. follow C (lstorage s) (tree_ref s) = Inr node
      \<and> get_node C s node k = lookup_result (map_of ys) k
      \<and> items_node C s node = Inr (somes ys)
      \<and> range_node C s node a b = Inr (somes (filter (in_range a b) ys))"
    and insert_law: "inv s xs ys \<Longrightarrow> locked (lstorage s) \<Longrightarrow> Suc (length ys) < cap
      \<Longrightarrow> follow C (lstorage s) (tree_ref s) = Inr node
      \<Longrightarrow> \<exists>r s'. insert_node C node k (ValueRef (Some v) 0) s = (Inr r, s')
            \<and> inv (s'\<lparr>tree_ref := r\<rparr>) xs (kv_upd k v ys) \<and> lstorage s' = lstorage s"
    and delete_law: "inv s xs ys \<Longrightarrow> locked (lstorage s) \<Longrightarrow> k \<in> fst ` set ys
      \<Longrightarrow> follow C (lstorage s) (tree_ref s) = Inr node
      \<Longrightarrow> \<exists>r s'. delete_node C node k s = (Inr r, s')
            \<and> inv (s'\<lparr>tree_ref := r\<rparr>) xs (kv_del k ys) \<and> lstorage s' = lstorage s"
    and delete_missing_law: "inv s xs ys \<Longrightarrow> locked (lstorage s) \<Longrightarrow> k \<notin> fst ` set ys
      \<Longrightarrow> follow C (lstorage s) (tree_ref s) = Inr node \<Longrightarrow> delete_node C node k s = (Inl KeyError, s)"
begin

lemma refresh_when_unlocked:
  assumes "inv s xs ys"
  obtains s' where "whenS (\<not> locked (lstorage s)) (refresh_tree_ref C) s = (Inr (), s')"
    "inv s' xs ys" "lstorage s' = lstorage s"
proof (cases "locked (lstorage s)")
  case True
  then show thesis using assms by (intro that [of s]) (simp_all add: act_defs)
next
  case False
  then have "ys = xs" using unlocked_law [OF assms] by simp
  then show thesis using refresh_law [OF assms] False that by (auto simp: act_defs)
qed

lemma read_root_ok:
  assumes "inv s xs ys"
  obtains s' node where "read_root C s = (Inr node, s')" "inv s' xs ys"
    "follow C (lstorage s') (tree_ref s') = Inr node" "lstorage s' = lstorage s"
proof -
  obtain s' where s': "whenS (\<not> locked (lstorage s)) (refresh_tree_ref C) s = (Inr (), s')"
    "inv s' xs ys" "lstorage s' = lstorage s"
    by (rule refresh_when_unlocked [OF assms])
  obtain node where node: "follow C (lstorage s') (tree_ref s') = Inr node"
    using read_law [OF s'(2)] by blast
  then have "read_root C s = (Inr node, s')"
    using s'(1) by (simp add: read_root_def bindS_def lift_def gets_def)
  then show thesis using s' node by (intro that)
qed

lemma write_root_ok:
  assumes "inv s xs ys"
  obtains s' node where "write_root C s = (Inr node, s')" "inv s' xs ys"
    "follow C (lstorage s') (tree_ref s') = Inr node" "lstorage s' = lstorage (hold_lock s)"
proof -
  note l = lock_law [OF assms]
  obtain s' where s': "whenS (\<not> locked (lstorage s)) (refresh_tree_ref C) (hold_lock s) = (Inr (), s')"
    "inv s' xs ys" "lstorage s' = lstorage (hold_lock s)"
  proof (cases "locked (lstorage s)")
    case True
    then show ?thesis using l by (intro that [of "hold_lock s"]) (simp_all add: act_defs)
  next
    case False
    then have "ys = xs" using unlocked_law [OF assms] by simp
    then show ?thesis using refresh_law [OF l] False that by (auto simp: act_defs)
  qed
  obtain node where node: "follow C (lstorage s') (tree_ref s') = Inr node"
    using read_law [OF s'(2)] by blast
  then have "write_root C s = (Inr node, s')"
    using s'(1) by (simp add: write_root_def on_storage_def lock_eq bindS_def lift_def)
  then show thesis by (rule that [OF _ s'(2) node s'(3)])
qed

lemma get_ok:
  assumes "inv s xs ys"
  obtains s' where "logical_get C k s = (lookup_result (map_of ys) k, s')" "inv s' xs ys" "lstorage s' = lstorage s"
proof -
  obtain s' node where s': "read_root C s = (Inr node, s')" "inv s' xs ys"
    "follow C (lstorage s') (tree_ref s') = Inr node" "lstorage s' = lstorage s"
    by (rule read_root_ok [OF assms])
  have "logical_get C k s = (lookup_result (map_of ys) k, s')"
    using s'(1,3) read_law [OF s'(2), of k] by (auto simp: logical_get_def bindS_def lift_def)
  then show thesis using s' by (intro that)
qed

lemma items_ok:
  assumes "inv s xs ys"
  obtains s' where "logical_items C s = (Inr (somes ys), s')" "inv s' xs ys" "lstorage s' = lstorage s"
proof -
  obtain s' node where s': "read_root C s = (Inr node, s')" "inv s' xs ys"
    "follow C (lstorage s') (tree_ref s') = Inr node" "lstorage s' = lstorage s"
    by (rule read_root_ok [OF assms])
  have "logical_items C s = (Inr (somes ys), s')"
    using s'(1,3) read_law [OF s'(2)] by (auto simp: logical_items_def bindS_def lift_def)
  then show thesis using s' by (intro that)
qed

lemma range_ok:
  assumes "inv s xs ys"
  obtains s' where "logical_range_items C a b s = (Inr (somes (filter (in_range a b) ys)), s')" "inv s' xs ys"
    "lstorage s' = lstorage s"
proof -
  obtain s' node where s': "read_root C s = (Inr node, s')" "inv s' xs ys"
    "follow C (lstorage s') (tree_ref s') = Inr node" "lstorage s' = lstorage s"
    by (rule read_root_ok [OF assms])
  have "logical_range_items C a b s = (Inr (somes (filter (in_range a b) ys)), s')"
    using s'(1,3) read_law [OF s'(2), of _ a b] by (auto simp: logical_range_items_def bindS_def lift_def)
  then show thesis using s' by (intro that)
qed

lemma set_ok:
  assumes "inv s xs ys" "Suc (length ys) < cap"
  obtains s' where "logical_set C k v s = (Inr (), s')" "inv s' xs (kv_upd k v ys)"
    "lstorage s' = lstorage (hold_lock s)"
proof -
  obtain s' node where s': "write_root C s = (Inr node, s')" "inv s' xs ys"
    "follow C (lstorage s') (tree_ref s') = Inr node" "lstorage s' = lstorage (hold_lock s)"
    by (rule write_root_ok [OF assms(1)])
  then obtain r s2 where r: "insert_node C node k (ValueRef (Some v) 0) s' = (Inr r, s2)"
    "inv (s2\<lparr>tree_ref := r\<rparr>) xs (kv_upd k v ys)" "lstorage s2 = lstorage s'"
    using insert_law [OF s'(2) _ assms(2) s'(3), of k v] by auto
  have "logical_set C k v s = (Inr (), s2\<lparr>tree_ref := r\<rparr>)"
    using s'(1) r(1) by (simp add: logical_set_def bindS_def set_tree_ref_def modify_def)
  then show thesis using r s'(4) by (intro that [of "s2\<lparr>tree_ref := r\<rparr>"]) simp_all
qed

lemma delete_ok:
  assumes "inv s xs ys"
  obtains s' where "logical_delete C k s = (if k \<in> fst ` set ys then Inr () else Inl KeyError, s')"
    "inv s' xs (kv_del k ys)" "lstorage s' = lstorage (hold_lock s)"
proof -
  obtain s' node where s': "write_root C s = (Inr node, s')" "inv s' xs ys"
    "follow C (lstorage s') (tree_ref s') = Inr node" "lstorage s' = lstorage (hold_lock s)"
    by (rule write_root_ok [OF assms(1)])
  have l: "locked (lstorage s')" using s'(4) by simp
  show thesis
  proof (cases "k \<in> fst ` set ys")
    case True
    obtain r s2 where r: "delete_node C node k s' = (Inr r, s2)"
      "inv (s2\<lparr>tree_ref := r\<rparr>) xs (kv_del k ys)" "lstorage s2 = lstorage s'"
      using delete_law [OF s'(2) l True s'(3)] by blast
    have "logical_delete C k s = (Inr (), s2\<lparr>tree_ref := r\<rparr>)"
      using s'(1) r(1) by (simp add: logical_delete_def bindS_def set_tree_ref_def modify_def)
    then show thesis using r s'(4) True by (intro that [of "s2\<lparr>tree_ref := r\<rparr>"]) simp_all
  next
    case False
    have "logical_delete C k s = (Inl KeyError, s')"
      using s'(1) delete_missing_law [OF s'(2) l False s'(3)] by (simp add: logical_delete_def bindS_def)
    then show thesis using s'(2,4) False by (intro that) (simp_all add: kv_del_absent)
  qed
qed

end

end
