(* ===== verification/StoredTree.thy ===== *)
theory StoredTree
  imports LogicalEngine
begin

text \<open>
  What the engines share below their nodes. References keep their meaning in every later
  file (\<open>extends\<close>); storing only appends records (\<open>stores\<close>). The locale \<open>versioned_tree\<close> is the
  contract between a tree and the storage: a way to represent contents that later files
  keep, and a \<open>store\<close> after which the content can be read from the file. From it follow, once
  for all engines, what a commit does, also when it fails, and what opening a file shows.
\<close>

section \<open>Values\<close>

fun clean_vref :: "value_ref \<Rightarrow> bool" where
  "clean_vref (ValueRef r a) \<longleftrightarrow> (r = None \<and> SUPERBLOCK_SIZE \<le> a) \<or> (r \<noteq> None \<and> a = 0)"

definition value_at :: "storage \<Rightarrow> value_ref \<Rightarrow> bytes \<Rightarrow> bool" where
  "value_at st v x \<longleftrightarrow> clean_vref v \<and> vref_get st v = Inr (Some x)"

lemma list_all2_value_at_nth:
  "list_all2 (value_at st) vs xs \<Longrightarrow> i < length xs \<Longrightarrow> i < length vs \<and> vref_get st (vs ! i) = Inr (Some (xs ! i))"
  by (simp add: list_all2_conv_all_nth value_at_def)

section \<open>Later files\<close>

text \<open>
  \<open>extends st st'\<close>: the file of \<open>st'\<close> has the records of the file of \<open>st\<close>, possibly followed
  by more. The meta slots may differ.
\<close>

definition extends :: "storage \<Rightarrow> storage \<Rightarrow> bool" where
  "extends st st' \<longleftrightarrow>
     (\<exists>bs. drop SUPERBLOCK_SIZE (live (disk st')) = drop SUPERBLOCK_SIZE (live (disk st)) @ bs)"

lemma extends_refl [simp]: "extends st st"
  by (simp add: extends_def)

lemma extends_trans: "extends st st' \<Longrightarrow> extends st' st'' \<Longrightarrow> extends st st''"
  by (auto simp: extends_def)

lemma appended_extends:
  "appended st st' bs \<Longrightarrow> SUPERBLOCK_SIZE \<le> length (live (disk st)) \<Longrightarrow> extends st st'"
  by (auto simp: appended_def extends_def)

lemma extends_read: "extends st st' \<Longrightarrow> SUPERBLOCK_SIZE \<le> a \<Longrightarrow> storage_read st a = Inr p \<Longrightarrow> storage_read st' a = Inr p"
  by (auto simp: extends_def intro: storage_read_frame)

lemma value_at_extends: "extends st st' \<Longrightarrow> value_at st v x \<Longrightarrow> value_at st' v x"
  by (cases v) (auto simp: value_at_def bindR_eq_Inr split: if_splits intro: extends_read)

lemma values_extends:
  "extends st st' \<Longrightarrow> list_all2 (value_at st) vs xs \<Longrightarrow> list_all2 (value_at st') vs xs"
  by (auto elim!: list_all2_mono intro: value_at_extends)

section \<open>Storing\<close>

text \<open>A storage that accepts records.\<close>

definition writable :: "storage \<Rightarrow> bool" where
  "writable st \<longleftrightarrow> \<not> readonly st \<and> SUPERBLOCK_SIZE \<le> length (live (disk st))"

lemma writable_appended: "appended st st' bs \<Longrightarrow> writable st \<Longrightarrow> writable st'"
  by (auto simp: writable_def appended_def)

lemma storage_inv_writable: "storage_inv st m \<Longrightarrow> writable st"
  by (auto simp: writable_def storage_inv_def)

text \<open>The reference to the same record with nothing cached: what a reader of the file has.\<close>

definition vref_addr :: "value_ref \<Rightarrow> value_ref" where
  "vref_addr v = ValueRef None (vr_address v)"

text \<open>
  Storing appends records and nothing else. It returns, or raises \<open>struct.error\<close> at a record
  too long for its header; when it returns, what was referred to can be read from the file.
\<close>

definition stores :: "unit result \<Rightarrow> storage \<Rightarrow> storage \<Rightarrow> bool \<Rightarrow> bool" where
  "stores x st st' ok \<longleftrightarrow>
     (\<exists>bs. appended st st' bs \<and> records bs) \<and> (x = Inr () \<or> x = Inl StructError) \<and> (x = Inr () \<longrightarrow> ok)"

lemma storage_write_ok:
  assumes "writable st" "storage_write p st = (x, st')"
  obtains a where "x = Inr a" "SUPERBLOCK_SIZE \<le> a" "storage_read st' a = Inr p" "\<exists>bs. appended st st' bs \<and> records bs"
  | "x = Inl StructError" "st' = st"
  using assms unfolding writable_def
  by (metis Inl_Inr_False Pair_inject record_written records_one storage_write_cases)

lemma storesE:
  assumes "stores x st st' ok"
  obtains bs where "appended st st' bs" "x = Inr ()" ok | bs where "appended st st' bs" "x = Inl StructError"
  using assms by (auto simp: stores_def)

lemma stores_writable: "stores x st st' ok \<Longrightarrow> writable st \<Longrightarrow> writable st' \<and> extends st st'"
  by (auto simp: stores_def writable_def dest: writable_appended appended_extends)

lemma vref_store_ok:
  assumes "vref_store v st = (x, v', st')" "writable st" "value_at st v y"
  shows "stores x st st' (value_at st' (vref_addr v') y)"
proof (cases v)
  case (ValueRef r a)
  show ?thesis
  proof (cases r)
    case None
    then show ?thesis
      using assms ValueRef by (auto simp: stores_def value_at_def vref_addr_def layout_defs intro: exI [of _ "[]"])
  next
    case (Some p)
    then have v: "v = ValueRef (Some p) 0" "y = p" using assms(3) ValueRef by (auto simp: value_at_def)
    obtain x2 st2 where w: "storage_write p st = (x2, st2)" by fastforce
    show ?thesis
      using assms(2) w
    proof (cases rule: storage_write_ok)
      case (1 a)
      then show ?thesis
        using assms(1) w v by (auto simp: stores_def value_at_def vref_addr_def layout_defs)
    next
      case 2
      then show ?thesis
        using assms(1) w v by (auto simp: stores_def intro: exI [of _ "[]"])
    qed
  qed
qed

lemma stores_trans:
  "stores (Inr ()) st st' ok \<Longrightarrow> stores x st' st'' ok' \<Longrightarrow> (ok \<Longrightarrow> ok' \<Longrightarrow> ok'') \<Longrightarrow> stores x st st'' ok''"
  unfolding stores_def using appended_trans records_append by blast

lemma store_values_ok:
  "store_all vref_store vs st = (x, vs', st') \<Longrightarrow> writable st \<Longrightarrow> list_all2 (value_at st) vs ys
    \<Longrightarrow> stores x st st' (list_all2 (value_at st') (map vref_addr vs') ys)"
proof (induction vs arbitrary: ys st x vs' st')
  case Nil
  then show ?case by (auto simp: stores_def intro: exI [of _ "[]"])
next
  case (Cons v vs)
  then obtain y ys' where y: "ys = y # ys'" "value_at st v y" "list_all2 (value_at st) vs ys'"
    by (auto simp: list_all2_Cons1)
  obtain x1 v1 st1 where s1: "vref_store v st = (x1, v1, st1)" by (cases "vref_store v st")
  have one: "stores x1 st st1 (value_at st1 (vref_addr v1) y)"
    by (rule vref_store_ok [OF s1 Cons.prems(2) y(2)])
  have st1: "writable st1" "extends st st1" using stores_writable [OF one Cons.prems(2)] by auto
  show ?case
  proof (cases x1)
    case (Inl e)
    then show ?thesis using Cons.prems(1) s1 one by (auto simp: stores_def)
  next
    case (Inr u)
    obtain x2 vs2 st2 where s2: "store_all vref_store vs st1 = (x2, vs2, st2)" by (cases "store_all vref_store vs st1")
    have rest: "stores x2 st1 st2 (list_all2 (value_at st2) (map vref_addr vs2) ys')"
      by (rule Cons.IH [OF s2 st1(1) values_extends [OF st1(2) y(3)]])
    have "x = x2" "vs' = v1 # vs2" "st' = st2" using Cons.prems(1) s1 s2 Inr by auto
    moreover have "stores x2 st st2 (list_all2 (value_at st2) (map vref_addr (v1 # vs2)) (y # ys'))"
    proof (rule stores_trans [OF _ rest])
      show "stores (Inr ()) st st1 (value_at st1 (vref_addr v1) y)" using one Inr by simp
    qed (use stores_writable [OF rest st1(1)] value_at_extends in auto)
    ultimately show ?thesis using y(1) by simp
  qed
qed

text \<open>A record written after its parts were stored.\<close>

lemma stores_write:
  assumes "stores (Inr ()) st st1 ok" "writable st1" "storage_write p st1 = (x, st2)"
  obtains a where "x = Inr a" "SUPERBLOCK_SIZE \<le> a" "storage_read st2 a = Inr p" "extends st1 st2"
      "\<And>ok'. (ok \<Longrightarrow> ok') \<Longrightarrow> stores (Inr ()) st st2 ok'"
    | "x = Inl StructError" "\<And>ok'. stores (Inl StructError) st st2 ok'"
  using assms(2,3)
proof (cases rule: storage_write_ok)
  case (1 a)
  then obtain bs where bs: "appended st1 st2 bs" "records bs" by blast
  then have "stores (Inr ()) st1 st2 True" by (auto simp: stores_def)
  then have "stores (Inr ()) st st2 ok'" if "ok \<Longrightarrow> ok'" for ok'
    by (rule stores_trans [OF assms(1)]) (use that in auto)
  moreover have "extends st1 st2" using appended_extends [OF bs(1)] assms(2) by (simp add: writable_def)
  ultimately show thesis using that(1) 1(1-3) by blast
next
  case 2
  then show thesis using assms(1) by (intro that(2)) (auto simp: stores_def)
qed

text \<open>A file on its own, for reading.\<close>

definition file_storage :: "bytes \<Rightarrow> storage" where
  "file_storage f = \<lparr>disk = SimDisk f, locked = False, durability = DURABILITY_FULL, readonly = False, smeta = None\<rparr>"

lemma live_file_storage [simp]: "live (disk (file_storage f)) = f"
  by (simp add: file_storage_def SimDisk_def)

lemma refresh_meta_inv: "storage_inv st m \<Longrightarrow> refresh_meta st = (Inr m, st)"
  by (simp add: refresh_meta_def storage_inv_def act_defs bindS_def)

lemma extends_take [simp]: "extends (file_storage (take n (live (disk st)))) st"
  by (auto simp: extends_def) (metis append_take_drop_id drop_take take_drop)

lemma extends_overwrite_meta:
  assumes "storage_inv st m" "live (disk st') = overwrite (slot new * META_SLOT_SIZE) (slot_block new) (live (disk st))"
    and "slot new < 2"
  shows "drop SUPERBLOCK_SIZE (live (disk st')) = drop SUPERBLOCK_SIZE (live (disk st))"
proof -
  have "slot new * META_SLOT_SIZE + META_SLOT_SIZE \<le> SUPERBLOCK_SIZE"
    using assms(3) by (cases "slot new") (auto simp: layout_defs)
  then show ?thesis
    using assms(2) storage_inv_simps(4,5) [OF assms(1)] by (simp add: drop_overwrite)
qed

section \<open>Versions that stay\<close>

text \<open>The bytes that survive have the last commit in full.\<close>

definition recoverable :: "meta \<Rightarrow> storage \<Rightarrow> storage \<Rightarrow> bool" where
  "recoverable m st st' \<longleftrightarrow> data_length m \<le> length (durable (disk st'))
     \<and> take (data_length m) (durable (disk st')) = take (data_length m) (live (disk st))"

lemma storage_inv_recoverable:
  "storage_inv st m \<Longrightarrow> durability st = DURABILITY_FULL \<Longrightarrow> recoverable m st st"
  by (auto simp: storage_inv_def recoverable_def)

text \<open>Nothing was written after the last commit.\<close>

definition full_file :: "storage \<Rightarrow> bool" where
  "full_file st \<longleftrightarrow> (\<exists>m. storage_inv st m \<and> data_length m = length (live (disk st)))"

text \<open>The committed file begins, after the meta blocks, with the records \<open>g\<close>.\<close>

definition keeps :: "storage \<Rightarrow> bytes \<Rightarrow> bool" where
  "keeps st g \<longleftrightarrow> (\<exists>m. storage_inv st m \<and> durability st = DURABILITY_FULL \<and> SUPERBLOCK_SIZE + length g \<le> data_length m
     \<and> take (length g) (drop SUPERBLOCK_SIZE (live (disk st))) = g)"

definition later_file :: "storage \<Rightarrow> storage \<Rightarrow> bool" where
  "later_file st st' \<longleftrightarrow> (\<forall>g. keeps st g \<longrightarrow> keeps st' g)"

lemma later_file_refl [simp]: "later_file st st"
  by (simp add: later_file_def)

lemma later_file_trans: "later_file st st' \<Longrightarrow> later_file st' st'' \<Longrightarrow> later_file st st''"
  by (simp add: later_file_def)

lemma keepsD:
  assumes "keeps st g" "storage_inv st m"
  shows "durability st = DURABILITY_FULL" "SUPERBLOCK_SIZE + length g \<le> data_length m"
    "take (length g) (drop SUPERBLOCK_SIZE (live (disk st))) = g"
  using assms by (auto simp: keeps_def storage_inv_def)

lemma later_fileI:
  assumes "storage_inv st m" "storage_inv st' m'" "durability st' = DURABILITY_FULL" "data_length m \<le> data_length m'"
    and "take (data_length m - SUPERBLOCK_SIZE) (drop SUPERBLOCK_SIZE (live (disk st')))
      = take (data_length m - SUPERBLOCK_SIZE) (drop SUPERBLOCK_SIZE (live (disk st)))"
  shows "later_file st st'"
  unfolding later_file_def
proof (intro allI impI)
  fix g
  assume g: "keeps st g"
  note k = keepsD [OF g assms(1)]
  have n: "length g \<le> data_length m - SUPERBLOCK_SIZE" using k(2) by simp
  have "take (length g) (drop SUPERBLOCK_SIZE (live (disk st'))) = g"
    using arg_cong [OF assms(5), of "take (length g)"] k(3) n by (simp add: min_def)
  then show "keeps st' g" using assms(2-4) k(2) unfolding keeps_def by (intro exI [of _ m']) simp
qed

lemma later_file_reopen:
  assumes "storage_inv st m" "recoverable m st st'" "live (disk st'') = take (data_length m) (durable (disk st'))"
    and "storage_inv st'' m" "durability st'' = DURABILITY_FULL"
  shows "later_file st st''"
  by (rule later_fileI [OF assms(1,4,5) order_refl])
    (use assms(2,3) in \<open>simp add: recoverable_def drop_take\<close>)

lemma later_file_hold [simp]: "later_file st (st\<lparr>locked := l\<rparr>)"
  by (simp add: later_file_def keeps_def storage_inv_def read_best_meta_file)

section \<open>Trees with versions\<close>

text \<open>The committed version: what the root of the meta block represents in the file up to its data length.\<close>

definition committed ::
  "(storage \<Rightarrow> 'r \<Rightarrow> 'k content \<Rightarrow> bool) \<Rightarrow> (nat \<Rightarrow> 'r) \<Rightarrow> meta \<Rightarrow> bytes \<Rightarrow> 'k content \<Rightarrow> bool" where
  "committed rep root m f xs \<longleftrightarrow> rep (file_storage (take (data_length m) f)) (root (root_address m)) xs"

lemma committed_cong:
  "committed rep root m f xs \<Longrightarrow> take (data_length m) f = take (data_length m) g \<Longrightarrow> committed rep root m g xs"
  by (simp add: committed_def)

lemma reopen_storage:
  assumes "storage_inv st m" "data_length m \<le> length f" "take (data_length m) f = take (data_length m) (live (disk st))"
  obtains st' where "Storage (SimDisk f) DURABILITY_FULL False = (Inr (), st')" "live (disk st') = take (data_length m) f"
    "storage_inv st' m" "\<not> locked st'" "durability st' = DURABILITY_FULL" "crash_at_flush (disk st') = None" "\<not> closed (disk st')"
proof -
  note inv = storage_inv_simps [OF assms(1)]
  have "take SUPERBLOCK_SIZE f = take SUPERBLOCK_SIZE (live (disk st))"
    using arg_cong [OF assms(3), of "take SUPERBLOCK_SIZE"] inv(4) by (simp add: min_def)
  then have "file_meta f = Inr m"
    using inv(3) file_meta_prefix by (metis read_best_meta_file)
  from Storage_recovers [OF this inv(4) assms(2)] show thesis using that by metis
qed

locale versioned_tree =
  fixes rep :: "storage \<Rightarrow> 'r \<Rightarrow> 'k::linorder content \<Rightarrow> bool"
    and store :: "'r \<Rightarrow> storage \<Rightarrow> unit result \<times> 'r \<times> storage"
    and address :: "'r \<Rightarrow> nat"
    and root :: "nat \<Rightarrow> 'r"
    and ready :: bool
  assumes later: "extends st st' \<Longrightarrow> rep st r xs \<Longrightarrow> rep st' r xs"
    and stored: "ready \<Longrightarrow> rep st r xs \<Longrightarrow> writable st \<Longrightarrow> store r st = (x, r', st')
      \<Longrightarrow> stores x st st' (rep st' (root (address r')) xs)"
    and empty_root: "rep st (root 0) []"
begin

lemma committed_rep:
  assumes "committed rep root m f xs" "extends (file_storage (take (data_length m) f)) st"
  shows "rep st (root (root_address m)) xs"
  using assms later unfolding committed_def by blast

lemma committed_live: "committed rep root m (live (disk st)) xs \<Longrightarrow> rep st (root (root_address m)) xs"
  by (rule committed_rep [OF _ extends_take])

lemma committed_empty: "committed rep root (empty_meta i) f []"
  by (simp add: committed_def empty_meta_def empty_root)

lemma commit_ok:
  assumes inv: "storage_inv st m" and r: "rep st r ys"
    and c: "commit_root_address a n st = (Inr (), st')" "storage_inv st' new"
      "live (disk st') = overwrite (slot new * META_SLOT_SIZE) (slot_block new) (live (disk st))"
    and new: "new = next_meta a n m (length (live (disk st)))" "r = root a"
  shows "committed rep root new (live (disk st')) ys"
proof -
  have drop: "drop SUPERBLOCK_SIZE (live (disk st')) = drop SUPERBLOCK_SIZE (live (disk st))"
    using storage_inv_simps(6) [OF c(2)] by (intro extends_overwrite_meta [OF inv c(3)])
  have "length (live (disk st')) = length (live (disk st))"
    using arg_cong [OF drop, of length] storage_inv_simps(4,5) [OF c(2)] storage_inv_simps(4,5) [OF inv] by simp
  then have "take (data_length new) (live (disk st')) = live (disk st')" by (simp add: new next_meta_def)
  moreover have "extends st (file_storage (live (disk st')))" using drop by (simp add: extends_def)
  ultimately show ?thesis
    using later [OF _ r] by (simp add: committed_def new next_meta_def)
qed

text \<open>Storing a tree and publishing its root.\<close>

lemma store_and_commit:
  assumes ready: ready and inv: "storage_inv st m" "durability st = DURABILITY_FULL"
    and tree: "rep st r ys" and st1: "store r st = (x, r', st1)"
  obtains (ok) st2 new where "x = Inr ()" "commit_root_address (address r') n st1 = (Inr (), st2)"
      "storage_inv st2 new" "durability st2 = DURABILITY_FULL" "\<not> locked st2"
      "committed rep root new (live (disk st2)) ys" "root_address new = address r'" "key_count new = n"
      "crash_at_flush (disk st2) = crash_at_flush (disk st)" "extends st st2" "closed (disk st2) = closed (disk st)" "later_file st st2"
      "records (drop SUPERBLOCK_SIZE (live (disk st))) \<Longrightarrow> records (drop SUPERBLOCK_SIZE (live (disk st2)))" "full_file st2"
      "flushed_twice (disk st) (disk st2)"
  | (store_fails) "x = Inl StructError" "recoverable m st st1"
  | (commit_fails) e st2 where "x = Inr ()" "commit_root_address (address r') n st1 = (Inl e, st2)"
      "e = StructError \<or> e = SimCrash" "recoverable m st st2"
      "e = SimCrash \<longrightarrow> crash_at_flush (disk st) \<noteq> None" "e = SimCrash \<longrightarrow> crashes_soon (disk st)"
proof -
  have stores: "stores x st st1 (rep st1 (root (address r')) ys)"
    by (rule stored [OF ready tree storage_inv_writable [OF inv(1)] st1])
  then obtain bs where app: "appended st st1 bs" and bs: "records bs" by (auto simp: stores_def)
  have inv1: "storage_inv st1 m" "durability st1 = DURABILITY_FULL"
    using appended_inv [OF inv(1) app] app inv(2) by (auto simp: appended_def)
  have live1: "take (data_length m) (live (disk st1)) = take (data_length m) (live (disk st))"
    using app storage_inv_simps(5) [OF inv(1)] by (simp add: appended_def)
  show thesis
  proof (cases "x = Inr ()")
    case False
    then have "x = Inl StructError" using stores by (simp add: stores_def)
    moreover have "recoverable m st st1"
      using storage_inv_recoverable [OF inv] app by (simp add: recoverable_def appended_def)
    ultimately show thesis by (rule store_fails)
  next
    case True
    let ?new = "next_meta (address r') n m (length (live (disk st1)))"
    have tree1: "rep st1 (root (address r')) ys" using stores True by (simp add: stores_def)
    show thesis
    proof (rule commit_root_address_cases [OF inv1, of "address r'" n])
      fix st2
      assume c: "commit_root_address (address r') n st1 = (Inr (), st2)" "storage_inv st2 ?new" "\<not> locked st2"
        "live (disk st2) = overwrite (slot ?new * META_SLOT_SIZE) (slot_block ?new) (live (disk st1))"
        "durability st2 = DURABILITY_FULL" "crash_at_flush (disk st2) = crash_at_flush (disk st1)"
        "closed (disk st2) = closed (disk st1)" "flushed_twice (disk st1) (disk st2)"
      have twice: "flushed_twice (disk st) (disk st2)"
        using flush_count_same(2) [of "disk st1" "disk st"] c(8) app by (simp add: appended_def)
      have drop: "drop SUPERBLOCK_SIZE (live (disk st2)) = drop SUPERBLOCK_SIZE (live (disk st1))"
        by (rule extends_overwrite_meta [OF inv1(1) c(4)]) (rule storage_inv_simps(6) [OF c(2)])
      then have ext: "extends st st2"
        using appended_extends [OF app] storage_inv_writable [OF inv(1)] by (simp add: extends_def writable_def)
      have tidy: "records (drop SUPERBLOCK_SIZE (live (disk st2)))" if "records (drop SUPERBLOCK_SIZE (live (disk st)))"
        using that bs app drop storage_inv_simps(4,5) [OF inv(1)] by (auto simp: appended_def)
      have "length (live (disk st2)) = length (live (disk st1))"
        using arg_cong [OF drop, of length] storage_inv_simps(4,5) [OF c(2)] storage_inv_simps(4,5) [OF inv1(1)] by simp
      then have full: "full_file st2" using c(2) unfolding full_file_def by (intro exI [of _ ?new]) (simp add: next_meta_def)
      have "later_file st st2"
      proof (rule later_fileI [OF inv(1) c(2,5)])
        show "data_length m \<le> data_length ?new"
          using app storage_inv_simps(5) [OF inv(1)] by (simp add: next_meta_def appended_def)
        show "take (data_length m - SUPERBLOCK_SIZE) (drop SUPERBLOCK_SIZE (live (disk st2)))
            = take (data_length m - SUPERBLOCK_SIZE) (drop SUPERBLOCK_SIZE (live (disk st)))"
          using ext storage_inv_simps(4,5) [OF inv(1)] by (auto simp: extends_def)
      qed
      note later = this
      have "committed rep root ?new (live (disk st2)) ys"
        by (rule commit_ok [OF inv1(1) tree1 c(1,2,4) refl refl])
      then show thesis
        by (rule ok [OF True c(1,2,5,3)]) (use app ext later tidy full twice c(6,7) in \<open>simp_all add: next_meta_def appended_def\<close>)
    next
      fix st2
      assume c: "commit_root_address (address r') n st1 = (Inl SimCrash, st2)"
        "data_length m \<le> length (durable (disk st2))"
        "take (data_length m) (durable (disk st2)) = take (data_length m) (live (disk st1))"
        "crash_at_flush (disk st1) \<noteq> None" "crashes_soon (disk st1)"
      have "crashes_soon (disk st)"
        using flush_count_same(1) [of "disk st1" "disk st"] c(5) app by (simp add: appended_def)
      then show thesis
        by (intro commit_fails [OF True c(1)]) (use c app live1 in \<open>simp_all add: recoverable_def appended_def\<close>)
    next
      fix st2
      assume c: "commit_root_address (address r') n st1 = (Inl StructError, st2)"
        "data_length m \<le> length (durable (disk st2))"
        "take (data_length m) (durable (disk st2)) = take (data_length m) (live (disk st1))"
      show thesis
        by (rule commit_fails [OF True c(1)]) (use c live1 in \<open>simp_all add: recoverable_def\<close>)
    qed
  qed
qed

text \<open>Opening the bytes that survived.\<close>

lemma reopen:
  assumes "storage_inv st m" "committed rep root m (live (disk st)) xs"
    and "data_length m \<le> length f" "take (data_length m) f = take (data_length m) (live (disk st))"
  obtains st' where "Storage (SimDisk f) DURABILITY_FULL False = (Inr (), st')" "live (disk st') = take (data_length m) f"
    "storage_inv st' m" "\<not> locked st'" "durability st' = DURABILITY_FULL" "crash_at_flush (disk st') = None" "\<not> closed (disk st')"
    "committed rep root m (live (disk st')) xs"
proof -
  obtain st' where st': "Storage (SimDisk f) DURABILITY_FULL False = (Inr (), st')" "live (disk st') = take (data_length m) f"
    "storage_inv st' m" "\<not> locked st'" "durability st' = DURABILITY_FULL" "crash_at_flush (disk st') = None" "\<not> closed (disk st')"
    by (rule reopen_storage [OF assms(1,3,4)])
  have "committed rep root m (live (disk st')) xs"
    by (rule committed_cong [OF assms(2)]) (simp add: st'(2) assms(4))
  then show thesis by (rule that [OF st'])
qed

end

end
