(* ===== verification/BPlusRep.thy ===== *)
theory BPlusRep
  imports BPlusTree StoredTree
begin

text \<open>
  What a B+ tree in a file represents, and that the reads of \<open>bplus_tree.py\<close> return it.

  \<open>bt P st ord m h lo hi n xs\<close> says that the node \<open>n\<close>, with its references followed in
  the storage \<open>st\<close>, is a well-formed subtree of height \<open>h\<close> with keys in \<open>[lo, hi)\<close>, at least
  \<open>m\<close> and at most \<open>ord\<close> keys in \<open>n\<close>, at least \<open>ord div 2\<close> in every node below, all leaves at
  the same depth, and that its content is the sorted list \<open>xs\<close> of keys and values.
  \<open>chain\<close> says the same of a list of children with the upper bounds of each. The lemmas
  \<open>chain_append\<close>, \<open>chain_focus\<close> and \<open>chain_plug\<close> take the children of a node apart where a
  search goes down and put them together again around a changed child.
\<close>

section \<open>What a tree in the file represents\<close>

fun lt_bound :: "'k::linorder option \<Rightarrow> 'k option \<Rightarrow> bool" where
  "lt_bound (Some l) (Some h) \<longleftrightarrow> l < h"
| "lt_bound _ _ \<longleftrightarrow> True"

fun clean_bref :: "'k bref \<Rightarrow> bool" where
  "clean_bref (BPlusNodeRef r a) \<longleftrightarrow> (r = None \<and> SUPERBLOCK_SIZE \<le> a) \<or> (r \<noteq> None \<and> a = 0)"

definition node_at :: "'k pickle \<Rightarrow> storage \<Rightarrow> 'k bref \<Rightarrow> 'k bnode \<Rightarrow> bool" where
  "node_at P st c n \<longleftrightarrow> clean_bref c \<and> bref_get P st c = Inr (Some n)"

inductive bt ::
  "'k::linorder pickle \<Rightarrow> storage \<Rightarrow> nat \<Rightarrow> nat \<Rightarrow> nat \<Rightarrow> 'k option \<Rightarrow> 'k option \<Rightarrow> 'k bnode
     \<Rightarrow> ('k \<times> bytes) list \<Rightarrow> bool"
  and chain ::
  "'k::linorder pickle \<Rightarrow> storage \<Rightarrow> nat \<Rightarrow> nat \<Rightarrow> 'k option \<Rightarrow> 'k option list \<Rightarrow> 'k bref list
     \<Rightarrow> ('k \<times> bytes) list \<Rightarrow> bool"
  for P :: "'k pickle" and st :: storage and ord :: nat where
  bt_leaf: "sorted_wrt (<) ks \<Longrightarrow> \<forall>k\<in>set ks. in_bounds lo hi k \<Longrightarrow> m \<le> length ks \<Longrightarrow> length ks \<le> ord
    \<Longrightarrow> length ks = length xs \<Longrightarrow> list_all2 (value_at st) vs xs
    \<Longrightarrow> bt P st ord m 1 lo hi (LeafNode ks vs) (zip ks xs)"
| bt_node: "chain P st ord h lo (map Some ks @ [hi]) cs xs \<Longrightarrow> m \<le> length ks \<Longrightarrow> length ks \<le> ord
    \<Longrightarrow> bt P st ord m (Suc h) lo hi (InternalNode ks cs) xs"
| chain_nil: "chain P st ord h lo [] [] []"
| chain_cons: "lt_bound lo b \<Longrightarrow> b = None \<longrightarrow> bs = [] \<Longrightarrow> node_at P st c n
    \<Longrightarrow> bt P st ord (ord div 2) h lo b n xs \<Longrightarrow> chain P st ord h b bs cs ys
    \<Longrightarrow> chain P st ord h lo (b # bs) (c # cs) (xs @ ys)"

inductive_cases bt_leafE: "bt P st ord m h lo hi (LeafNode ks vs) xs"
inductive_cases bt_nodeE: "bt P st ord m h lo hi (InternalNode ks cs) xs"
inductive_cases chain_NilE: "chain P st ord h lo [] cs xs"
inductive_cases chain_ConsE: "chain P st ord h lo (b # bs) cs xs"

lemma chain_Nil_iff [simp]: "chain P st ord h lo [] cs xs \<longleftrightarrow> cs = [] \<and> xs = []"
  by (auto intro: chain_nil elim: chain_NilE)

lemma chain_Cons_iff:
  "chain P st ord h lo (b # bs) cs xs \<longleftrightarrow>
     (\<exists>c cs' n ys zs. cs = c # cs' \<and> xs = ys @ zs \<and> lt_bound lo b \<and> (b = None \<longrightarrow> bs = [])
        \<and> node_at P st c n \<and> bt P st ord (ord div 2) h lo b n ys \<and> chain P st ord h b bs cs' zs)"
proof
  assume "chain P st ord h lo (b # bs) cs xs"
  then show "\<exists>c cs' n ys zs. cs = c # cs' \<and> xs = ys @ zs \<and> lt_bound lo b \<and> (b = None \<longrightarrow> bs = [])
        \<and> node_at P st c n \<and> bt P st ord (ord div 2) h lo b n ys \<and> chain P st ord h b bs cs' zs"
    by (elim chain_ConsE) (intro exI conjI; assumption)
qed (elim exE conjE, simp add: chain_cons)

lemma chain_length: "chain P st ord h lo bs cs xs \<Longrightarrow> length bs = length cs"
  by (induction bs arbitrary: lo cs xs) (auto simp: chain_Cons_iff)

lemma chain_append:
  "length bs1 = length cs1 \<Longrightarrow>
   chain P st ord h lo (bs1 @ bs2) (cs1 @ cs2) xs \<longleftrightarrow>
     (\<exists>ys zs. xs = ys @ zs \<and> chain P st ord h lo bs1 cs1 ys
        \<and> chain P st ord h (last (lo # bs1)) bs2 cs2 zs
        \<and> (bs2 \<noteq> [] \<longrightarrow> None \<notin> set bs1))"
proof (induction bs1 cs1 arbitrary: lo xs rule: list_induct2)
  case Nil
  then show ?case by auto
next
  case (Cons b bs1 c cs1)
  let ?L = "last (lo # b # bs1)"
  show ?case (is "?l \<longleftrightarrow> ?r")
  proof
    assume ?l
    then obtain n y0 z0 where 1: "xs = y0 @ z0" "lt_bound lo b" "b = None \<longrightarrow> bs1 @ bs2 = []"
      "node_at P st c n" "bt P st ord (ord div 2) h lo b n y0" "chain P st ord h b (bs1 @ bs2) (cs1 @ cs2) z0"
      by (auto simp: chain_Cons_iff)
    then obtain ys zs where 2: "z0 = ys @ zs" "chain P st ord h b bs1 cs1 ys"
      "chain P st ord h (last (b # bs1)) bs2 cs2 zs" "bs2 \<noteq> [] \<longrightarrow> None \<notin> set bs1"
      using Cons.IH by blast
    have "chain P st ord h lo (b # bs1) (c # cs1) (y0 @ ys)"
      using 1 2 by (intro chain_cons) auto
    then show ?r using 1 2 by (intro exI [of _ "y0 @ ys"] exI [of _ zs]) auto
  next
    assume ?r
    then obtain ys zs where 1: "xs = ys @ zs" "chain P st ord h lo (b # bs1) (c # cs1) ys"
      "chain P st ord h ?L bs2 cs2 zs" "bs2 \<noteq> [] \<longrightarrow> None \<notin> set (b # bs1)"
      by blast
    then obtain n y0 z0 where 2: "ys = y0 @ z0" "lt_bound lo b" "b = None \<longrightarrow> bs1 = []"
      "node_at P st c n" "bt P st ord (ord div 2) h lo b n y0" "chain P st ord h b bs1 cs1 z0"
      by (auto simp: chain_Cons_iff)
    have "chain P st ord h b (bs1 @ bs2) (cs1 @ cs2) (z0 @ zs)"
      unfolding Cons.IH using 1 2 by (intro exI [of _ z0] exI [of _ zs]) auto
    then have "chain P st ord h lo (b # (bs1 @ bs2)) (c # (cs1 @ cs2)) (y0 @ (z0 @ zs))"
      using 1 2 by (intro chain_cons) auto
    then show ?l using 1 2 by simp
  qed
qed

lemma in_bounds_widen:
  "in_bounds lo b k \<Longrightarrow> lt_bound b hi \<Longrightarrow> b \<noteq> None \<Longrightarrow> in_bounds lo hi k"
  by (cases b; cases hi) (auto simp: in_bounds.simps)

lemma in_bounds_widen_low:
  "in_bounds b hi k \<Longrightarrow> lt_bound lo b \<Longrightarrow> b \<noteq> None \<Longrightarrow> in_bounds lo hi k"
  by (cases b; cases lo) (auto simp: in_bounds.simps)

lemma lt_bound_trans: "lt_bound a b \<Longrightarrow> lt_bound b c \<Longrightarrow> b \<noteq> None \<Longrightarrow> lt_bound a c"
  by (cases a; cases b; cases c) auto

lemma chain_lt_bound: "chain P st ord h lo bs cs xs \<Longrightarrow> bs \<noteq> [] \<Longrightarrow> lt_bound lo (last bs)"
proof (induction bs arbitrary: lo cs xs)
  case (Cons b bs)
  then obtain cs' zs where b: "lt_bound lo b" "b = None \<longrightarrow> bs = []" "chain P st ord h b bs cs' zs"
    by (auto simp: chain_Cons_iff)
  show ?case
  proof (cases "bs = []")
    case False
    then show ?thesis using b Cons.IH [OF b(3)] lt_bound_trans [of lo b "last bs"] by auto
  qed (use b in simp)
qed simp

text \<open>The keys of the content lie within the bounds and are strictly increasing.\<close>

lemma bt_content:
  shows "bt P st ord m h lo hi n xs \<Longrightarrow>
      (\<forall>k\<in>fst ` set xs. in_bounds lo hi k) \<and> kv_sorted xs"
    and "chain P st ord h lo bs cs xs \<Longrightarrow>
      (bs \<noteq> [] \<longrightarrow> (\<forall>k\<in>fst ` set xs. in_bounds lo (last bs) k)) \<and> kv_sorted xs"
proof (induction rule: bt_chain.inducts)
  case (bt_leaf ks lo hi m xs vs)
  have "map fst (zip ks xs) = ks"
    using bt_leaf.hyps by simp
  moreover then have "fst ` set (zip ks xs) = set ks"
    by (metis set_map)
  ultimately show ?case
    using bt_leaf.hyps by simp
next
  case (bt_node h lo ks hi cs xs m)
  then show ?case by simp
next
  case (chain_nil h lo)
  then show ?case by simp
next
  case (chain_cons lo b bs c n h xs cs ys)
  have ch: "chain P st ord h b bs cs ys" and lo: "lt_bound lo b" and nb: "b = None \<longrightarrow> bs = []"
    and ih1: "(\<forall>k\<in>fst ` set xs. in_bounds lo b k) \<and> kv_sorted xs"
    and ih2: "(bs \<noteq> [] \<longrightarrow> (\<forall>k\<in>fst ` set ys. in_bounds b (last bs) k)) \<and> kv_sorted ys"
    by fact+
  show ?case
  proof (cases "bs = []")
    case True
    then have "ys = []" using ch by simp
    then show ?thesis using True ih1 by simp
  next
    case False
    then obtain k where b: "b = Some k" using nb by auto
    have "lt_bound b (last bs)"
      using chain_lt_bound ch False by blast
    then have xs: "\<forall>x\<in>fst ` set xs. in_bounds lo (last bs) x"
      using ih1 b in_bounds_widen by blast
    have ys: "\<forall>y\<in>fst ` set ys. in_bounds b (last bs) y"
      using ih2 False by blast
    then have ys': "\<forall>y\<in>fst ` set ys. in_bounds lo (last bs) y"
      using lo b in_bounds_widen_low by blast
    have "x < y" if "x \<in> fst ` set xs" "y \<in> fst ` set ys" for x y
    proof -
      have "in_bounds lo (Some k) x" "in_bounds (Some k) (last bs) y"
        using that ih1 ys b by blast+
      then show ?thesis by (auto simp: in_bounds.simps)
    qed
    then show ?thesis
      using xs ys' ih1 ih2 False by (simp add: sorted_wrt_append ball_Un image_Un)
  qed
qed

lemmas bt_bounds = bt_content(1) [THEN conjunct1]
lemmas bt_sorted = bt_content(1) [THEN conjunct2]
lemmas chain_sorted = bt_content(2) [THEN conjunct2]
lemmas chain_bounds = bt_content(2) [THEN conjunct1, THEN mp]

lemma chain_keys:
  "chain P st ord h lo (map Some ks @ [hi]) cs xs \<Longrightarrow>
     sorted_wrt (<) ks \<and> (\<forall>k\<in>set ks. lt_bound lo (Some k) \<and> lt_bound (Some k) hi)"
proof (induction ks arbitrary: lo cs xs)
  case (Cons k ks)
  then obtain cs' zs where k: "lt_bound lo (Some k)" "chain P st ord h (Some k) (map Some ks @ [hi]) cs' zs"
    by (auto simp: chain_Cons_iff)
  have "lt_bound (Some k) hi" using chain_lt_bound [OF k(2)] by simp
  then show ?case using Cons.IH [OF k(2)] k lt_bound_trans [of lo "Some k"] by auto
qed simp

lemma bt_height_pos: "bt P st ord m h lo hi n xs \<Longrightarrow> 0 < h"
  by (cases rule: bt.cases) auto

lemma bt_min: "bt P st ord m h lo hi n xs \<Longrightarrow> m \<le> num_keys n \<and> num_keys n \<le> ord"
  by (erule bt.cases) (auto simp: num_keys_def)

lemma bt_weaken: "bt P st ord m h lo hi n xs \<Longrightarrow> m' \<le> num_keys n \<Longrightarrow> bt P st ord m' h lo hi n xs"
  by (erule bt.cases) (auto simp: num_keys_def intro: bt_leaf [unfolded One_nat_def] bt_node)

section \<open>Searching\<close>

lemma last_bound_le: "\<forall>y\<in>set ks1. y \<le> key \<Longrightarrow> in_bounds lo hi key
    \<Longrightarrow> in_bounds (last (lo # map Some ks1)) hi key"
  by (cases ks1 rule: rev_cases) (auto simp: in_bounds.simps)

lemma chain_appendI:
  assumes "chain P st ord h lo bs1 cs1 ys" "chain P st ord h (last (lo # bs1)) bs2 cs2 zs"
    and "bs2 \<noteq> [] \<Longrightarrow> None \<notin> set bs1"
  shows "chain P st ord h lo (bs1 @ bs2) (cs1 @ cs2) (ys @ zs)"
  using assms chain_append [OF chain_length [OF assms(1)]] by blast

lemma chain_plug:
  assumes "chain P st ord h lo (map Some ks1) cs1 xs1"
    and "chain P st ord h (last (lo # map Some ks1)) (map Some km @ [b]) cm ym"
    and "chain P st ord h b bs2 cs2 xs2" "b = None \<longrightarrow> bs2 = []"
  shows "chain P st ord h lo (map Some (ks1 @ km) @ b # bs2) (cs1 @ cm @ cs2) (xs1 @ ym @ xs2)"
proof -
  have 1: "chain P st ord h (last (lo # map Some ks1)) ((map Some km @ [b]) @ bs2) (cm @ cs2) (ym @ xs2)"
    using assms by (intro chain_appendI) auto
  have "chain P st ord h lo (map Some ks1 @ ((map Some km @ [b]) @ bs2)) (cs1 @ (cm @ cs2)) (xs1 @ (ym @ xs2))"
    by (rule chain_appendI [OF assms(1) 1]) auto
  then show ?thesis by simp
qed

lemma chain_focus:
  assumes ch: "chain P st ord h lo (map Some ks @ [hi]) cs xs" and key: "in_bounds lo hi key"
  obtains ks1 ks2 cs1 c cs2 n xs1 ys xs2 a b bs2 where
    "ks = ks1 @ ks2" "length ks1 = bisect_right ks key" "cs = cs1 @ c # cs2" "length cs1 = length ks1"
    "xs = xs1 @ ys @ xs2" "a = last (lo # map Some ks1)" "map Some ks2 @ [hi] = b # bs2"
    "chain P st ord h lo (map Some ks1) cs1 xs1" "node_at P st c n"
    "bt P st ord (ord div 2) h a b n ys" "lt_bound a b" "in_bounds a b key"
    "chain P st ord h b bs2 cs2 xs2" "b = None \<longrightarrow> bs2 = []"
    "\<forall>k\<in>fst ` set xs1. k < key" "\<forall>k\<in>fst ` set xs2. key < k"
proof -
  have "sorted_wrt (<) ks" using chain_keys [OF ch] by blast
  then obtain ks1 ks2 where ks: "ks = ks1 @ ks2" "length ks1 = bisect_right ks key"
    "\<forall>y\<in>set ks1. y \<le> key" "\<forall>y\<in>set ks2. key < y"
    by (rule bisect_right_split)
  let ?a = "last (lo # map Some ks1)"
  obtain b bs2 where b: "map Some ks2 @ [hi] = b # bs2"
    by (cases "map Some ks2 @ [hi]") auto
  have len: "length cs = Suc (length ks)" using chain_length [OF ch] by simp
  define cs1 where "cs1 = take (length ks1) cs"
  have cs: "cs = cs1 @ drop (length ks1) cs" "length cs1 = length ks1"
    using len ks by (simp_all add: cs1_def)
  have "chain P st ord h lo (map Some ks1 @ (b # bs2)) (cs1 @ drop (length ks1) cs) xs"
    using ch ks(1) b cs(1) by simp
  then obtain xs1 zs where 1: "xs = xs1 @ zs" "chain P st ord h lo (map Some ks1) cs1 xs1"
    "chain P st ord h ?a (b # bs2) (drop (length ks1) cs) zs"
    using cs(2) by (subst (asm) chain_append) auto
  from 1(3) obtain c cs2 n ys xs2 where 2: "drop (length ks1) cs = c # cs2" "zs = ys @ xs2"
    "lt_bound ?a b" "b = None \<longrightarrow> bs2 = []" "node_at P st c n" "bt P st ord (ord div 2) h ?a b n ys"
    "chain P st ord h b bs2 cs2 xs2"
    unfolding chain_Cons_iff by blast
  have inb: "in_bounds ?a b key"
    using last_bound_le [OF ks(3) key] b ks(4) by (cases ks2) (auto simp: in_bounds.simps)
  have lt1: "\<forall>k\<in>fst ` set xs1. k < key"
  proof (cases ks1 rule: rev_cases)
    case Nil
    then show ?thesis using 1(2) by simp
  next
    case (snoc ks' k')
    then have "\<forall>k\<in>fst ` set xs1. in_bounds lo (Some k') k"
      using chain_bounds [OF 1(2)] by simp
    then show ?thesis using ks(3) snoc by (fastforce simp: in_bounds.simps)
  qed
  have gt2: "\<forall>k\<in>fst ` set xs2. key < k"
  proof (cases "bs2 = []")
    case True
    then show ?thesis using 2(7) by simp
  next
    case False
    then obtain k' where k': "b = Some k'" "k' \<in> set ks2"
      using b by (cases ks2) auto
    then have "\<forall>k\<in>fst ` set xs2. in_bounds (Some k') (last bs2) k"
      using chain_bounds [OF 2(7)] False by simp
    then show ?thesis using ks(4) k' by (fastforce simp: in_bounds.simps)
  qed
  show thesis
    by (rule that [OF ks(1,2) _ cs(2) _ refl b 1(2) 2(5,6,3) inb 2(7,4) lt1 gt2])
       (use cs 2 1 in simp_all)
qed

lemma map_of_zip_sorted:
  "sorted_wrt (<) (ks :: 'k::linorder list) \<Longrightarrow> length ks = length xs \<Longrightarrow> i < length ks \<Longrightarrow>
     map_of (zip ks xs) (ks ! i) = Some (xs ! i)"
  using map_of_zip_nth [of ks xs i] strict_sorted_iff [of ks] by simp

lemma bisect_left_hit:
  assumes "sorted_wrt (<) ks"
  shows "bisect_left ks key < length ks \<and> ks ! bisect_left ks key = key \<longleftrightarrow> key \<in> set ks"
proof -
  obtain xs ys where ks: "ks = xs @ ys" "length xs = bisect_left ks key"
    "\<forall>y\<in>set xs. y < key" "\<forall>y\<in>set ys. key \<le> y"
    by (rule bisect_left_split [OF assms])
  show ?thesis
  proof (cases ys)
    case Nil
    then show ?thesis using ks by auto
  next
    case (Cons y ys')
    have "key \<notin> set ys'" if "key \<noteq> y"
      using assms ks(1,4) Cons that by (auto simp: sorted_wrt_append)
    then show ?thesis using ks Cons by (auto simp: nth_append)
  qed
qed

lemma bp_get_bt:
  "bt P st ord m h lo hi n xs \<Longrightarrow> h \<le> lim \<Longrightarrow> in_bounds lo hi key \<Longrightarrow>
     bp_get P st lim (Some n) key = lookup_result (map_of xs) key"
proof (induction lim arbitrary: m h lo hi n xs)
  case 0
  then show ?case using bt_height_pos by fastforce
next
  case (Suc lim)
  show ?case
  proof (cases n)
    case (LeafNode ks vs)
    then obtain zs where z: "xs = zip ks zs" "sorted_wrt (<) ks" "length ks = length zs"
      "list_all2 (value_at st) vs zs"
      using Suc.prems(1) by (auto elim: bt_leafE)
    show ?thesis
    proof (cases "key \<in> set ks")
      case True
      then have i: "bisect_left ks key < length ks" "ks ! bisect_left ks key = key"
        using bisect_left_hit [OF z(2), of key] by auto
      then have "map_of xs key = Some (zs ! bisect_left ks key)"
        using map_of_zip_sorted [OF z(2,3) i(1)] z(1) by simp
      moreover have "bisect_left ks key < length vs"
        "vref_get st (vs ! bisect_left ks key) = Inr (Some (zs ! bisect_left ks key))"
        using list_all2_value_at_nth [OF z(4), of "bisect_left ks key"] i(1) z(3) by auto
      ultimately show ?thesis
        using i by (simp add: LeafNode lookup_result_def py_nth_def)
    next
      case False
      then have "map_of xs key = None"
        using z by (simp add: map_of_zip_is_None)
      then show ?thesis
        using False bisect_left_hit [OF z(2), of key] by (auto simp: LeafNode lookup_result_def Let_def)
    qed
  next
    case (InternalNode ks cs)
    then obtain h' where h': "h = Suc h'" "chain P st ord h' lo (map Some ks @ [hi]) cs xs"
      using Suc.prems(1) by (auto elim: bt_nodeE)
    obtain ks1 ks2 cs1 c cs2 n' xs1 ys xs2 a b bs2 where f:
      "ks = ks1 @ ks2" "length ks1 = bisect_right ks key" "cs = cs1 @ c # cs2" "length cs1 = length ks1"
      "xs = xs1 @ ys @ xs2" "a = last (lo # map Some ks1)" "map Some ks2 @ [hi] = b # bs2"
      "chain P st ord h' lo (map Some ks1) cs1 xs1" "node_at P st c n'"
      "bt P st ord (ord div 2) h' a b n' ys" "lt_bound a b" "in_bounds a b key"
      "chain P st ord h' b bs2 cs2 xs2" "b = None \<longrightarrow> bs2 = []"
      "\<forall>k\<in>fst ` set xs1. k < key" "\<forall>k\<in>fst ` set xs2. key < k"
      by (rule chain_focus [OF h'(2) Suc.prems(3)])
    have "bp_get P st lim (Some n') key = lookup_result (map_of ys) key"
      using Suc.IH [OF f(10) _ f(12)] Suc.prems(2) h'(1) by simp
    moreover have "key \<notin> fst ` set xs1" "key \<notin> fst ` set xs2"
      using f(15,16) by auto
    then have "map_of xs key = map_of ys key"
      unfolding f(5) by (simp only: map_of_append_right map_of_append_left simp_thms)
    ultimately show ?thesis
      using f(2,4,9) by (simp add: f(3) InternalNode lookup_result_def node_at_def)
  qed
qed

section \<open>Traversals\<close>

lemma leaf_items_values:
  "list_all2 (value_at st) vs xs \<Longrightarrow> length ks = length xs \<Longrightarrow>
     leaf_items st (zip ks vs) = Inr (somes (zip ks xs))"
proof (induction ks arbitrary: vs xs)
  case (Cons k ks)
  then show ?case
    by (cases vs; cases xs) (auto simp: leaf_items_def value_at_def)
qed (simp add: leaf_items_def)

lemma bp_items_bt:
  shows "bt P st ord m h lo hi n xs \<Longrightarrow> \<forall>lim\<ge>h. bp_items P st lim (Some n) = Inr (somes xs)"
    and "chain P st ord h lo bs cs xs \<Longrightarrow> \<forall>lim\<ge>h.
      \<exists>xss. mapR (\<lambda>c. bindR (bref_get P st c) (bp_items P st lim)) cs = Inr xss \<and> concat xss = somes xs"
proof (induction rule: bt_chain.inducts)
  case (bt_leaf ks lo hi m xs vs)
  have sorted: "sorted_wrt (<) ks" and len: "length ks = length xs" and vs: "list_all2 (value_at st) vs xs"
    by fact+
  have "bp_items P st (Suc lim) (Some (LeafNode ks vs)) = Inr (somes (zip ks xs))" for lim
    using leaf_items_values [OF vs len] by simp
  then show ?case by (metis Suc_le_D One_nat_def)
next
  case (bt_node h lo ks hi cs xs m)
  show ?case
  proof (intro allI impI)
    fix lim assume "Suc h \<le> lim"
    then obtain l where l: "lim = Suc l" "h \<le> l" by (cases lim) auto
    obtain xss where "mapR (\<lambda>c. bindR (bref_get P st c) (bp_items P st l)) cs = Inr xss" "concat xss = somes xs"
      using bt_node.IH l(2) by blast
    then show "bp_items P st lim (Some (InternalNode ks cs)) = Inr (somes xs)"
      by (simp add: l(1))
  qed
next
  case (chain_cons lo b bs c n h xs cs ys)
  have nd: "node_at P st c n"
    and ihx: "\<forall>lim\<ge>h. bp_items P st lim (Some n) = Inr (somes xs)"
    and ihy: "\<forall>lim\<ge>h. \<exists>xss. mapR (\<lambda>c. bindR (bref_get P st c) (bp_items P st lim)) cs = Inr xss \<and> concat xss = somes ys"
    by fact+
  show ?case
  proof (intro allI impI)
    fix lim assume lim: "h \<le> lim"
    obtain yss where "mapR (\<lambda>c. bindR (bref_get P st c) (bp_items P st lim)) cs = Inr yss" "concat yss = somes ys"
      using ihy lim by blast
    moreover have "bref_get P st c = Inr (Some n)" "bp_items P st lim (Some n) = Inr (somes xs)"
      using nd ihx lim by (simp_all add: node_at_def)
    ultimately show "\<exists>xss. mapR (\<lambda>c. bindR (bref_get P st c) (bp_items P st lim)) (c # cs) = Inr xss
        \<and> concat xss = somes (xs @ ys)"
      by simp
  qed
qed simp

lemma leaf_range_values:
  "list_all2 (value_at st) vs xs \<Longrightarrow> length ks = length xs \<Longrightarrow> sorted_wrt (<) ks \<Longrightarrow>
     leaf_range st start stop (zip ks vs) = Inr (somes (filter (in_range start stop) (zip ks xs)))"
proof (induction ks arbitrary: vs xs)
  case (Cons k ks)
  then obtain v vs' x xs' where e: "vs = v # vs'" "xs = x # xs'" "vref_get st v = Inr (Some x)"
    by (cases vs; cases xs) (auto simp: value_at_def)
  have ih: "leaf_range st start stop (zip ks vs') = Inr (somes (filter (in_range start stop) (zip ks xs')))"
    using Cons e by simp
  have rest: "filter (in_range start stop) (zip ks xs') = []" if "stop = Some t" "t \<le> k" for t
    using Cons.prems(3) that by (auto simp: filter_empty_conv in_bounds.simps dest!: set_zip_leftD)
  show ?case
    using ih e rest by (cases start; cases stop) (auto simp: in_bounds.simps)
qed simp

lemma bp_range_bt:
  shows "bt P st ord m h lo hi n xs \<Longrightarrow> \<forall>lim\<ge>h.
      bp_range P st lim start stop (Some n) = Inr (somes (filter (in_range start stop) xs))"
    and "chain P st ord h lo bs cs xs \<Longrightarrow> \<forall>lim\<ge>h. \<forall>ks i hi.
      bs = [] \<or> (bs = map Some (drop i ks) @ [hi] \<and> i \<le> length ks \<and> (i > 0 \<longrightarrow> lo = Some (ks ! (i - 1)))) \<longrightarrow>
      range_children (\<lambda>c. bindR (bref_get P st c) (bp_range P st lim start stop)) ks start stop i cs
        = Inr (somes (filter (in_range start stop) xs))"
proof (induction rule: bt_chain.inducts)
  case (bt_leaf ks lo hi m xs vs)
  have sorted: "sorted_wrt (<) ks" and len: "length ks = length xs" and vs: "list_all2 (value_at st) vs xs"
    by fact+
  have "bp_range P st (Suc lim) start stop (Some (LeafNode ks vs))
      = Inr (somes (filter (in_range start stop) (zip ks xs)))" for lim
    using leaf_range_values [OF vs len sorted] by simp
  then show ?case by (metis Suc_le_D One_nat_def)
next
  case (bt_node h lo ks hi cs xs m)
  have "\<forall>lim\<ge>h. \<forall>ks' i hi'.
      map Some ks @ [hi] = [] \<or> (map Some ks @ [hi] = map Some (drop i ks') @ [hi'] \<and> i \<le> length ks' \<and> (i > 0 \<longrightarrow> lo = Some (ks' ! (i - 1)))) \<longrightarrow>
      range_children (\<lambda>c. bindR (bref_get P st c) (bp_range P st lim start stop)) ks' start stop i cs
        = Inr (somes (filter (in_range start stop) xs))"
    by fact
  then have ih: "range_children (\<lambda>c. bindR (bref_get P st c) (bp_range P st lim start stop)) ks start stop 0 cs
        = Inr (somes (filter (in_range start stop) xs))" if "h \<le> lim" for lim
    using that by simp
  show ?case
  proof (intro allI impI)
    fix lim assume "Suc h \<le> lim"
    then obtain l where l: "lim = Suc l" "h \<le> l" by (cases lim) auto
    then have "range_children (\<lambda>c. bindR (bref_get P st c) (bp_range P st l start stop)) ks start stop 0 cs
        = Inr (somes (filter (in_range start stop) xs))"
      using ih l(2) by simp
    then show "bp_range P st lim start stop (Some (InternalNode ks cs)) = Inr (somes (filter (in_range start stop) xs))"
      by (simp add: l(1))
  qed
next
  case (chain_cons lo b bs c n h xs cs ys)
  have nd: "bref_get P st c = Inr (Some n)" and bx: "bt P st ord (ord div 2) h lo b n xs"
    and ch: "chain P st ord h b bs cs ys" and all: "chain P st ord h lo (b # bs) (c # cs) (xs @ ys)"
    using chain_cons by (auto simp: node_at_def intro: bt_chain.chain_cons)
  have ihy: "range_children (\<lambda>c. bindR (bref_get P st c) (bp_range P st lim start stop)) ks start stop i cs
        = Inr (somes (filter (in_range start stop) ys))"
    if "h \<le> lim" "bs = [] \<or> (bs = map Some (drop i ks) @ [hi] \<and> i \<le> length ks \<and> (i > 0 \<longrightarrow> b = Some (ks ! (i - 1))))"
    for lim ks i hi
    using chain_cons that by blast
  show ?case
  proof (intro allI impI)
    fix lim ks i hi
    assume lim: "h \<le> lim" and "b # bs = [] \<or> (b # bs = map Some (drop i ks) @ [hi] \<and> i \<le> length ks \<and> (i > 0 \<longrightarrow> lo = Some (ks ! (i - 1))))"
    then have i: "b # bs = map Some (drop i ks) @ [hi]" "i \<le> length ks" "i > 0 \<longrightarrow> lo = Some (ks ! (i - 1))"
      by auto
    let ?F = "filter (in_range start stop)"
    let ?f = "\<lambda>c. bindR (bref_get P st c) (bp_range P st lim start stop)"
    have fx: "bp_range P st lim start stop (Some n) = Inr (somes (?F xs))"
      using chain_cons lim by blast
    have rb: "(i < length ks \<and> b = Some (ks ! i) \<and> bs = map Some (drop (Suc i) ks) @ [hi]) \<or> (i = length ks \<and> bs = [])"
      using i by (cases "i < length ks") (auto simp: Cons_nth_drop_Suc [symmetric])
    then have fy: "range_children ?f ks start stop (Suc i) cs = Inr (somes (?F ys))"
      using ihy lim by fastforce
    have out1: "?F (xs @ ys) = []" if "0 < i" "stop = Some t" "t \<le> ks ! (i - 1)" for t
    proof -
      have lo: "lo = Some (ks ! (i - 1))" using i(3) that(1) by simp
      have "\<forall>k\<in>fst ` set (xs @ ys). in_bounds lo (last (b # bs)) k"
        using chain_bounds [OF all] by simp
      then show ?thesis
        using that by (force simp: filter_empty_conv in_bounds.simps lo)
    qed
    have out2: "?F xs = []" if "i < length ks" "start = Some t" "ks ! i \<le> t" for t
      using bt_bounds [OF bx] rb that by (force simp: filter_empty_conv in_bounds.simps)
    have pn: "py_nth ks (i - 1) = Inr (ks ! (i - 1))" if "0 < i"
      using i(2) that by (auto simp: py_nth_def)
    show "range_children ?f ks start stop i (c # cs) = Inr (somes (?F (xs @ ys)))"
      using pn fx fy out1 out2 by (cases start; cases stop; cases "0 < i") (auto simp: nd Let_def)
  qed
qed simp

end
