(* ===== verification/BPlusUpdate.thy ===== *)
theory BPlusUpdate
  imports BPlusRep
begin

text \<open>
  Insertion and deletion of \<open>bplus_tree.py\<close> on represented trees: splits, borrowing from
  either neighbour, merges and the collapse of the root keep the representation, and the
  content changes as that of a sorted association list (\<open>kv_upd\<close>, \<open>kv_del\<close>). The height is
  logarithmic in the number of keys, so that a depth bound \<open>lim\<close> is enough as soon as
  there are fewer than \<open>2 ^ lim\<close> keys.
\<close>

section \<open>Insertion\<close>

text \<open>What a step of the insertion hands to its caller: one node or two halves and their separator.\<close>

fun split_result ::
  "'k::linorder pickle \<Rightarrow> storage \<Rightarrow> nat \<Rightarrow> nat \<Rightarrow> nat \<Rightarrow> 'k option \<Rightarrow> 'k option \<Rightarrow> 'k split
     \<Rightarrow> ('k \<times> bytes) list \<Rightarrow> bool" where
  "split_result P st ord m h lo hi (new, None) xs \<longleftrightarrow>
     (\<exists>n. node_at P st new n \<and> bt P st ord m h lo hi n xs)"
| "split_result P st ord m h lo hi (new, Some (sep, right)) xs \<longleftrightarrow>
     chain P st ord h lo [Some sep, hi] [new, right] xs"

lemma node_at_new [simp]:
  "node_at P st (leaf_ref ks vs) n \<longleftrightarrow> n = LeafNode ks vs"
  "node_at P st (internal_ref ks cs) n \<longleftrightarrow> n = InternalNode ks cs"
  by (auto simp: node_at_def leaf_ref_def internal_ref_def)

lemma chain_pair:
  "lt_bound lo (Some s) \<Longrightarrow> lt_bound (Some s) hi \<Longrightarrow> node_at P st c1 n1 \<Longrightarrow> node_at P st c2 n2
    \<Longrightarrow> bt P st ord (ord div 2) h lo (Some s) n1 ys \<Longrightarrow> bt P st ord (ord div 2) h (Some s) hi n2 zs
    \<Longrightarrow> chain P st ord h lo [Some s, hi] [c1, c2] (ys @ zs)"
  using chain_cons [OF _ _ _ _ chain_cons [OF _ _ _ _ chain_nil]] by fastforce

lemma sorted_at_nth:
  assumes "sorted_wrt (<) ks" "i < length (ks :: 'k::linorder list)"
  shows "(\<forall>k\<in>set (take i ks). k < ks ! i) \<and> (\<forall>k\<in>set (drop i ks). ks ! i \<le> k)"
proof -
  have ks: "ks = take i ks @ ks ! i # drop (Suc i) ks" using assms(2) by (simp add: id_take_nth_drop)
  then have "sorted_wrt (<) (take i ks @ ks ! i # drop (Suc i) ks)" using assms(1) by simp
  then show ?thesis
    using assms(2) by (auto simp: sorted_wrt_append Cons_nth_drop_Suc [symmetric])
qed

lemma split_leaf_ok:
  assumes "sorted_wrt (<) ks" "\<forall>k\<in>set ks. in_bounds lo hi k" "length ks = length xs"
    and "list_all2 (value_at st) vs xs" "m \<le> length ks" "length ks \<le> Suc ord" "3 \<le> ord"
  shows "split_result P st ord m 1 lo hi (split_leaf ord ks vs) (zip ks xs)"
proof (cases "length ks \<le> ord")
  case True
  then show ?thesis using assms by (auto simp: split_leaf_def intro: bt_leaf [unfolded One_nat_def])
next
  case False
  let ?mid = "length ks div 2"
  have len: "length ks = Suc ord" and mid: "0 < ?mid" "?mid < length ks" using False assms by auto
  have half: "ord div 2 \<le> ?mid" "ord div 2 \<le> length ks - ?mid" "?mid \<le> ord" "length ks - ?mid \<le> ord"
    using len assms(7) by auto
  have gt: "\<forall>k\<in>set (take ?mid ks). k < ks ! ?mid" and ge: "\<forall>k\<in>set (drop ?mid ks). ks ! ?mid \<le> k"
    using sorted_at_nth [OF assms(1) mid(2)] by auto
  have "bt P st ord (ord div 2) 1 lo (Some (ks ! ?mid)) (LeafNode (take ?mid ks) (take ?mid vs)) (zip (take ?mid ks) (take ?mid xs))"
    using assms half gt
    by (intro bt_leaf sorted_wrt_take) (auto simp: in_bounds.simps list_all2_takeI dest: in_set_takeD)
  moreover have "bt P st ord (ord div 2) 1 (Some (ks ! ?mid)) hi (LeafNode (drop ?mid ks) (drop ?mid vs)) (zip (drop ?mid ks) (drop ?mid xs))"
    using assms half ge
    by (intro bt_leaf sorted_wrt_drop) (auto simp: in_bounds.simps list_all2_dropI dest: in_set_dropD)
  moreover have "zip ks xs = zip (take ?mid ks) (take ?mid xs) @ zip (drop ?mid ks) (drop ?mid xs)"
    by (metis append_take_drop_id take_zip drop_zip)
  moreover have "ks ! ?mid \<in> set ks" "ks ! 0 \<in> set ks" "ks ! 0 < ks ! ?mid"
    using assms(1) mid less_trans [OF mid] by (simp_all add: sorted_wrt_iff_nth_less nth_mem del: length_greater_0_conv)
  then have "in_bounds lo hi (ks ! ?mid)" "in_bounds lo hi (ks ! 0)" "ks ! 0 < ks ! ?mid"
    using assms(2) by blast+
  then have "lt_bound lo (Some (ks ! ?mid))" "lt_bound (Some (ks ! ?mid)) hi"
    by (cases lo; cases hi; auto simp: in_bounds.simps)+
  ultimately show ?thesis
    using False by (auto simp: split_leaf_def Let_def intro: chain_pair)
qed

lemma split_internal_ok:
  assumes "chain P st ord h lo (map Some ks @ [hi]) cs xs"
    and "m \<le> length ks" "length ks \<le> Suc ord" "3 \<le> ord"
  shows "split_result P st ord m (Suc h) lo hi (split_internal ord ks cs) xs"
proof (cases "length ks \<le> ord")
  case True
  then show ?thesis using assms by (auto simp: split_internal_def intro: bt_node)
next
  case False
  let ?mid = "length ks div 2"
  have len: "length ks = Suc ord" and mid: "0 < ?mid" "?mid < length ks" using False assms by auto
  have half: "ord div 2 \<le> ?mid" "ord div 2 \<le> ord - ?mid" "?mid \<le> ord" 
    using len assms(4) by auto
  define kl kr where "kl = take ?mid ks" and "kr = drop (Suc ?mid) ks"
  have ks: "ks = kl @ ks ! ?mid # kr" using mid(2) by (simp add: kl_def kr_def id_take_nth_drop)
  have lks: "length kl = ?mid" "length kr = ord - ?mid" using len mid by (simp_all add: kl_def kr_def)
  have lcs: "length cs = Suc (length ks)" using chain_length [OF assms(1)] by simp
  have "chain P st ord h lo ((map Some kl @ [Some (ks ! ?mid)]) @ (map Some kr @ [hi])) (take (Suc ?mid) cs @ drop (Suc ?mid) cs) xs"
    using assms(1) by (subst (asm) ks) simp
  then obtain ys zs where yz: "xs = ys @ zs" "chain P st ord h lo (map Some kl @ [Some (ks ! ?mid)]) (take (Suc ?mid) cs) ys"
     "chain P st ord h (Some (ks ! ?mid)) (map Some kr @ [hi]) (drop (Suc ?mid) cs) zs"
    by (subst (asm) chain_append) (use lks lcs mid in auto)
  have "bt P st ord (ord div 2) (Suc h) lo (Some (ks ! ?mid)) (InternalNode kl (take (Suc ?mid) cs)) ys"
    "bt P st ord (ord div 2) (Suc h) (Some (ks ! ?mid)) hi (InternalNode kr (drop (Suc ?mid) cs)) zs"
    using yz half lks by (auto intro!: bt_node)
  moreover have "lt_bound lo (Some (ks ! ?mid))" "lt_bound (Some (ks ! ?mid)) hi"
    using chain_keys [OF assms(1)] mid by auto
  ultimately show ?thesis
    using False yz(1) by (auto simp: split_internal_def Let_def kl_def kr_def intro: chain_pair)
qed

lemma bp_insert_rec_leaf:
  assumes "bt P st ord m h lo hi (LeafNode ks vs) xs" "m \<le> ord div 2" "3 \<le> ord" "value_at st v x" "in_bounds lo hi key"
  shows "\<exists>r. bp_insert_rec P st ord (Suc lim) (LeafNode ks vs) key v cnt
       = (Inr r, if key \<in> fst ` set xs then cnt else cnt + 1)
     \<and> split_result P st ord m h lo hi r (kv_upd key x xs)"
proof -
  obtain zs where z: "h = 1" "xs = zip ks zs" "sorted_wrt (<) ks" "length ks = length zs"
      "list_all2 (value_at st) vs zs" "\<forall>k\<in>set ks. in_bounds lo hi k" "m \<le> length ks" "length ks \<le> ord"
    using assms(1) by (auto elim: bt_leafE)
  obtain k1 k2 where k: "ks = k1 @ k2" "length k1 = bisect_left ks key" "\<forall>y\<in>set k1. y < key" "\<forall>y\<in>set k2. key \<le> y"
    by (rule bisect_left_split [OF z(3)])
  define z1 z2 v1 v2 where "z1 = take (length k1) zs" and "z2 = drop (length k1) zs"
     and "v1 = take (length k1) vs" and "v2 = drop (length k1) vs"
  have e: "zs = z1 @ z2" "vs = v1 @ v2" "length z1 = length k1" "length v1 = length k1" "length k2 = length z2"
    "list_all2 (value_at st) v1 z1" "list_all2 (value_at st) v2 z2"
    using z(4,5) k(1) list_all2_lengthD [OF z(5)]
    by (auto simp: z1_def z2_def v1_def v2_def list_all2_takeI list_all2_dropI)
  have xs: "xs = zip k1 z1 @ zip k2 z2" using z(2) e k(1) by simp
  have f1: "\<forall>y\<in>fst ` set (zip k1 z1). y < key" using k(3) by (auto dest: set_zip_leftD)
  show ?thesis
  proof (cases "\<exists>k2'. k2 = key # k2'")
    case True
    then obtain k2' where k2: "k2 = key # k2'" by blast
    then obtain y z2' w v2' where zv: "z2 = y # z2'" "v2 = w # v2'" using e by (cases z2; cases v2) auto
    have "kv_upd key x xs = zip ks (z1 @ x # z2')"
      using kv_upd_append [OF f1, of "[]" x "zip k2 z2"] k(1) e by (simp add: xs k2 zv)
    moreover have "split_result P st ord m 1 lo hi (split_leaf ord ks (v1 @ v # v2')) (zip ks (z1 @ x # z2'))"
      using z e assms(2-4) k2 zv k(1) by (intro split_leaf_ok) (auto simp: list_all2_appendI)
    moreover have "key \<in> fst ` set xs"
      by (simp add: xs k2 zv)
    moreover have "bp_insert_rec P st ord (Suc lim) (LeafNode ks vs) key v cnt = (Inr (split_leaf ord ks (v1 @ v # v2')), cnt)"
      using k(2) e(2,4) by (simp add: k(1) k2 zv act_defs py_defs bindS_def nth_append list_update_append)
    ultimately show ?thesis using z(1) by auto
  next
    case False
    have k2: "\<forall>y\<in>set k2. key < y"
    proof (cases k2)
      case (Cons y ys)
      then show ?thesis using False k z(3) by (force simp: sorted_wrt_append)
    qed simp
    then have f2: "\<forall>y\<in>fst ` set (zip k2 z2). key < y" by (auto dest: set_zip_leftD)
    have "kv_upd key x xs = zip (k1 @ key # k2) (z1 @ x # z2)"
      using kv_upd_append [OF f1 f2, of x "[]"] e by (simp add: xs)
    moreover have "split_result P st ord m 1 lo hi (split_leaf ord (k1 @ key # k2) (v1 @ v # v2)) (zip (k1 @ key # k2) (z1 @ x # z2))"
      using z e assms(2-5) k k2 by (intro split_leaf_ok) (auto simp: list_all2_appendI sorted_wrt_append)
    moreover have "key \<notin> fst ` set xs"
      using f1 f2 by (auto simp: xs)
    moreover have "bisect_left ks key = length k1" "key \<notin> set ks"
      using k k2 by auto
    then have "bp_insert_rec P st ord (Suc lim) (LeafNode ks vs) key v cnt = (Inr (split_leaf ord (k1 @ key # k2) (v1 @ v # v2)), cnt + 1)"
      using bisect_left_hit [OF z(3), of key] e(2,4) by (auto simp: k(1) act_defs bindS_def Let_def)
    ultimately show ?thesis using z(1) by auto
  qed
qed

lemma bp_insert_rec_bt:
  "bt P st ord m h lo hi n xs \<Longrightarrow> m \<le> ord div 2 \<Longrightarrow> 3 \<le> ord \<Longrightarrow> value_at st v x \<Longrightarrow> in_bounds lo hi key
    \<Longrightarrow> h \<le> lim \<Longrightarrow> \<exists>r. bp_insert_rec P st ord lim n key v cnt
       = (Inr r, if key \<in> fst ` set xs then cnt else cnt + 1)
     \<and> split_result P st ord m h lo hi r (kv_upd key x xs)"
proof (induction lim arbitrary: m h lo hi n xs)
  case 0
  then show ?case using bt_height_pos by fastforce
next
  case (Suc lim)
  show ?case
  proof (cases n)
    case (LeafNode ks vs)
    show ?thesis
      unfolding LeafNode by (rule bp_insert_rec_leaf [OF Suc.prems(1) [unfolded LeafNode] Suc.prems(2-5)])
  next
    case (InternalNode ks cs)
    then obtain h' where h': "h = Suc h'" "chain P st ord h' lo (map Some ks @ [hi]) cs xs" "m \<le> length ks" "length ks \<le> ord"
      using Suc.prems(1) by (auto elim: bt_nodeE)
    obtain ks1 ks2 cs1 c cs2 n' xs1 ys xs2 a b bs2 where f:
      "ks = ks1 @ ks2" "length ks1 = bisect_right ks key" "cs = cs1 @ c # cs2" "length cs1 = length ks1"
      "xs = xs1 @ ys @ xs2" "a = last (lo # map Some ks1)" "map Some ks2 @ [hi] = b # bs2"
      "chain P st ord h' lo (map Some ks1) cs1 xs1" "node_at P st c n'"
      "bt P st ord (ord div 2) h' a b n' ys" "lt_bound a b" "in_bounds a b key"
      "chain P st ord h' b bs2 cs2 xs2" "b = None \<longrightarrow> bs2 = []"
      "\<forall>k\<in>fst ` set xs1. k < key" "\<forall>k\<in>fst ` set xs2. key < k"
      by (rule chain_focus [OF h'(2) Suc.prems(5)])
    obtain new split where ih: "bp_insert_rec P st ord lim n' key v cnt
       = (Inr (new, split), if key \<in> fst ` set ys then cnt else cnt + 1)"
      "split_result P st ord (ord div 2) h' a b (new, split) (kv_upd key x ys)"
      using Suc.IH [OF f(10) order_refl Suc.prems(3,4) f(12)] Suc.prems(6) h'(1) by auto
    let ?km = "case split of None \<Rightarrow> [] | Some (sep, _) \<Rightarrow> [sep]"
    let ?cm = "case split of None \<Rightarrow> [new] | Some (_, r) \<Rightarrow> [new, r]"
    have mid: "chain P st ord h' (last (lo # map Some ks1)) (map Some ?km @ [b]) ?cm (kv_upd key x ys)"
    proof (cases split)
      case None
      then obtain n'' where "node_at P st new n''" "bt P st ord (ord div 2) h' a b n'' (kv_upd key x ys)"
        using ih(2) by auto
      then show ?thesis
        using chain_cons [OF f(11) _ _ _ chain_nil] None f(6) by fastforce
    qed (use ih(2) f(6) in auto)
    have all: "chain P st ord h' lo (map Some (ks1 @ ?km @ ks2) @ [hi]) (cs1 @ ?cm @ cs2) (kv_upd key x xs)"
      using chain_plug [OF f(8) mid f(13,14)] f(7) by (simp add: f(5) kv_upd_append [OF f(15,16)])
    have key: "key \<in> fst ` set xs \<longleftrightarrow> key \<in> fst ` set ys"
      using f(15,16) by (auto simp: f(5))
    have sr: "split_result P st ord m (Suc h') lo hi (split_internal ord (ks1 @ ?km @ ks2) (cs1 @ ?cm @ cs2)) (kv_upd key x xs)"
      using Suc.prems(3) h'(3,4) f(1) by (intro split_internal_ok [OF all]) (auto split: option.splits)
    have "bp_insert_rec P st ord (Suc lim) n key v cnt =
      (Inr (split_internal ord (ks1 @ ?km @ ks2) (cs1 @ ?cm @ cs2)), if key \<in> fst ` set ys then cnt else cnt + 1)"
      using f(9) ih(1) f(2) [symmetric] f(4)
      by (cases split) (simp_all add: InternalNode f(1,3) Let_def act_defs bindS_def node_at_def insert_at_def
            list_update_append prod.case_eq_if)
    then have "bp_insert_rec P st ord (Suc lim) n key v cnt =
      (Inr (split_internal ord (ks1 @ ?km @ ks2) (cs1 @ ?cm @ cs2)), if key \<in> fst ` set xs then cnt else cnt + 1)"
      by (simp only: key)
    with sr show ?thesis
      unfolding h'(1) by - (rule exI, rule conjI)
  qed
qed

section \<open>Deletion\<close>

abbreviation values_at :: "storage \<Rightarrow> value_ref list \<Rightarrow> ('k \<times> bytes) list \<Rightarrow> bool" where
  "values_at st \<equiv> list_all2 (\<lambda>v kv. value_at st v (snd kv))"

lemma values_at_zip:
  "length ks = length zs \<Longrightarrow> values_at st vs (zip ks zs) \<longleftrightarrow> list_all2 (value_at st) vs zs"
  by (auto simp: list_all2_conv_all_nth)

lemma bt_leaf_iff:
  "bt P st ord m h lo hi (LeafNode ks vs) xs \<longleftrightarrow>
     h = 1 \<and> ks = map fst xs \<and> kv_sorted xs \<and> (\<forall>k\<in>fst ` set xs. in_bounds lo hi k)
       \<and> m \<le> length xs \<and> length xs \<le> ord \<and> values_at st vs xs" (is "?l \<longleftrightarrow> ?r")
proof
  assume ?l
  then obtain zs where z: "h = 1" "xs = zip ks zs" "sorted_wrt (<) ks" "length ks = length zs"
      "list_all2 (value_at st) vs zs" "\<forall>k\<in>set ks. in_bounds lo hi k" "m \<le> length ks" "length ks \<le> ord"
    by (auto elim: bt_leafE)
  then show ?r by (auto simp: values_at_zip dest: set_zip_leftD)
next
  assume r: ?r
  then have "values_at st vs (zip (map fst xs) (map snd xs))" by (simp add: zip_map_fst_snd)
  then have "bt P st ord m 1 lo hi (LeafNode ks vs) (zip (map fst xs) (map snd xs))"
    using r by (auto simp: values_at_zip simp del: zip_map_fst_snd intro!: bt_leaf [unfolded One_nat_def])
  then show ?l using r by (simp add: zip_map_fst_snd)
qed

lemma bt_node_iff:
  "bt P st ord m h lo hi (InternalNode ks cs) xs \<longleftrightarrow>
     (\<exists>h'. h = Suc h' \<and> chain P st ord h' lo (map Some ks @ [hi]) cs xs \<and> m \<le> length ks \<and> length ks \<le> ord)"
  by (auto elim: bt_nodeE intro: bt_node)

lemma chain_height_pos: "chain P st ord h lo (b # bs) cs xs \<Longrightarrow> 0 < h"
  using bt_height_pos by (auto simp: chain_Cons_iff)

lemma chain_snoc_height: "chain P st ord h lo (bs @ [b]) cs xs \<Longrightarrow> 0 < h"
  by (cases bs) (auto intro: chain_height_pos)

lemma bt_same_kind:
  assumes "bt P st ord m h lo hi n xs" "bt P st ord m' h lo' hi' n' xs'"
  obtains ks vs ks' vs' where "n = LeafNode ks vs" "n' = LeafNode ks' vs'"
    | ks cs ks' cs' where "n = InternalNode ks cs" "n' = InternalNode ks' cs'"
  using assms by (cases n; cases n') (auto simp: bt_leaf_iff bt_node_iff dest: chain_snoc_height)

lemma py_pair [simp]:
  "i = length xs \<Longrightarrow> py_set (xs @ y # ys) i z = Inr (xs @ z # ys)"
  "i = length xs \<Longrightarrow> py_del (xs @ y # ys) i = Inr (xs @ ys)"
  by (simp_all add: py_defs)

text \<open>The three ways to repair a pair of neighbours.\<close>

lemma borrow_from_left_ok:
  assumes l: "bt P st ord m h a (Some s) l ys" "ord div 2 < num_keys l"
    and c: "bt P st ord (ord div 2 - 1) h (Some s) b c zs" "num_keys c < ord div 2"
    and s: "lt_bound a (Some s)" "lt_bound (Some s) b" and len: "length cs1 = length ks1" and o3: "3 \<le> ord"
  shows "\<exists>s' l' c'. borrow_from_left (ks1 @ s # ks2) (cs1 @ cl # cc # cs2) (Suc (length ks1)) l c
      = Inr (ks1 @ s' # ks2, cs1 @ l' # c' # cs2) \<and> chain P st ord h a [Some s', b] [l', c'] (ys @ zs)"
  using l(1) c(1)
proof (cases rule: bt_same_kind)
  case (1 lk lv ck cv)
  obtain ys' k x where y: "ys = ys' @ [(k, x)]"
    using l(2) l(1) 1 by (cases ys rule: rev_cases) (auto simp: num_keys_def bt_leaf_iff)
  obtain lv' v where v: "lv = lv' @ [v]" "values_at st lv' ys'" "value_at st v x"
    using l(1) by (auto simp: 1 y bt_leaf_iff list_all2_append2 list_all2_Cons2)
  have kk: "in_bounds a (Some s) k" "\<forall>y\<in>set ys'. fst y < k" "\<forall>y\<in>set ys'. in_bounds a (Some s) (fst y)"
    using l(1) by (auto simp: 1 y bt_leaf_iff sorted_wrt_append)
  have len: "length ys' = num_keys l - 1" "length zs = num_keys c" "num_keys l \<le> ord" 
    using l(1) c(1) by (auto simp: 1 y num_keys_def bt_leaf_iff)
  have h1: "h = 1" using l(1) 1 by (simp add: bt_leaf_iff)
  have ne: "ys' \<noteq> []" using len(1) l(2) o3 by (cases ys') auto
  have "lt_bound a (Some k)"
    using ne kk by (cases ys'; cases a) (auto simp: in_bounds.simps)
  moreover have "lt_bound (Some k) b" using kk(1) s(2) by (cases b) (auto simp: in_bounds.simps)
  moreover have "bt P st ord (ord div 2) h a (Some k) (LeafNode (map fst ys') lv') ys'"
    using kk v(2) l len by (auto simp: h1 bt_leaf_iff 1 y in_bounds.simps sorted_wrt_append)
  moreover have "bt P st ord (ord div 2) h (Some k) b (LeafNode (k # ck) (v # cv)) ((k, x) # zs)"
  proof -
    have cz: "ck = map fst zs" "kv_sorted zs" "values_at st cv zs" "\<forall>z\<in>set zs. in_bounds (Some s) b (fst z)"
      "ord div 2 - 1 \<le> length zs"
      using c(1) by (auto simp: 1 bt_leaf_iff)
    have "k < s" using kk(1) by (simp add: in_bounds.simps)
    then have "\<forall>z\<in>set zs. k < fst z" "\<forall>z\<in>set zs. in_bounds (Some k) b (fst z)" "in_bounds (Some k) b k"
      using cz(4) s(2) by (cases b; fastforce simp: in_bounds.simps)+
    moreover have "ord div 2 \<le> Suc (length zs)" "Suc (length zs) \<le> ord"
      using cz(5) len(2) c(2) o3 by linarith+
    ultimately show ?thesis
      unfolding bt_leaf_iff using cz h1 v(3) by simp
  qed
  ultimately have "chain P st ord h a [Some k, b] [leaf_ref (map fst ys') lv', leaf_ref (k # ck) (v # cv)] (ys' @ (k, x) # zs)"
    by (auto intro: chain_pair)
  moreover have "lk = map fst ys' @ [k]" using l(1) by (simp add: 1 y bt_leaf_iff)
  ultimately show ?thesis
    using assms(7) by (auto simp: 1 y v(1) py_last_def list_update_append)
next
  case (2 lk lc ck cd)
  obtain h' where h: "h = Suc h'" and l': "chain P st ord h' a (map Some lk @ [Some s]) lc ys" "length lk \<le> ord"
    and c': "chain P st ord h' (Some s) (map Some ck @ [b]) cd zs" "ord div 2 - 1 \<le> length ck"
    using l(1) c(1) by (auto simp: 2 bt_node_iff)
  obtain lk' k where k: "lk = lk' @ [k]" using l(2) by (cases lk rule: rev_cases) (auto simp: 2 num_keys_def)
  obtain lc' c0 where lc: "lc = lc' @ [c0]" "length lc' = length lk"
    using chain_length [OF l'(1)] by (cases lc rule: rev_cases) auto
  have "chain P st ord h' a ((map Some lk' @ [Some k]) @ [Some s]) (lc' @ [c0]) ys"
    using l'(1) k lc by simp
  then obtain ys1 ys2 where y: "ys = ys1 @ ys2" "chain P st ord h' a (map Some lk' @ [Some k]) lc' ys1"
    "chain P st ord h' (Some k) [Some s] [c0] ys2"
    by (subst (asm) chain_append) (use k lc in auto)
  have "chain P st ord h' (Some k) ([Some s] @ (map Some ck @ [b])) ([c0] @ cd) (ys2 @ zs)"
    using c'(1) by (intro chain_appendI [OF y(3)]) auto
  moreover have "length lk' + 1 = num_keys l" "length ck = num_keys c"
    by (simp_all add: 2 k num_keys_def)
  ultimately have "bt P st ord (ord div 2) h a (Some k) (InternalNode lk' lc') ys1"
    "bt P st ord (ord div 2) h (Some k) b (InternalNode (s # ck) (c0 # cd)) (ys2 @ zs)"
    using y(2) l(2) l'(2) c(2) c'(2) o3 k by (auto simp: h bt_node_iff)
  moreover have "lt_bound a (Some k)" "lt_bound (Some k) b"
    using chain_keys [OF l'(1)] s(2) lt_bound_trans [of "Some k" "Some s" b] by (auto simp: k)
  ultimately have "chain P st ord h a [Some k, b] [internal_ref lk' lc', internal_ref (s # ck) (c0 # cd)] (ys1 @ ys2 @ zs)"
    by (auto intro: chain_pair)
  then show ?thesis
    using len by (auto simp: 2 k lc(1) y(1) py_last_def list_update_append)
qed

lemma borrow_from_right_ok:
  assumes c: "bt P st ord (ord div 2 - 1) h a (Some s) c ys" "num_keys c < ord div 2"
    and r: "bt P st ord m h (Some s) b r zs" "ord div 2 < num_keys r"
    and s: "lt_bound a (Some s)" "lt_bound (Some s) b" and len: "length cs1 = length ks1" and o3: "3 \<le> ord"
  shows "\<exists>s' c' r'. borrow_from_right (ks1 @ s # ks2) (cs1 @ cc # cr # cs2) (length ks1) r c
      = Inr (ks1 @ s' # ks2, cs1 @ c' # r' # cs2) \<and> chain P st ord h a [Some s', b] [c', r'] (ys @ zs)"
  using c(1) r(1)
proof (cases rule: bt_same_kind)
  case (1 ck cv rk rv)
  have rz: "rk = map fst zs" "kv_sorted zs" "values_at st rv zs" "\<forall>z\<in>set zs. in_bounds (Some s) b (fst z)"
    "length zs \<le> ord" "h = 1"
    and cy: "ck = map fst ys" "kv_sorted ys" "values_at st cv ys" "\<forall>y\<in>set ys. in_bounds a (Some s) (fst y)"
    "ord div 2 - 1 \<le> length ys"
    using r(1) c(1) by (auto simp: 1 bt_leaf_iff)
  have lens: "length ys = num_keys c" "length zs = num_keys r" by (simp_all add: 1 rz cy num_keys_def)
  then have "2 \<le> length zs" using r(2) o3 by linarith
  then obtain k x k' x' zs' where z: "zs = (k, x) # (k', x') # zs'"
    by (cases zs; cases "tl zs") auto
  obtain v rv' where v: "rv = v # rv'" "value_at st v x" "values_at st rv' ((k', x') # zs')"
    using rz(3) by (auto simp: z list_all2_Cons2)
  have lt: "\<forall>y\<in>set ys. fst y < k" "k < k'" "s \<le> k"
    using cy(4) rz(2,4) by (fastforce simp: z in_bounds.simps)+
  then have "lt_bound a (Some k')" "lt_bound (Some k') b" "in_bounds a (Some k') k"
    using s rz(4) by (cases a; cases b; auto simp: z in_bounds.simps)+
  moreover have "\<forall>y\<in>set ys. in_bounds a (Some k') (fst y)"
    using cy(4) lt by (fastforce simp: in_bounds.simps)
  then have "bt P st ord (ord div 2) h a (Some k') (LeafNode (ck @ [k]) (cv @ [v])) (ys @ [(k, x)])"
    unfolding bt_leaf_iff using cy rz(6) lens c(2) lt calculation(3) v(2) o3
    by (auto simp: sorted_wrt_append list_all2_appendI)
  moreover have "\<forall>z\<in>set ((k', x') # zs'). in_bounds (Some k') b (fst z)"
  proof
    fix y assume y: "y \<in> set ((k', x') # zs')"
    then have "k' \<le> fst y" using rz(2) by (auto simp: z)
    moreover have "in_bounds (Some s) b (fst y)" using rz(4) y by (auto simp: z)
    ultimately show "in_bounds (Some k') b (fst y)" by (simp add: in_bounds.simps)
  qed
  then have "bt P st ord (ord div 2) h (Some k') b (LeafNode (tl rk) rv') ((k', x') # zs')"
    unfolding bt_leaf_iff using rz lens r(2) v(3) by (auto simp: z)
  ultimately have "chain P st ord h a [Some k', b] [leaf_ref (ck @ [k]) (cv @ [v]), leaf_ref (tl rk) rv'] ((ys @ [(k, x)]) @ (k', x') # zs')"
    by (auto intro: chain_pair simp del: append.simps append_assoc)
  then show ?thesis
    using len by (auto simp: 1 rz(1) z v(1) py_nth_def list_update_append)
next
  case (2 ck cd rk rc)
  obtain h' where h: "h = Suc h'" and r': "chain P st ord h' (Some s) (map Some rk @ [b]) rc zs" "length rk \<le> ord"
    and c': "chain P st ord h' a (map Some ck @ [Some s]) cd ys" "ord div 2 - 1 \<le> length ck"
    using r(1) c(1) by (auto simp: 2 bt_node_iff)
  obtain k rk' where k: "rk = k # rk'" using r(2) by (cases rk) (auto simp: 2 num_keys_def)
  then obtain c0 rc' where rc: "rc = c0 # rc'"
    using chain_length [OF r'(1)] by (cases rc) auto
  have "chain P st ord h' (Some s) ([Some k] @ (map Some rk' @ [b])) ([c0] @ rc') zs"
    using r'(1) k rc by simp
  then obtain zs1 zs2 where z: "zs = zs1 @ zs2" "chain P st ord h' (Some s) [Some k] [c0] zs1"
    "chain P st ord h' (Some k) (map Some rk' @ [b]) rc' zs2"
    by (subst (asm) chain_append) auto
  have "chain P st ord h' a ((map Some ck @ [Some s]) @ [Some k]) (cd @ [c0]) (ys @ zs1)"
    using z(2) by (intro chain_appendI [OF c'(1)]) auto
  moreover have "length rk' + 1 = num_keys r" "length ck = num_keys c"
    by (simp_all add: 2 k num_keys_def)
  ultimately have "bt P st ord (ord div 2) h a (Some k) (InternalNode (ck @ [s]) (cd @ [c0])) (ys @ zs1)"
    "bt P st ord (ord div 2) h (Some k) b (InternalNode rk' rc') zs2"
    using z(3) r(2) r'(2) c(2) c'(2) o3 k by (auto simp: h bt_node_iff)
  moreover have "lt_bound a (Some k)" "lt_bound (Some k) b"
    using chain_keys [OF r'(1)] s(1) lt_bound_trans [of a "Some s" "Some k"] by (auto simp: k)
  ultimately have "chain P st ord h a [Some k, b] [internal_ref (ck @ [s]) (cd @ [c0]), internal_ref rk' rc'] ((ys @ zs1) @ zs2)"
    by (auto intro: chain_pair simp del: append_assoc)
  then show ?thesis
    using len by (auto simp: 2 k rc z(1) py_nth_def list_update_append)
qed

lemma merge_nodes_ok:
  assumes l: "bt P st ord m h a (Some s) l ys" and r: "bt P st ord m' h (Some s) b r zs"
    and n: "ord div 2 \<le> num_keys l + num_keys r" "num_keys l + num_keys r < ord"
    and s: "lt_bound a (Some s)" "lt_bound (Some s) b" and len: "length cs1 = length ks1"
  shows "\<exists>n'. (\<exists>c'. node_at P st c' n' \<and> merge_nodes (ks1 @ s # ks2) (cs1 @ cl # cr # cs2) (length ks1) l r
      = Inr (ks1 @ ks2, cs1 @ c' # cs2)) \<and> bt P st ord (ord div 2) h a b n' (ys @ zs)"
  using l r
proof (cases rule: bt_same_kind)
  case (1 lk lv rk rv)
  have rz: "rk = map fst zs" "kv_sorted zs" "values_at st rv zs" "\<forall>z\<in>set zs. in_bounds (Some s) b (fst z)" "h = 1"
    and ly: "lk = map fst ys" "kv_sorted ys" "values_at st lv ys" "\<forall>y\<in>set ys. in_bounds a (Some s) (fst y)"
    using l r by (auto simp: 1 bt_leaf_iff)
  have "\<forall>y\<in>set ys. \<forall>z\<in>set zs. fst y < fst z"
    using ly(4) rz(4) by (fastforce simp: in_bounds.simps)
  moreover have "\<forall>y\<in>set ys. in_bounds a b (fst y)" "\<forall>z\<in>set zs. in_bounds a b (fst z)"
    using ly(4) rz(4) s in_bounds_widen in_bounds_widen_low by blast+
  moreover have "length ys = num_keys l" "length zs = num_keys r" by (simp_all add: 1 rz ly num_keys_def)
  ultimately have "bt P st ord (ord div 2) h a b (LeafNode (lk @ rk) (lv @ rv)) (ys @ zs)"
    unfolding bt_leaf_iff using ly rz n by (auto simp: sorted_wrt_append list_all2_appendI)
  then show ?thesis
    using len by (intro exI [of _ "LeafNode (lk @ rk) (lv @ rv)"] conjI exI [of _ "leaf_ref (lk @ rk) (lv @ rv)"])
      (auto simp: 1 list_update_append del_at_def)
next
  case (2 lk lc rk rc)
  obtain h' where h: "h = Suc h'" and l': "chain P st ord h' a (map Some lk @ [Some s]) lc ys"
    and r': "chain P st ord h' (Some s) (map Some rk @ [b]) rc zs"
    using l r by (auto simp: 2 bt_node_iff)
  have "chain P st ord h' a ((map Some lk @ [Some s]) @ (map Some rk @ [b])) (lc @ rc) (ys @ zs)"
    using r' by (intro chain_appendI [OF l']) auto
  then have "bt P st ord (ord div 2) h a b (InternalNode (lk @ s # rk) (lc @ rc)) (ys @ zs)"
    using n by (auto simp: bt_node_iff h 2 num_keys_def)
  then show ?thesis
    using len by (intro exI [of _ "InternalNode (lk @ s # rk) (lc @ rc)"] conjI exI [of _ "internal_ref (lk @ s # rk) (lc @ rc)"])
      (auto simp: 2 list_update_append del_at_def)
qed

lemma chain_last_child:
  assumes "chain P st ord h lo (map Some (ks @ [s])) cs xs"
  obtains cs' c n ys zs where "cs = cs' @ [c]" "length cs' = length ks" "xs = ys @ zs"
    "chain P st ord h lo (map Some ks) cs' ys" "node_at P st c n"
    "bt P st ord (ord div 2) h (last (lo # map Some ks)) (Some s) n zs"
    "lt_bound (last (lo # map Some ks)) (Some s)"
proof -
  obtain cs' c where cs: "cs = cs' @ [c]" "length cs' = length ks"
    using chain_length [OF assms] by (cases cs rule: rev_cases) auto
  have "chain P st ord h lo (map Some ks @ [Some s]) (cs' @ [c]) xs" using assms cs by simp
  then obtain ys zs where yz: "xs = ys @ zs" "chain P st ord h lo (map Some ks) cs' ys"
    "chain P st ord h (last (lo # map Some ks)) [Some s] [c] zs"
    by (subst (asm) chain_append) (use cs in auto)
  then obtain n where "node_at P st c n" "bt P st ord (ord div 2) h (last (lo # map Some ks)) (Some s) n zs"
    "lt_bound (last (lo # map Some ks)) (Some s)"
    by (auto simp: chain_Cons_iff)
  with cs yz show thesis by (intro that)
qed

lemma chain_plug_pair:
  assumes "chain P st ord h lo (map Some ks1) cs1 xs1" "chain P st ord h (last (lo # map Some ks1)) [Some s, b] [c1, c2] ys"
    and "chain P st ord h b bs2 cs2 xs2" "b = None \<longrightarrow> bs2 = []"
  shows "chain P st ord h lo (map Some ks1 @ Some s # b # bs2) (cs1 @ c1 # c2 # cs2) (xs1 @ ys @ xs2)"
  using chain_plug [of P st ord h lo ks1 cs1 xs1 "[s]" b "[c1, c2]" ys bs2 cs2 xs2] assms by simp

lemma chain_plug_one:
  assumes "chain P st ord h lo (map Some ks1) cs1 xs1" "node_at P st c n"
    and "bt P st ord (ord div 2) h (last (lo # map Some ks1)) b n ys" "lt_bound (last (lo # map Some ks1)) b"
    and "chain P st ord h b bs2 cs2 xs2" "b = None \<longrightarrow> bs2 = []"
  shows "chain P st ord h lo (map Some ks1 @ b # bs2) (cs1 @ c # cs2) (xs1 @ ys @ xs2)"
  using chain_plug [of P st ord h lo ks1 cs1 xs1 "[]" b "[c]" ys bs2 cs2 xs2] assms
    chain_cons [OF assms(4) _ assms(2,3) chain_nil] by simp

text \<open>Repairing with the left neighbour, and with the right one.\<close>

lemma repair_left:
  assumes l: "chain P st ord h lo (map Some kl) cl xs1" "bt P st ord (ord div 2) h (last (lo # map Some kl)) (Some s) n0 y0"
      "lt_bound (last (lo # map Some kl)) (Some s)" "length cl = length kl"
    and c: "bt P st ord (ord div 2 - 1) h (Some s) b n ys" "num_keys n < ord div 2" "lt_bound (Some s) b"
    and r: "chain P st ord h b bs2 cs2 xs2" "b = None \<longrightarrow> bs2 = []" "map Some ks2 @ [hi] = b # bs2" and o3: "3 \<le> ord"
  shows "\<exists>ks' cs'. (if num_keys n0 > ord div 2
       then borrow_from_left (kl @ s # ks2) (cl @ c0 # c # cs2) (Suc (length kl)) n0 n
       else merge_nodes (kl @ s # ks2) (cl @ c0 # c # cs2) (length kl) n0 n) = Inr (ks', cs')
     \<and> chain P st ord h lo (map Some ks' @ [hi]) cs' (xs1 @ y0 @ ys @ xs2)
     \<and> length kl + length ks2 \<le> length ks' \<and> length ks' \<le> Suc (length kl + length ks2)"
proof (cases "num_keys n0 > ord div 2")
  case True
  obtain s' l' c' where "borrow_from_left (kl @ s # ks2) (cl @ c0 # c # cs2) (Suc (length kl)) n0 n
      = Inr (kl @ s' # ks2, cl @ l' # c' # cs2)"
    and ch: "chain P st ord h (last (lo # map Some kl)) [Some s', b] [l', c'] (y0 @ ys)"
    using borrow_from_left_ok [OF l(2) True c(1,2) l(3) c(3) l(4) o3] by blast
  then show ?thesis
    using chain_plug_pair [OF l(1) ch r(1,2)] r(3) True by simp
next
  case False
  have n: "ord div 2 \<le> num_keys n0 + num_keys n" "num_keys n0 + num_keys n < ord"
    using bt_min [OF l(2)] False c(2) by linarith+
  obtain n' c' where "merge_nodes (kl @ s # ks2) (cl @ c0 # c # cs2) (length kl) n0 n = Inr (kl @ ks2, cl @ c' # cs2)"
    and ch: "node_at P st c' n'" "bt P st ord (ord div 2) h (last (lo # map Some kl)) b n' (y0 @ ys)"
    using merge_nodes_ok [OF l(2) c(1) n l(3) c(3) l(4)] by blast
  moreover have "lt_bound (last (lo # map Some kl)) b" using lt_bound_trans [OF l(3) c(3)] by simp
  ultimately show ?thesis
    using chain_plug_one [OF l(1) ch _ r(1,2)] r(3) False by simp
qed

lemma repair_right:
  assumes l: "chain P st ord h lo (map Some ks1) cs1 xs1" "length cs1 = length ks1"
    and c: "bt P st ord (ord div 2 - 1) h (last (lo # map Some ks1)) (Some s) n ys" "num_keys n < ord div 2"
      "lt_bound (last (lo # map Some ks1)) (Some s)"
    and r: "bt P st ord (ord div 2) h (Some s) b n1 y1" "lt_bound (Some s) b" 
      "chain P st ord h b bs2 cs2 xs2" "b = None \<longrightarrow> bs2 = []" "map Some kr @ [hi] = b # bs2" and o3: "3 \<le> ord"
  shows "\<exists>ks' cs'. (if num_keys n1 > ord div 2
       then borrow_from_right (ks1 @ s # kr) (cs1 @ c # c1 # cs2) (length ks1) n1 n
       else merge_nodes (ks1 @ s # kr) (cs1 @ c # c1 # cs2) (length ks1) n n1) = Inr (ks', cs')
     \<and> chain P st ord h lo (map Some ks' @ [hi]) cs' (xs1 @ ys @ y1 @ xs2)
     \<and> length ks1 + length kr \<le> length ks' \<and> length ks' \<le> Suc (length ks1 + length kr)"
proof (cases "num_keys n1 > ord div 2")
  case True
  obtain s' l' c' where "borrow_from_right (ks1 @ s # kr) (cs1 @ c # c1 # cs2) (length ks1) n1 n
      = Inr (ks1 @ s' # kr, cs1 @ l' # c' # cs2)"
    and ch: "chain P st ord h (last (lo # map Some ks1)) [Some s', b] [l', c'] (ys @ y1)"
    using borrow_from_right_ok [OF c(1,2) r(1) True c(3) r(2) l(2) o3] by blast
  then show ?thesis
    using chain_plug_pair [OF l(1) ch r(3,4)] r(5) True by simp
next
  case False
  have n: "ord div 2 \<le> num_keys n + num_keys n1" "num_keys n + num_keys n1 < ord"
    using bt_min [OF r(1)] False c(2) by linarith+
  obtain n' c' where "merge_nodes (ks1 @ s # kr) (cs1 @ c # c1 # cs2) (length ks1) n n1 = Inr (ks1 @ kr, cs1 @ c' # cs2)"
    and ch: "node_at P st c' n'" "bt P st ord (ord div 2) h (last (lo # map Some ks1)) b n' (ys @ y1)"
    using merge_nodes_ok [OF c(1) r(1) n c(3) r(2) l(2)] by blast
  moreover have "lt_bound (last (lo # map Some ks1)) b" using lt_bound_trans [OF c(3) r(2)] by simp
  ultimately show ?thesis
    using chain_plug_one [OF l(1) ch _ r(3,4)] r(5) False by simp
qed

lemma follow_at_append [simp]:
  "i = length cs1 \<Longrightarrow> node_at P st c n \<Longrightarrow> follow_at P st (cs1 @ c # cs2) i = Inr (Some n)"
  by (simp add: follow_at_def node_at_def)

lemma rebalance_eq:
  assumes "follow_at P st cs i = Inr (Some c)"
    and "if i > 0 then follow_at P st cs (i - 1) = Inr left \<and> left \<noteq> None else left = None"
    and "if i + 1 < length cs then follow_at P st cs (i + 1) = Inr right \<and> right \<noteq> None else right = None"
  shows "rebalance P st mk ks cs i = bindR (
       if left \<noteq> None \<and> (right = None \<or> num_keys (the left) > mk \<or> \<not> num_keys (the right) > mk)
       then (if num_keys (the left) > mk then borrow_from_left ks cs i (the left) c
             else merge_nodes ks cs (i - 1) (the left) c)
       else if right \<noteq> None
       then (if num_keys (the right) > mk then borrow_from_right ks cs i (the right) c
             else merge_nodes ks cs i c (the right))
       else Inl AttributeError) (\<lambda>(ks', cs'). Inr (internal_ref ks' cs'))"
  using assms by (cases left; cases right) (auto simp: rebalance_def split: if_splits)

text \<open>The parent after a repair: one key fewer at most, the same content.\<close>

definition repaired ::
  "'k::linorder pickle \<Rightarrow> storage \<Rightarrow> nat \<Rightarrow> nat \<Rightarrow> 'k option \<Rightarrow> 'k option \<Rightarrow> nat \<Rightarrow> ('k \<times> bytes) list \<Rightarrow> 'k lists result \<Rightarrow> bool" where
  "repaired P st ord h lo hi n xs r \<longleftrightarrow>
     (\<exists>ks cs. r = Inr (ks, cs) \<and> chain P st ord h lo (map Some ks @ [hi]) cs xs \<and> n \<le> Suc (length ks) \<and> length ks \<le> n)"

lemma rebalance_right_sibling:
  assumes l: "chain P st ord h lo (map Some ks1) cs1 xs1" "length cs1 = length ks1"
    and c: "bt P st ord (ord div 2 - 1) h (last (lo # map Some ks1)) b n ys" "num_keys n < ord div 2"
      "lt_bound (last (lo # map Some ks1)) b"
    and r: "chain P st ord h b bs2 cs2 xs2" "b = None \<longrightarrow> bs2 = []" "map Some ks2 @ [hi] = b # bs2"
    and o3: "3 \<le> ord"
  obtains right where "(right = None) = (ks2 = [])"
    "right \<noteq> None \<longrightarrow> follow_at P st (cs1 @ c # cs2) (Suc (length ks1)) = Inr right"
    "right \<noteq> None \<longrightarrow> repaired P st ord h lo hi (length (ks1 @ ks2)) (xs1 @ ys @ xs2)
       (if num_keys (the right) > ord div 2 then borrow_from_right (ks1 @ ks2) (cs1 @ c # cs2) (length ks1) (the right) n
        else merge_nodes (ks1 @ ks2) (cs1 @ c # cs2) (length ks1) n (the right))"
proof (cases ks2)
  case Nil
  show thesis by (rule that [of None]) (simp_all add: Nil)
next
  case (Cons s kr)
  then have b: "b = Some s" "bs2 = map Some kr @ [hi]" using r(3) by auto
  obtain b' bs' where b': "map Some kr @ [hi] = b' # bs'" by (cases "map Some kr @ [hi]") auto
  obtain c1 cr n1 y1 y2 where 1: "cs2 = c1 # cr" "xs2 = y1 @ y2" "lt_bound (Some s) b'" "b' = None \<longrightarrow> bs' = []"
    "node_at P st c1 n1" "bt P st ord (ord div 2) h (Some s) b' n1 y1" "chain P st ord h b' bs' cr y2"
    using r(1) unfolding b b' chain_Cons_iff by blast
  show thesis
  proof (rule that [of "Some n1"])
    show "Some n1 \<noteq> None \<longrightarrow> follow_at P st (cs1 @ c # cs2) (Suc (length ks1)) = Inr (Some n1)"
      using follow_at_append [of "Suc (length ks1)" "cs1 @ [c]" P st c1 n1 cr] 1 l(2) by simp
    show "Some n1 \<noteq> None \<longrightarrow> repaired P st ord h lo hi (length (ks1 @ ks2)) (xs1 @ ys @ xs2)
       (if num_keys (the (Some n1)) > ord div 2 then borrow_from_right (ks1 @ ks2) (cs1 @ c # cs2) (length ks1) (the (Some n1)) n
        else merge_nodes (ks1 @ ks2) (cs1 @ c # cs2) (length ks1) n (the (Some n1)))"
      using repair_right [OF l c [unfolded b] 1(6,3,7,4) b' o3, of c c1] unfolding repaired_def Cons 1 option.sel by (simp split del: if_split cong: if_cong)
  qed (simp add: Cons)
qed

lemma rebalance_left_sibling:
  assumes l: "chain P st ord h lo (map Some ks1) cs1 xs1" "length cs1 = length ks1"
    and c: "bt P st ord (ord div 2 - 1) h (last (lo # map Some ks1)) b n ys" "num_keys n < ord div 2"
      "lt_bound (last (lo # map Some ks1)) b"
    and r: "chain P st ord h b bs2 cs2 xs2" "b = None \<longrightarrow> bs2 = []" "map Some ks2 @ [hi] = b # bs2"
    and o3: "3 \<le> ord"
  obtains left where "(left = None) = (ks1 = [])"
    "left \<noteq> None \<longrightarrow> follow_at P st (cs1 @ c # cs2) (length ks1 - 1) = Inr left"
    "left \<noteq> None \<longrightarrow> repaired P st ord h lo hi (length (ks1 @ ks2)) (xs1 @ ys @ xs2)
       (if num_keys (the left) > ord div 2 then borrow_from_left (ks1 @ ks2) (cs1 @ c # cs2) (length ks1) (the left) n
        else merge_nodes (ks1 @ ks2) (cs1 @ c # cs2) (length ks1 - 1) (the left) n)"
proof (cases ks1 rule: rev_cases)
  case Nil
  show thesis by (rule that [of None]) (simp_all add: Nil)
next
  case (snoc kl s)
  obtain cl c0 n0 x0 y0 where 1: "cs1 = cl @ [c0]" "length cl = length kl" "xs1 = x0 @ y0"
    "chain P st ord h lo (map Some kl) cl x0" "node_at P st c0 n0"
    "bt P st ord (ord div 2) h (last (lo # map Some kl)) (Some s) n0 y0"
    "lt_bound (last (lo # map Some kl)) (Some s)"
    by (rule chain_last_child [OF l(1) [unfolded snoc]])
  have c': "bt P st ord (ord div 2 - 1) h (Some s) b n ys" "lt_bound (Some s) b"
    using c snoc by simp_all
  show thesis
  proof (rule that [of "Some n0"])
    show "Some n0 \<noteq> None \<longrightarrow> follow_at P st (cs1 @ c # cs2) (length ks1 - 1) = Inr (Some n0)"
      using follow_at_append [of "length kl" cl P st c0 n0 "c # cs2"] 1 snoc by simp
    show "Some n0 \<noteq> None \<longrightarrow> repaired P st ord h lo hi (length (ks1 @ ks2)) (xs1 @ ys @ xs2)
       (if num_keys (the (Some n0)) > ord div 2 then borrow_from_left (ks1 @ ks2) (cs1 @ c # cs2) (length ks1) (the (Some n0)) n
        else merge_nodes (ks1 @ ks2) (cs1 @ c # cs2) (length ks1 - 1) (the (Some n0)) n)"
      using repair_left [OF 1(4,6,7,2) c'(1) c(2) c'(2) r o3, of c0 c] unfolding repaired_def snoc 1 option.sel by (simp split del: if_split cong: if_cong)
  qed (simp add: snoc)
qed

lemma rebalance_ok:
  assumes l: "chain P st ord h lo (map Some ks1) cs1 xs1" "length cs1 = length ks1"
    and c: "node_at P st c n" "bt P st ord (ord div 2 - 1) h (last (lo # map Some ks1)) b n ys" "num_keys n < ord div 2"
      "lt_bound (last (lo # map Some ks1)) b"
    and r: "chain P st ord h b bs2 cs2 xs2" "b = None \<longrightarrow> bs2 = []" "map Some ks2 @ [hi] = b # bs2"
    and o3: "3 \<le> ord" and ne: "ks1 @ ks2 \<noteq> []"
  shows "\<exists>ks' cs'. rebalance P st (ord div 2) (ks1 @ ks2) (cs1 @ c # cs2) (length ks1) = Inr (internal_ref ks' cs')
     \<and> chain P st ord h lo (map Some ks' @ [hi]) cs' (xs1 @ ys @ xs2)
     \<and> length (ks1 @ ks2) \<le> Suc (length ks') \<and> length ks' \<le> length (ks1 @ ks2)"
proof -
  let ?i = "length ks1" and ?cs = "cs1 @ c # cs2"
  have fc: "follow_at P st ?cs ?i = Inr (Some n)" using c(1) l(2) by simp
  have len2: "length cs2 = length ks2"
    using chain_length [OF r(1)] arg_cong [OF r(3), of length] by simp
  obtain right where R: "(right = None) = (ks2 = [])"
    "right \<noteq> None \<longrightarrow> follow_at P st ?cs (Suc ?i) = Inr right"
    "right \<noteq> None \<longrightarrow> repaired P st ord h lo hi (length (ks1 @ ks2)) (xs1 @ ys @ xs2)
       (if num_keys (the right) > ord div 2 then borrow_from_right (ks1 @ ks2) ?cs ?i (the right) n
        else merge_nodes (ks1 @ ks2) ?cs ?i n (the right))"
    by (rule rebalance_right_sibling [where c = c, OF l c(2-4) r o3])
  obtain left where L: "(left = None) = (ks1 = [])"
    "left \<noteq> None \<longrightarrow> follow_at P st ?cs (?i - 1) = Inr left"
    "left \<noteq> None \<longrightarrow> repaired P st ord h lo hi (length (ks1 @ ks2)) (xs1 @ ys @ xs2)
       (if num_keys (the left) > ord div 2 then borrow_from_left (ks1 @ ks2) ?cs ?i (the left) n
        else merge_nodes (ks1 @ ks2) ?cs (?i - 1) (the left) n)"
    by (rule rebalance_left_sibling [where c = c, OF l c(2-4) r o3])
  have eq: "rebalance P st (ord div 2) (ks1 @ ks2) ?cs ?i = bindR (
       if left \<noteq> None \<and> (right = None \<or> num_keys (the left) > ord div 2 \<or> \<not> num_keys (the right) > ord div 2)
       then (if num_keys (the left) > ord div 2 then borrow_from_left (ks1 @ ks2) ?cs ?i (the left) n
             else merge_nodes (ks1 @ ks2) ?cs (?i - 1) (the left) n)
       else if right \<noteq> None
       then (if num_keys (the right) > ord div 2 then borrow_from_right (ks1 @ ks2) ?cs ?i (the right) n
             else merge_nodes (ks1 @ ks2) ?cs ?i n (the right))
       else Inl AttributeError) (\<lambda>(ks', cs'). Inr (internal_ref ks' cs'))" (is "_ = bindR ?pick _")
    by (rule rebalance_eq [OF fc]) (use R L l(2) len2 in auto)
  have "repaired P st ord h lo hi (length (ks1 @ ks2)) (xs1 @ ys @ xs2) ?pick"
    using L(1,3) R(1,3) ne by (cases left; cases right) (auto split: if_splits)
  then obtain ks' cs' where "?pick = Inr (ks', cs')" "chain P st ord h lo (map Some ks' @ [hi]) cs' (xs1 @ ys @ xs2)"
     "length (ks1 @ ks2) \<le> Suc (length ks')" "length ks' \<le> length (ks1 @ ks2)"
    unfolding repaired_def by blast
  then show ?thesis unfolding eq by (intro exI [of _ ks'] exI [of _ cs']) simp
qed

lemma bp_delete_rec_leaf:
  assumes "bt P st ord m h lo hi (LeafNode ks vs) xs"
  shows "if key \<in> fst ` set xs
     then \<exists>r n'. bp_delete_rec P st (ord div 2) (Suc lim) (LeafNode ks vs) key cnt = (Inr r, cnt - 1)
       \<and> node_at P st r n' \<and> bt P st ord (m - 1) h lo hi n' (kv_del key xs)
     else bp_delete_rec P st (ord div 2) (Suc lim) (LeafNode ks vs) key cnt = (Inl KeyError, cnt)"
proof (cases "key \<in> fst ` set xs")
  case True
  have z: "h = 1" "ks = map fst xs" "kv_sorted xs" "\<forall>x\<in>set xs. in_bounds lo hi (fst x)"
    "m \<le> length xs" "length xs \<le> ord" "values_at st vs xs"
    using assms by (auto simp: bt_leaf_iff)
  obtain x1 y x2 where xs: "xs = x1 @ (key, y) # x2" using True by (auto dest!: split_list)
  obtain v1 v v2 where vs: "vs = v1 @ v # v2" "values_at st v1 x1" "values_at st v2 x2"
    using z(7) by (auto simp: xs list_all2_append2 list_all2_Cons2)
  have lt: "\<forall>k\<in>set (map fst x1). k < key" "\<forall>k\<in>set (map fst x2). key < k"
    using z(3) by (auto simp: xs sorted_wrt_append)
  have i: "bisect_left ks key = length x1"
    using bisect_left_append [OF lt(1), of "key # map fst x2"] lt(2) by (simp add: z(2) xs less_imp_le)
  have "kv_del key xs = x1 @ x2"
    using kv_del_append [of key x1 "[]" "(key, y) # x2"] lt(1) by (auto simp: xs)
  moreover have "bt P st ord (m - 1) h lo hi (LeafNode (map fst (x1 @ x2)) (v1 @ v2)) (x1 @ x2)"
    using z(1,3-6) vs(2,3) by (auto simp: bt_leaf_iff xs sorted_wrt_append list_all2_appendI)
  moreover have "bp_delete_rec P st (ord div 2) (Suc lim) (LeafNode ks vs) key cnt
      = (Inr (leaf_ref (map fst (x1 @ x2)) (v1 @ v2)), cnt - 1)"
    using i list_all2_lengthD [OF vs(2)] by (simp add: z(2) xs vs(1) act_defs bindS_def nth_append)
  ultimately show ?thesis using True by auto
next
  case False
  have "ks = map fst xs" "sorted_wrt (<) ks" using assms by (auto simp: bt_leaf_iff)
  then show ?thesis
    using False bisect_left_hit [of ks key] by (auto simp: act_defs Let_def not_le)
qed

lemma bp_delete_rec_bt:
  "bt P st ord m h lo hi n xs \<Longrightarrow> 1 \<le> m \<Longrightarrow> 3 \<le> ord \<Longrightarrow> in_bounds lo hi key \<Longrightarrow> h \<le> lim \<Longrightarrow>
   if key \<in> fst ` set xs
   then \<exists>r n'. bp_delete_rec P st (ord div 2) lim n key cnt = (Inr r, cnt - 1)
     \<and> node_at P st r n' \<and> bt P st ord (m - 1) h lo hi n' (kv_del key xs)
   else bp_delete_rec P st (ord div 2) lim n key cnt = (Inl KeyError, cnt)"
proof (induction lim arbitrary: m h lo hi n xs)
  case 0
  then show ?case using bt_height_pos by fastforce
next
  case (Suc lim)
  show ?case
  proof (cases n)
    case (LeafNode ks vs)
    show ?thesis
      unfolding LeafNode by (rule bp_delete_rec_leaf [OF Suc.prems(1) [unfolded LeafNode]])
  next
    case (InternalNode ks cs)
    then obtain h' where h': "h = Suc h'" "chain P st ord h' lo (map Some ks @ [hi]) cs xs" "m \<le> length ks" "length ks \<le> ord"
      using Suc.prems(1) by (auto simp: bt_node_iff)
    obtain ks1 ks2 cs1 c cs2 n' xs1 ys xs2 a b bs2 where f:
      "ks = ks1 @ ks2" "length ks1 = bisect_right ks key" "cs = cs1 @ c # cs2" "length cs1 = length ks1"
      "xs = xs1 @ ys @ xs2" "a = last (lo # map Some ks1)" "map Some ks2 @ [hi] = b # bs2"
      "chain P st ord h' lo (map Some ks1) cs1 xs1" "node_at P st c n'"
      "bt P st ord (ord div 2) h' a b n' ys" "lt_bound a b" "in_bounds a b key"
      "chain P st ord h' b bs2 cs2 xs2" "b = None \<longrightarrow> bs2 = []"
      "\<forall>k\<in>fst ` set xs1. k < key" "\<forall>k\<in>fst ` set xs2. key < k"
      by (rule chain_focus [OF h'(2) Suc.prems(4)])
    have key: "key \<in> fst ` set xs \<longleftrightarrow> key \<in> fst ` set ys"
      using f(15,16) by (auto simp: f(5))
    have del: "kv_del key xs = xs1 @ kv_del key ys @ xs2"
      using kv_del_append [of key xs1 xs2 ys] f(15,16) by (auto simp: f(5))
    have fol: "follow_at P st cs (bisect_right ks key) = Inr (Some n')"
      using f(2,4,9) by (simp add: f(3))
    have ih: "if key \<in> fst ` set ys
       then \<exists>r n''. bp_delete_rec P st (ord div 2) lim n' key cnt = (Inr r, cnt - 1)
         \<and> node_at P st r n'' \<and> bt P st ord (ord div 2 - 1) h' a b n'' (kv_del key ys)
       else bp_delete_rec P st (ord div 2) lim n' key cnt = (Inl KeyError, cnt)"
      using Suc.prems(3,5) h'(1) by (intro Suc.IH [OF f(10) _ _ f(12)]) auto
    show ?thesis
    proof (cases "key \<in> fst ` set ys")
      case True
      then obtain r n'' where r: "bp_delete_rec P st (ord div 2) lim n' key cnt = (Inr r, cnt - 1)"
        "node_at P st r n''" "bt P st ord (ord div 2 - 1) h' a b n'' (kv_del key ys)"
        using ih by auto
      have upd: "cs[bisect_right ks key := r] = cs1 @ r # cs2"
        using f(2,4) by (simp add: f(3) list_update_append)
      have "\<exists>ks' cs'. bp_delete_rec P st (ord div 2) (Suc lim) n key cnt = (Inr (internal_ref ks' cs'), cnt - 1)
        \<and> chain P st ord h' lo (map Some ks' @ [hi]) cs' (kv_del key xs) \<and> length ks \<le> Suc (length ks') \<and> length ks' \<le> length ks"
      proof (cases "ord div 2 \<le> num_keys n''")
        case True
        have "chain P st ord h' lo (map Some ks @ [hi]) (cs1 @ r # cs2) (kv_del key xs)"
          using chain_plug_one [OF f(8) r(2) bt_weaken [OF r(3) True, unfolded f(6)] f(11) [unfolded f(6)] f(13,14)]
          by (simp add: del f(1,7))
        then show ?thesis
          using True r(2) by (intro exI [of _ ks] exI [of _ "cs1 @ r # cs2"])
            (simp add: InternalNode fol r(1) upd Let_def act_defs bindS_def node_at_def)
      next
        case False
        have "ks1 @ ks2 \<noteq> []" "num_keys n'' < ord div 2" using h'(3) Suc.prems(2) f(1) False by auto
        then obtain ks' cs' where "rebalance P st (ord div 2) (ks1 @ ks2) (cs1 @ r # cs2) (length ks1) = Inr (internal_ref ks' cs')"
          and k: "chain P st ord h' lo (map Some ks' @ [hi]) cs' (kv_del key xs)"
          "length ks \<le> Suc (length ks')" "length ks' \<le> length ks"
          using rebalance_ok [OF f(8,4) r(2) r(3) [unfolded f(6)] _ f(11) [unfolded f(6)] f(13,14,7) Suc.prems(3)]
          unfolding del f(1) by blast
        then have "rebalance P st (ord div 2) ks (cs1 @ r # cs2) (bisect_right ks key) = Inr (internal_ref ks' cs')"
          unfolding f(2) [symmetric] unfolding f(1) by simp
        then show ?thesis
          using False r(2) k by (intro exI [of _ ks'] exI [of _ cs'])
            (simp add: InternalNode fol r(1) upd Let_def act_defs bindS_def node_at_def)
      qed
      then obtain ks' cs' where k: "bp_delete_rec P st (ord div 2) (Suc lim) n key cnt = (Inr (internal_ref ks' cs'), cnt - 1)"
        "chain P st ord h' lo (map Some ks' @ [hi]) cs' (kv_del key xs)" "length ks \<le> Suc (length ks')" "length ks' \<le> length ks"
        by blast
      have "bt P st ord (m - 1) h lo hi (InternalNode ks' cs') (kv_del key xs)"
        using k(2-4) h'(1,3,4) by (auto simp: bt_node_iff)
      then show ?thesis
        using k(1) True key by (intro iffD2 [OF if_P]) auto
    next
      case False
      then show ?thesis
        using ih key fol by (simp add: InternalNode Let_def act_defs bindS_def)
    qed
  qed
qed

section \<open>The whole tree\<close>

lemma bt_many_keys:
  shows "bt P st ord m h lo hi n xs \<Longrightarrow> d = ord div 2 \<Longrightarrow> d \<le> m \<Longrightarrow> d * (d + 1) ^ (h - 1) \<le> length xs"
    and "chain P st ord h lo bs cs xs \<Longrightarrow> d = ord div 2 \<Longrightarrow> length bs * (d * (d + 1) ^ (h - 1)) \<le> length xs"
proof (induction rule: bt_chain.inducts)
  case (bt_leaf ks lo hi m xs vs)
  have "m \<le> length ks" "length ks = length xs" "d \<le> m" by fact+
  then show ?case by simp
next
  case (bt_node h lo ks hi cs xs m)
  have ch: "chain P st ord h lo (map Some ks @ [hi]) cs xs" and m: "m \<le> length ks" "d \<le> m"
    and ih: "length (map Some ks @ [hi]) * (d * (d + 1) ^ (h - 1)) \<le> length xs"
    using bt_node by simp_all
  obtain h' where h': "h = Suc h'" using chain_snoc_height [OF ch] by (cases h) auto
  have "(d + 1) * (d * (d + 1) ^ h') \<le> Suc (length ks) * (d * (d + 1) ^ h')"
    using m by (intro mult_right_mono) auto
  also have "\<dots> \<le> length xs" using ih by (simp add: h')
  finally show ?case by (simp add: h' mult.left_commute)
next
  case (chain_cons lo b bs c n h xs cs ys)
  then show ?case by (simp add: algebra_simps)
qed simp

text \<open>The height is logarithmic in the number of keys, with the order in the base.\<close>

lemma bt_height_log:
  assumes "bt P st ord 1 h lo hi n xs" "3 \<le> ord"
  shows "2 ^ (h - 1) \<le> length xs" "2 \<le> h \<Longrightarrow> 2 * (ord div 2 * (ord div 2 + 1) ^ (h - 2)) \<le> length xs"
proof -
  let ?d = "ord div 2"
  have two: "2 * (?d * (?d + 1) ^ (h - 2)) \<le> length xs" if h2: "2 \<le> h"
  proof -
    obtain ks cs where n: "n = InternalNode ks cs" using assms(1) h2 by (cases n) (auto simp: bt_leaf_iff)
    then obtain h' where h': "h = Suc h'" "chain P st ord h' lo (map Some ks @ [hi]) cs xs" "1 \<le> length ks"
      using assms(1) by (auto simp: bt_node_iff)
    have "2 * (?d * (?d + 1) ^ (h' - 1)) \<le> Suc (length ks) * (?d * (?d + 1) ^ (h' - 1))"
      using h'(3) by (intro mult_right_mono) auto
    also have "\<dots> \<le> length xs" using bt_many_keys(2) [OF h'(2) refl] by simp
    finally show ?thesis by (simp add: h'(1) numeral_2_eq_2)
  qed
  show "2 \<le> h \<Longrightarrow> 2 * (?d * (?d + 1) ^ (h - 2)) \<le> length xs" by (rule two)
  show "2 ^ (h - 1) \<le> length xs"
  proof (cases "2 \<le> h")
    case True
    have "(2 :: nat) ^ (h - 2) \<le> (?d + 1) ^ (h - 2)" using assms(2) by (intro power_mono) auto
    also have "\<dots> \<le> ?d * (?d + 1) ^ (h - 2)" using assms(2) by simp
    finally have "2 * 2 ^ (h - 2) \<le> length xs" using two [OF True] by linarith
    moreover have "h - 1 = Suc (h - 2)" using True by simp
    ultimately show ?thesis by (simp only: power_Suc)
  next
    case False
    then have "h = 1" using bt_height_pos [OF assms(1)] by simp
    then show ?thesis using assms(1) by (cases n) (auto simp: bt_leaf_iff bt_node_iff dest: chain_snoc_height)
  qed
qed

lemma bt_height_lim:
  assumes "bt P st ord 1 h lo hi n xs" "3 \<le> ord" "length xs < 2 ^ lim"
  shows "h \<le> lim"
proof -
  have "(2 :: nat) ^ (h - 1) < 2 ^ lim" using bt_height_log(1) [OF assms(1,2)] assms(3) by linarith
  then have "h - 1 < lim" by (simp add: power_strict_increasing_iff)
  then show ?thesis by simp
qed

text \<open>What a root reference represents.\<close>

definition tree_rep ::
  "'k::linorder pickle \<Rightarrow> storage \<Rightarrow> nat \<Rightarrow> 'k bref \<Rightarrow> ('k \<times> bytes) list \<Rightarrow> bool" where
  "tree_rep P st ord r xs \<longleftrightarrow>
     (r = BPlusNodeRef None 0 \<and> xs = []) \<or> (\<exists>n h. node_at P st r n \<and> bt P st ord 1 h None None n xs)"

lemma tree_rep_cases:
  assumes "tree_rep P st ord r xs"
  obtains "r = BPlusNodeRef None 0" "xs = []" "bref_get P st r = Inr None"
    | n h where "node_at P st r n" "bref_get P st r = Inr (Some n)" "bt P st ord 1 h None None n xs"
  using assms by (auto simp: tree_rep_def node_at_def)

lemma tree_rep_sorted: "tree_rep P st ord r xs \<Longrightarrow> kv_sorted xs"
  by (auto simp: tree_rep_def dest: bt_sorted)

lemma bp_get_tree:
  assumes "tree_rep P st ord r xs" "3 \<le> ord" "length xs < 2 ^ lim" "0 < lim"
  shows "bindR (bref_get P st r) (\<lambda>node. bp_get P st lim node key) = lookup_result (map_of xs) key"
  using assms(1)
proof (cases rule: tree_rep_cases)
  case 1
  then show ?thesis using assms(4) by (cases lim) (auto simp: lookup_result_def)
next
  case (2 n h)
  then show ?thesis using bp_get_bt [OF 2(3) bt_height_lim [OF 2(3) assms(2,3)]] by simp
qed

lemma bp_items_tree:
  assumes "tree_rep P st ord r xs" "3 \<le> ord" "length xs < 2 ^ lim" "0 < lim"
  shows "bindR (bref_get P st r) (bp_items P st lim) = Inr (somes xs)"
  using assms(1)
proof (cases rule: tree_rep_cases)
  case 1
  then show ?thesis using assms(4) by (cases lim) auto
next
  case (2 n h)
  then show ?thesis using bp_items_bt(1) [OF 2(3)] bt_height_lim [OF 2(3) assms(2,3)] by simp
qed

lemma bp_range_tree:
  assumes "tree_rep P st ord r xs" "3 \<le> ord" "length xs < 2 ^ lim" "0 < lim"
  shows "bindR (bref_get P st r) (bp_range P st lim start stop) = Inr (somes (filter (in_range start stop) xs))"
  using assms(1)
proof (cases rule: tree_rep_cases)
  case 1
  then show ?thesis using assms(4) by (cases lim) auto
next
  case (2 n h)
  then show ?thesis using bp_range_bt(1) [OF 2(3)] bt_height_lim [OF 2(3) assms(2,3)] by simp
qed

lemma bp_insert_tree:
  assumes "tree_rep P st ord r xs" "3 \<le> ord" "length xs < 2 ^ lim" "value_at st v x"
  obtains node r' where "bref_get P st r = Inr node"
    "bp_insert P st ord lim node key v cnt = (Inr r', if key \<in> fst ` set xs then cnt else cnt + 1)"
    "tree_rep P st ord r' (kv_upd key x xs)" "clean_bref r'"
  using assms(1)
proof (cases rule: tree_rep_cases)
  case 1
  have "bt P st ord 1 1 None None (LeafNode [key] [v]) [(key, x)]"
    using assms(2,4) by (simp add: bt_leaf_iff)
  then have "tree_rep P st ord (leaf_ref [key] [v]) [(key, x)]" by (auto simp: tree_rep_def)
  then show thesis
    using 1 by (intro that [of None "leaf_ref [key] [v]"]) (simp_all add: bp_insert_def act_defs bindS_def leaf_ref_def)
next
  case (2 n h)
  have one: "1 \<le> ord div 2" using assms(2) by linarith
  obtain new split where r: "bp_insert_rec P st ord lim n key v cnt = (Inr (new, split), if key \<in> fst ` set xs then cnt else cnt + 1)"
     "split_result P st ord 1 h None None (new, split) (kv_upd key x xs)"
    using bp_insert_rec_bt [OF 2(3) one assms(2,4) in_bounds_None bt_height_lim [OF 2(3) assms(2,3)], of key cnt] by auto
  show thesis
  proof (cases split)
    case None
    then show thesis
      using r 2 by (intro that [of "Some n" new]) (auto simp: bp_insert_def act_defs bindS_def tree_rep_def node_at_def)
  next
    case (Some p)
    then obtain sep right where s: "split = Some (sep, right)" by (cases p) auto
    then have "bt P st ord 1 (Suc h) None None (InternalNode [sep] [new, right]) (kv_upd key x xs)"
      using r(2) assms(2) by (auto simp: bt_node_iff)
    then have "tree_rep P st ord (internal_ref [sep] [new, right]) (kv_upd key x xs)" by (auto simp: tree_rep_def)
    then show thesis
      using r 2 s by (intro that [of "Some n" "internal_ref [sep] [new, right]"])
        (simp_all add: bp_insert_def act_defs bindS_def internal_ref_def)
  qed
qed

lemma bp_delete_tree:
  assumes "tree_rep P st ord r xs" "3 \<le> ord" "length xs < 2 ^ lim"
  obtains node where "bref_get P st r = Inr node"
    "key \<notin> fst ` set xs \<Longrightarrow> bp_delete P st (ord div 2) lim node key cnt = (Inl KeyError, cnt)"
    "key \<in> fst ` set xs \<Longrightarrow> \<exists>r'. bp_delete P st (ord div 2) lim node key cnt = (Inr r', cnt - 1)
       \<and> tree_rep P st ord r' (kv_del key xs)"
  using assms(1)
proof (cases rule: tree_rep_cases)
  case 1
  then show thesis by (intro that [of None]) (simp_all add: bp_delete_def act_defs)
next
  case (2 n h)
  have d: "if key \<in> fst ` set xs
   then \<exists>r n'. bp_delete_rec P st (ord div 2) lim n key cnt = (Inr r, cnt - 1)
     \<and> node_at P st r n' \<and> bt P st ord (1 - 1) h None None n' (kv_del key xs)
   else bp_delete_rec P st (ord div 2) lim n key cnt = (Inl KeyError, cnt)"
    using bp_delete_rec_bt [OF 2(3) _ assms(2) _ bt_height_lim [OF 2(3) assms(2,3)], of key cnt] by simp
  show thesis
  proof (rule that [OF 2(2)])
    show "bp_delete P st (ord div 2) lim (Some n) key cnt = (Inl KeyError, cnt)" if "key \<notin> fst ` set xs"
      using d that by (simp add: bp_delete_def)
    show "\<exists>r'. bp_delete P st (ord div 2) lim (Some n) key cnt = (Inr r', cnt - 1)
       \<and> tree_rep P st ord r' (kv_del key xs)" if k: "key \<in> fst ` set xs"
    proof -
      obtain new n' where n': "bp_delete_rec P st (ord div 2) lim n key cnt = (Inr new, cnt - 1)"
        "node_at P st new n'" "bt P st ord 0 h None None n' (kv_del key xs)"
        using d k by auto
      have get: "bref_get P st new = Inr (Some n')" using n'(2) by (simp add: node_at_def)
      show ?thesis
      proof (cases "num_keys n' = 0")
        case False
        then have "bt P st ord 1 h None None n' (kv_del key xs)" using bt_weaken [OF n'(3), of 1] by simp
        then have "tree_rep P st ord new (kv_del key xs)" using n'(2) by (auto simp: tree_rep_def)
        then show ?thesis
          using False n'(1) get by (cases n') (auto simp: bp_delete_def act_defs bindS_def num_keys_def split: list.splits)
      next
        case True
        show ?thesis
        proof (cases n')
          case (LeafNode ks vs)
          then have "kv_del key xs = []" using n'(3) True by (simp add: bt_leaf_iff num_keys_def)
          then show ?thesis
            using n'(1) get True LeafNode by (simp add: bp_delete_def act_defs bindS_def num_keys_def tree_rep_def)
        next
          case (InternalNode ks cs)
          then obtain h' where "chain P st ord h' None [None] cs (kv_del key xs)"
            using n'(3) True by (auto simp: bt_node_iff num_keys_def)
          then obtain c m where c: "cs = [c]" "node_at P st c m" "bt P st ord (ord div 2) h' None None m (kv_del key xs)"
            by (auto simp: chain_Cons_iff)
          then have "bt P st ord 1 h' None None m (kv_del key xs)"
            using bt_min [OF c(3)] assms(2) by (intro bt_weaken [OF c(3)]) auto
          then have "tree_rep P st ord c (kv_del key xs)" using c(2) by (auto simp: tree_rep_def)
          then show ?thesis
            using n'(1) get True InternalNode c(1) by (simp add: bp_delete_def act_defs bindS_def num_keys_def py_nth_def)
        qed
      qed
    qed
  qed
qed

end
