(* ===== verification/BPlusStore.thy ===== *)
theory BPlusStore
  imports BPlusUpdate
begin

text \<open>
  Storing a B+ tree and the engine around it. Storing a tree only appends records, and what it
  stored is read back (\<open>bref_store_tree\<close>, under the assumption \<open>pickle_ok\<close> on the byte
  format): the B+ tree is a \<open>versioned_tree\<close>. \<open>bp_inv\<close> is the invariant of an open engine: the
  content of the last commit and the content with the staged writes; with it the B+ tree
  fulfils what \<open>logical_engine\<close> asks of a class below \<open>LogicalBase\<close>.
\<close>

lemma node_at_extends: "extends st st' \<Longrightarrow> node_at P st c n \<Longrightarrow> node_at P st' c n"
  by (cases c) (auto simp: node_at_def bindR_eq_Inr split: if_splits dest: extends_read)

lemma bt_extends:
  shows "bt P st ord m h lo hi n xs \<Longrightarrow> extends st st' \<Longrightarrow> bt P st' ord m h lo hi n xs"
    and "chain P st ord h lo bs cs xs \<Longrightarrow> extends st st' \<Longrightarrow> chain P st' ord h lo bs cs xs"
proof (induction rule: bt_chain.inducts)
  case (bt_leaf ks lo hi m xs vs)
  then show ?case using values_extends by (intro bt_chain.bt_leaf)
next
  case (bt_node h lo ks hi cs xs m)
  then show ?case by (intro bt_chain.bt_node)
next
  case (chain_cons lo b bs c n h xs cs ys)
  then show ?case using node_at_extends by (intro bt_chain.chain_cons)
qed simp

lemma tree_rep_extends: "extends st st' \<Longrightarrow> tree_rep P st ord r xs \<Longrightarrow> tree_rep P st' ord r xs"
  unfolding tree_rep_def using bt_extends(1) node_at_extends by blast

definition bref_addr :: "'k bref \<Rightarrow> 'k bref" where
  "bref_addr c = BPlusNodeRef None (bref_address c)"

fun node_addr :: "'k bnode \<Rightarrow> 'k bnode" where
  "node_addr (LeafNode ks vs) = LeafNode ks (map vref_addr vs)"
| "node_addr (InternalNode ks cs) = InternalNode ks (map bref_addr cs)"

lemma pickle_node: "pickle_ok P \<Longrightarrow> bytes_to_referent P (referent_to_bytes P n) = Inr (node_addr n)"
  by (cases n) (simp_all add: pickle_ok_def bytes_to_referent_def referent_to_bytes_def vref_addr_def bref_addr_def comp_def)

lemma bref_store_node:
  assumes n: "\<And>x n' st'. store_refs P n st = (x, n', st') \<Longrightarrow>
      stores x st st' (bt P st' ord m h lo hi (node_addr n') xs)"
    and "node_at P st c n" "bt P st ord m h lo hi n xs" "writable st" "pickle_ok P" "bref_store P c st = (x, c', st')"
  shows "stores x st st' (\<exists>n'. node_at P st' (bref_addr c') n' \<and> bt P st' ord m h lo hi n' xs)"
proof (cases c)
  case (BPlusNodeRef r a)
  show ?thesis
  proof (cases r)
    case None
    then show ?thesis
      using assms BPlusNodeRef by (auto simp: stores_def bref_addr_def intro: exI [of _ "[]"])
  next
    case (Some n1)
    then have c: "c = BPlusNodeRef (Some n) 0" using assms(2) BPlusNodeRef by (auto simp: node_at_def)
    obtain x1 n' st1 where s1: "store_refs P n st = (x1, n', st1)" by (cases "store_refs P n st")
    note one = n [OF s1]
    have st1: "writable st1" using stores_writable [OF one assms(4)] by auto
    show ?thesis
    proof (cases x1)
      case (Inl e)
      then show ?thesis using assms(6) s1 one by (auto simp: stores_def c)
    next
      case (Inr u)
      obtain x2 st2 where w: "storage_write (referent_to_bytes P n') st1 = (x2, st2)" by fastforce
      show ?thesis
        using st1 w
      proof (cases rule: storage_write_ok)
        case (1 a')
        then have "x = Inr ()" "c' = BPlusNodeRef (Some n') a'" "st' = st2" using assms(6) s1 w Inr by (auto simp: c)
        moreover have "node_at P st2 (BPlusNodeRef None a') (node_addr n')"
          using 1 pickle_node [OF assms(5)] by (auto simp: node_at_def layout_defs)
        moreover have "extends st1 st2" using 1(4) st1 appended_extends by (auto simp: writable_def)
        moreover have "stores (Inr ()) st1 st2 True" using 1(4) by (simp add: stores_def)
        moreover have "stores (Inr ()) st st1 (bt P st1 ord m h lo hi (node_addr n') xs)" using one Inr by simp
        ultimately show ?thesis
          using bt_extends(1) [of P st1 ord m h lo hi "node_addr n'" xs st2] stores_trans [of st st1]
          by (metis bref_addr_def bref_address.simps)
      next
        case 2
        then show ?thesis
          using assms(6) s1 w Inr one by (auto simp: stores_def c)
      qed
    qed
  qed
qed

lemma store_refs_ok:
  assumes P: "pickle_ok P"
  shows "bt P st ord m h lo hi n xs \<Longrightarrow> \<forall>st1 x n' st2. writable st1 \<longrightarrow> extends st st1 \<longrightarrow>
      store_refs P n st1 = (x, n', st2) \<longrightarrow> stores x st1 st2 (bt P st2 ord m h lo hi (node_addr n') xs)"
    and "chain P st ord h lo bs cs xs \<Longrightarrow> \<forall>st1 x cs' st2. writable st1 \<longrightarrow> extends st st1 \<longrightarrow>
      store_all (bref_store P) cs st1 = (x, cs', st2) \<longrightarrow>
      stores x st1 st2 (chain P st2 ord h lo bs (map bref_addr cs') xs)"
proof (induction rule: bt_chain.inducts)
  case (bt_leaf ks lo hi m xs vs)
  have leaf: "sorted_wrt (<) ks" "\<forall>k\<in>set ks. in_bounds lo hi k" "m \<le> length ks" "length ks \<le> ord"
    "length ks = length xs" and vs: "list_all2 (value_at st) vs xs" by fact+
  show ?case
  proof (intro allI impI)
    fix st1 x n' st2
    assume a: "writable st1" "extends st st1" "store_refs P (LeafNode ks vs) st1 = (x, n', st2)"
    then obtain vs' where s: "store_all vref_store vs st1 = (x, vs', st2)" "n' = LeafNode ks vs'"
      by (auto split: prod.splits)
    have "stores x st1 st2 (list_all2 (value_at st2) (map vref_addr vs') xs)"
      by (rule store_values_ok [OF s(1) a(1) values_extends [OF a(2) vs]])
    then show "stores x st1 st2 (bt P st2 ord m 1 lo hi (node_addr n') (zip ks xs))"
      using bt_chain.bt_leaf [OF leaf] s(2) by (auto simp: stores_def)
  qed
next
  case (bt_node h lo ks hi cs xs m)
  have ih: "\<forall>st1 x cs' st2. writable st1 \<longrightarrow> extends st st1 \<longrightarrow>
      store_all (bref_store P) cs st1 = (x, cs', st2) \<longrightarrow>
      stores x st1 st2 (chain P st2 ord h lo (map Some ks @ [hi]) (map bref_addr cs') xs)"
    and len: "m \<le> length ks" "length ks \<le> ord" by fact+
  show ?case
  proof (intro allI impI)
    fix st1 x n' st2
    assume a: "writable st1" "extends st st1" "store_refs P (InternalNode ks cs) st1 = (x, n', st2)"
    then obtain cs' where s: "store_all (bref_store P) cs st1 = (x, cs', st2)" "n' = InternalNode ks cs'"
      by (auto split: prod.splits)
    then have "stores x st1 st2 (chain P st2 ord h lo (map Some ks @ [hi]) (map bref_addr cs') xs)"
      using ih a by blast
    then show "stores x st1 st2 (bt P st2 ord m (Suc h) lo hi (node_addr n') xs)"
      using len bt_chain.bt_node s(2) by (auto simp: stores_def)
  qed
next
  case (chain_nil h lo)
  then show ?case by (auto simp: stores_def intro: exI [of _ "[]"])
next
  case (chain_cons lo b bs c n h xs cs ys)
  have lo: "lt_bound lo b" "b = None \<longrightarrow> bs = []" and c: "node_at P st c n" "bt P st ord (ord div 2) h lo b n xs"
    and ihx: "\<forall>st1 x n' st2. writable st1 \<longrightarrow> extends st st1 \<longrightarrow>
      store_refs P n st1 = (x, n', st2) \<longrightarrow> stores x st1 st2 (bt P st2 ord (ord div 2) h lo b (node_addr n') xs)"
    and ihy: "\<forall>st1 x cs' st2. writable st1 \<longrightarrow> extends st st1 \<longrightarrow>
      store_all (bref_store P) cs st1 = (x, cs', st2) \<longrightarrow>
      stores x st1 st2 (chain P st2 ord h b bs (map bref_addr cs') ys)" by fact+
  show ?case
  proof (intro allI impI)
    fix st1 x cs' st2
    assume a: "writable st1" "extends st st1" "store_all (bref_store P) (c # cs) st1 = (x, cs', st2)"
    obtain x1 c1 st' where s1: "bref_store P c st1 = (x1, c1, st')" by (cases "bref_store P c st1")
    have one: "stores x1 st1 st' (\<exists>n'. node_at P st' (bref_addr c1) n' \<and> bt P st' ord (ord div 2) h lo b n' xs)"
      using ihx a by (intro bref_store_node [OF _ node_at_extends [OF a(2) c(1)] bt_extends(1) [OF c(2) a(2)] a(1) P s1]) blast
    have st': "writable st'" "extends st1 st'" using stores_writable [OF one a(1)] by auto
    show "stores x st1 st2 (chain P st2 ord h lo (b # bs) (map bref_addr cs') (xs @ ys))"
    proof (cases x1)
      case (Inl e)
      then show ?thesis using a(3) s1 one by (auto simp: stores_def)
    next
      case (Inr u)
      obtain x2 cs2 st3 where s2: "store_all (bref_store P) cs st' = (x2, cs2, st3)" by (cases "store_all (bref_store P) cs st'")
      have rest: "stores x2 st' st3 (chain P st3 ord h b bs (map bref_addr cs2) ys)"
        using ihy st' extends_trans [OF a(2) st'(2)] s2 by blast
      have "stores x2 st1 st3 (chain P st3 ord h lo (b # bs) (map bref_addr (c1 # cs2)) (xs @ ys))"
      proof (rule stores_trans [OF _ rest])
        show "stores (Inr ()) st1 st' (\<exists>n'. node_at P st' (bref_addr c1) n' \<and> bt P st' ord (ord div 2) h lo b n' xs)"
          using one Inr by simp
        assume "\<exists>n'. node_at P st' (bref_addr c1) n' \<and> bt P st' ord (ord div 2) h lo b n' xs"
          and y: "chain P st3 ord h b bs (map bref_addr cs2) ys"
        then obtain n' where "node_at P st' (bref_addr c1) n'" "bt P st' ord (ord div 2) h lo b n' xs" by blast
        moreover have "extends st' st3" using stores_writable [OF rest st'(1)] by auto
        ultimately have "node_at P st3 (bref_addr c1) n'" "bt P st3 ord (ord div 2) h lo b n' xs"
          using node_at_extends bt_extends(1) by blast+
        then show "chain P st3 ord h lo (b # bs) (map bref_addr (c1 # cs2)) (xs @ ys)"
          using bt_chain.chain_cons [OF lo _ _ y] by simp
      qed
      moreover have "x = x2" "cs' = c1 # cs2" "st2 = st3" using a(3) s1 s2 Inr by auto
      ultimately show ?thesis by simp
    qed
  qed
qed

lemma bref_store_tree:
  assumes "pickle_ok P" "tree_rep P st ord r xs" "writable st" "bref_store P r st = (x, r', st')"
  shows "stores x st st' (tree_rep P st' ord (bref_addr r') xs)"
  using assms(2)
proof (cases rule: tree_rep_cases)
  case 1
  then show ?thesis using assms(4) by (auto simp: stores_def tree_rep_def bref_addr_def intro: exI [of _ "[]"])
next
  case (2 n h)
  have "stores x st st' (\<exists>n'. node_at P st' (bref_addr r') n' \<and> bt P st' ord 1 h None None n' xs)"
    using store_refs_ok(1) [OF assms(1) 2(3)] assms(3)
    by (intro bref_store_node [OF _ 2(1,3) assms(3,1,4)]) simp
  then show ?thesis by (auto simp: stores_def tree_rep_def)
qed

interpretation bpv: versioned_tree "\<lambda>st. tree_rep P st ord" "bref_store P" bref_address "BPlusNodeRef None" "pickle_ok P"
  for P :: "'k::linorder pickle" and ord :: nat
proof unfold_locales
  fix st st' :: storage and r and xs :: "('k \<times> bytes) list"
  show "extends st st' \<Longrightarrow> tree_rep P st ord r xs \<Longrightarrow> tree_rep P st' ord r xs" by (rule tree_rep_extends)
next
  fix st st' :: storage and r r' x and xs :: "('k \<times> bytes) list"
  show "pickle_ok P \<Longrightarrow> tree_rep P st ord r xs \<Longrightarrow> writable st \<Longrightarrow> bref_store P r st = (x, r', st')
    \<Longrightarrow> stores x st st' (tree_rep P st' ord (BPlusNodeRef None (bref_address r')) xs)"
    using bref_store_tree by (fastforce simp: bref_addr_def)
next
  fix st
  show "tree_rep P st ord (BPlusNodeRef None 0) []" by (simp add: tree_rep_def)
qed

section \<open>The engine\<close>

text \<open>The last commit is a B+ tree and its meta block has the number of its keys.\<close>

definition bp_committed ::
  "'k::linorder pickle \<Rightarrow> nat \<Rightarrow> meta \<Rightarrow> bytes \<Rightarrow> 'k content \<Rightarrow> bool" where
  "bp_committed P ord m f xs \<longleftrightarrow>
     committed (\<lambda>st. tree_rep P st ord) (BPlusNodeRef None) m f xs \<and> key_count m = int (length xs)"

text \<open>
  The state of an open engine: \<open>m\<close> and \<open>xs\<close> are the last commit and its content, \<open>ys\<close> the
  content with the writes staged since; without the lock there are none.
\<close>

definition bp_inv ::
  "'k::linorder pickle \<Rightarrow> 'k bplus_tree \<Rightarrow> meta \<Rightarrow> ('k \<times> bytes) list \<Rightarrow> ('k \<times> bytes) list \<Rightarrow> bool" where
  "bp_inv P s m xs ys \<longleftrightarrow>
     storage_inv (lstorage s) m \<and> durability (lstorage s) = DURABILITY_FULL
     \<and> 3 \<le> order s \<and> min_keys s = order s div 2
     \<and> bp_committed P (order s) m (live (disk (lstorage s))) xs
     \<and> tree_rep P (lstorage s) (order s) (tree_ref s) ys \<and> count s = int (length ys)
     \<and> (\<not> locked (lstorage s) \<longrightarrow> ys = xs)"

lemma bp_refresh_inv:
  "storage_inv (lstorage s) m \<Longrightarrow>
     bp_refresh s = (Inr (), s\<lparr>tree_ref := BPlusNodeRef None (root_address m), count := key_count m\<rparr>)"
  by (simp add: bp_refresh_def on_storage_def get_root_address_def get_key_count_def refresh_meta_inv act_defs bindS_def)

lemma bp_refresh_ok:
  assumes "bp_inv P s m xs ys"
  obtains s' where "bp_refresh s = (Inr (), s')" "bp_inv P s' m xs xs" "lstorage s' = lstorage s"
    "order s' = order s"
proof -
  let ?s = "s\<lparr>tree_ref := BPlusNodeRef None (root_address m), count := key_count m\<rparr>"
  have "tree_rep P (lstorage s) (order s) (BPlusNodeRef None (root_address m)) xs"
    using assms by (intro bpv.committed_live) (simp add: bp_inv_def bp_committed_def)
  then have "bp_inv P ?s m xs xs" using assms by (simp add: bp_inv_def bp_committed_def)
  then show thesis using assms by (intro that [of ?s]) (auto simp: bp_inv_def bp_refresh_inv)
qed

lemma bp_inv_lock: "bp_inv P s m xs ys \<Longrightarrow> bp_inv P (s\<lparr>lstorage := lstorage s\<lparr>locked := True\<rparr>\<rparr>) m xs ys"
  by (auto simp: bp_inv_def storage_inv_def read_best_meta_file intro: tree_rep_extends [rotated] simp: extends_def)

definition bp_rep ::
  "'k::linorder pickle \<Rightarrow> nat \<Rightarrow> nat \<Rightarrow> 'k bplus_tree \<Rightarrow> 'k content \<Rightarrow> 'k content \<Rightarrow> bool" where
  "bp_rep P ord lim s xs ys \<longleftrightarrow> (\<exists>m. bp_inv P s m xs ys) \<and> order s = ord \<and> 0 < lim \<and> length xs < 2 ^ lim \<and> length ys < 2 ^ lim"

lemma bp_repI:
  "bp_inv P s m xs ys \<Longrightarrow> order s = ord \<Longrightarrow> 0 < lim \<Longrightarrow> length xs < 2 ^ lim \<Longrightarrow> length ys < 2 ^ lim
    \<Longrightarrow> bp_rep P ord lim s xs ys"
  by (auto simp: bp_rep_def)

lemma bplus_class_simps [simp]:
  "refresh_tree_ref (bplus_class P lim) = bp_refresh"
  "follow (bplus_class P lim) = bref_get P"
  "get_node (bplus_class P lim) s = bp_get P (lstorage s) lim"
  "insert_node (bplus_class P lim) node key v s = on_count (bp_insert P (lstorage s) (order s) lim node key v) s"
  "delete_node (bplus_class P lim) node key s = on_count (bp_delete P (lstorage s) (min_keys s) lim node key) s"
  "items_node (bplus_class P lim) s = bp_items P (lstorage s) lim"
  "range_node (bplus_class P lim) s node start stop = bp_range P (lstorage s) lim start stop node"
  by (simp_all add: bplus_class_def)

lemma bp_inv_update:
  "bp_inv P s m xs ys \<Longrightarrow> locked (lstorage s) \<Longrightarrow> tree_rep P (lstorage s) (order s) r zs \<Longrightarrow> n = int (length zs)
    \<Longrightarrow> bp_inv P (s\<lparr>count := n, tree_ref := r\<rparr>) m xs zs"
  by (simp add: bp_inv_def)

lemma bp_repE:
  assumes "bp_rep P ord lim s xs ys"
  obtains m where "bp_inv P s m xs ys" "order s = ord" "0 < lim" "length xs < 2 ^ lim" "length ys < 2 ^ lim"
    "tree_rep P (lstorage s) ord (tree_ref s) ys" "3 \<le> ord" "count s = int (length ys)" "min_keys s = ord div 2"
  using assms by (auto simp: bp_rep_def bp_inv_def)

text \<open>A write of the tree, taken over into the state.\<close>

lemma bp_rep_update:
  assumes "bp_rep P ord lim s xs ys" "locked (lstorage s)" "tree_rep P (lstorage s) ord r zs"
    and "n = int (length zs)" "length zs < 2 ^ lim"
  shows "bp_rep P ord lim (s\<lparr>count := n, tree_ref := r\<rparr>) xs zs"
proof (rule bp_repE [OF assms(1)])
  fix m
  assume m: "bp_inv P s m xs ys" "order s = ord" "0 < lim" "length xs < 2 ^ lim"
  have "bp_inv P (s\<lparr>count := n, tree_ref := r\<rparr>) m xs zs"
    by (rule bp_inv_update [OF m(1) assms(2) _ assms(4)]) (simp add: m assms(3))
  then show ?thesis by (rule bp_repI) (simp_all add: m assms)
qed

lemma bp_insert_law:
  assumes rep: "bp_rep P ord lim s xs ys" and l: "locked (lstorage s)" and len: "Suc (length ys) < 2 ^ lim"
    and node: "bref_get P (lstorage s) (tree_ref s) = Inr node"
  shows "\<exists>r s'. on_count (bp_insert P (lstorage s) (order s) lim node k (ValueRef (Some v) 0)) s = (Inr r, s')
    \<and> bp_rep P ord lim (s'\<lparr>tree_ref := r\<rparr>) xs (kv_upd k v ys) \<and> lstorage s' = lstorage s"
proof (rule bp_repE [OF rep])
  assume s: "order s = ord" "3 \<le> ord" "count s = int (length ys)" "tree_rep P (lstorage s) ord (tree_ref s) ys"
  have v: "value_at (lstorage s) (ValueRef (Some v) 0) v" by (simp add: value_at_def)
  let ?n = "if k \<in> fst ` set ys then count s else count s + 1"
  obtain r where r: "bp_insert P (lstorage s) ord lim node k (ValueRef (Some v) 0) (count s) = (Inr r, ?n)"
    "tree_rep P (lstorage s) ord r (kv_upd k v ys)"
    using bp_insert_tree [OF s(4,2) _ v, of lim k "count s"] len node by (metis Inr_inject Suc_lessD)
  have n: "?n = int (length (kv_upd k v ys))"
    using length_kv_upd [OF tree_rep_sorted [OF s(4)], of k v] s(3) by simp
  have "length (kv_upd k v ys) < 2 ^ lim" using n len s(3) by (simp split: if_splits)
  then have "bp_rep P ord lim (s\<lparr>count := ?n, tree_ref := r\<rparr>) xs (kv_upd k v ys)"
    by (rule bp_rep_update [OF rep l r(2) n])
  with r(1) s(1) show ?thesis by (intro exI [of _ r] exI [of _ "s\<lparr>count := ?n\<rparr>"]) (simp add: on_count_def split del: if_split)
qed

lemma bp_delete_law:
  assumes rep: "bp_rep P ord lim s xs ys" and l: "locked (lstorage s)" and k: "k \<in> fst ` set ys"
    and node: "bref_get P (lstorage s) (tree_ref s) = Inr node"
  shows "\<exists>r s'. on_count (bp_delete P (lstorage s) (min_keys s) lim node k) s = (Inr r, s')
    \<and> bp_rep P ord lim (s'\<lparr>tree_ref := r\<rparr>) xs (kv_del k ys) \<and> lstorage s' = lstorage s"
proof (rule bp_repE [OF rep])
  assume s: "order s = ord" "3 \<le> ord" "count s = int (length ys)" "tree_rep P (lstorage s) ord (tree_ref s) ys"
    "min_keys s = ord div 2" "length ys < 2 ^ lim"
  obtain r where r: "bp_delete P (lstorage s) (ord div 2) lim node k (count s) = (Inr r, count s - 1)"
    "tree_rep P (lstorage s) ord r (kv_del k ys)"
    using bp_delete_tree [OF s(4,2,6), of k "count s"] node k by (metis Inr_inject)
  have "ys \<noteq> []" using k by auto
  then have n: "count s - 1 = int (length (kv_del k ys))"
    using k s(3) by (cases ys) (auto simp: length_kv_del)
  have "length (kv_del k ys) < 2 ^ lim" using s(6) by (auto simp: length_kv_del)
  then have "bp_rep P ord lim (s\<lparr>count := count s - 1, tree_ref := r\<rparr>) xs (kv_del k ys)"
    by (rule bp_rep_update [OF rep l r(2) n])
  then show ?thesis using r(1) s(5) by (simp add: on_count_def)
qed

lemma bp_delete_missing_law:
  assumes rep: "bp_rep P ord lim s xs ys" and k: "k \<notin> fst ` set ys"
    and node: "bref_get P (lstorage s) (tree_ref s) = Inr node"
  shows "on_count (bp_delete P (lstorage s) (min_keys s) lim node k) s = (Inl KeyError, s)"
proof (rule bp_repE [OF rep])
  assume s: "3 \<le> ord" "tree_rep P (lstorage s) ord (tree_ref s) ys" "min_keys s = ord div 2" "length ys < 2 ^ lim"
  have "bp_delete P (lstorage s) (ord div 2) lim node k (count s) = (Inl KeyError, count s)"
    using bp_delete_tree [OF s(2,1,4), of k "count s"] node k by (metis Inr_inject)
  then show ?thesis using s(3) by (simp add: on_count_def)
qed

lemma bp_read_law:
  assumes "bp_rep P ord lim s xs ys"
  shows "\<exists>node. bref_get P (lstorage s) (tree_ref s) = Inr node
      \<and> bp_get P (lstorage s) lim node k = lookup_result (map_of ys) k
      \<and> bp_items P (lstorage s) lim node = Inr (somes ys)
      \<and> bp_range P (lstorage s) lim a b node = Inr (somes (filter (in_range a b) ys))"
proof (rule bp_repE [OF assms])
  assume s: "tree_rep P (lstorage s) ord (tree_ref s) ys" "3 \<le> ord" "length ys < 2 ^ lim" "0 < lim"
  obtain node where "bref_get P (lstorage s) (tree_ref s) = Inr node"
    using s(1) by (auto elim: tree_rep_cases)
  then show ?thesis
    using bp_get_tree [OF s, of k] bp_items_tree [OF s] bp_range_tree [OF s, of a b] by simp
qed

lemma bp_refresh_law:
  assumes "bp_rep P ord lim s xs ys"
  shows "\<exists>s'. bp_refresh s = (Inr (), s') \<and> bp_rep P ord lim s' xs xs \<and> lstorage s' = lstorage s"
proof (rule bp_repE [OF assms])
  fix m
  assume m: "bp_inv P s m xs ys" "order s = ord" "0 < lim" "length xs < 2 ^ lim"
  obtain s' where "bp_refresh s = (Inr (), s')" "bp_inv P s' m xs xs" "lstorage s' = lstorage s" "order s' = order s"
    by (rule bp_refresh_ok [OF m(1)])
  then show ?thesis using m by (intro exI [of _ s']) (auto intro: bp_repI)
qed

interpretation bpl: logical_engine "bplus_class P lim" "bp_rep P ord lim" "2 ^ lim"
  for P :: "'k::linorder pickle" and ord lim :: nat
proof (unfold_locales, unfold bplus_class_simps, goal_cases)
  case 1
  then show ?case by (auto simp: bp_rep_def bp_inv_def)
next
  case 2
  then show ?case by (rule bp_refresh_law)
next
  case 3
  then show ?case by (auto simp: bp_rep_def intro: bp_inv_lock)
next
  case 4
  then show ?case by (rule bp_read_law)
next
  case 5
  then show ?case by (rule bp_insert_law)
next
  case 6
  then show ?case by (rule bp_delete_law)
next
  case 7
  then show ?case using bp_delete_missing_law by blast
qed

lemmas bp_refresh_when_unlocked = bpl.refresh_when_unlocked [unfolded bplus_class_simps(1)]

lemma bp_length_ok:
  assumes "bp_rep P ord lim s xs ys"
  obtains s' where "bp_length s = (Inr (int (length ys)), s')" "bp_rep P ord lim s' xs ys" "lstorage s' = lstorage s"
proof -
  obtain s' where s': "whenS (\<not> locked (lstorage s)) bp_refresh s = (Inr (), s')"
    "bp_rep P ord lim s' xs ys" "lstorage s' = lstorage s"
    by (rule bp_refresh_when_unlocked [OF assms])
  have "count s' = int (length ys)" using s'(2) by (auto simp: bp_rep_def bp_inv_def)
  then have "bp_length s = (Inr (int (length ys)), s')"
    using s'(1) by (simp add: bp_length_def bindS_def gets_def)
  then show thesis using s' by (intro that)
qed

end
