(* ===== verification/PickleInstance.thy ===== *)
theory PickleInstance
  imports Logical
begin

text \<open>
  A byte format that satisfies \<open>pickle_ok\<close>, the instance at which the witnesses of the
  theorems about stored trees are taken: an object is a list of naturals, and a natural is
  so many ones and a zero.
\<close>

fun put_nats :: "nat list \<Rightarrow> bytes" where
  "put_nats [] = []"
| "put_nats (n # ns) = replicate n 1 @ 0 # put_nats ns"

fun get_nats :: "nat \<Rightarrow> bytes \<Rightarrow> nat list" where
  "get_nats n [] = []"
| "get_nats n (b # bs) = (if b = 0 then n # get_nats 0 bs else get_nats (Suc n) bs)"

lemma get_nats_ones: "get_nats n (replicate k 1 @ 0 # bs) = (n + k) # get_nats 0 bs"
  by (induction k arbitrary: n) auto

lemma get_put_nats: "get_nats 0 (put_nats ns) = ns"
  by (induction ns) (simp_all add: get_nats_ones)

fun pickled_nats :: "('k \<Rightarrow> nat) \<Rightarrow> 'k pickled \<Rightarrow> nat list" where
  "pickled_nats f (PLeaf ks as) = 0 # length ks # map f ks @ as"
| "pickled_nats f (PInternal ks as) = 1 # length ks # map f ks @ as"
| "pickled_nats f (PBinary l k v r n) = [2, l, f k, v, r, if n < 0 then 1 else 0, nat \<bar>n\<bar>]"

fun nats_pickled :: "(nat \<Rightarrow> 'k) \<Rightarrow> nat list \<Rightarrow> 'k pickled result" where
  "nats_pickled g (t # n # ns) =
     (if t = 0 then Inr (PLeaf (map g (take n ns)) (drop n ns))
      else if t = 1 then Inr (PInternal (map g (take n ns)) (drop n ns))
      else case ns of
             [k, v, r, s, m] \<Rightarrow> Inr (PBinary n (g k) v r (if s = 1 then - int m else int m))
           | _ \<Rightarrow> Inl UnpicklingError)"
| "nats_pickled g _ = Inl UnpicklingError"

definition unary_pickle :: "('k \<Rightarrow> nat) \<Rightarrow> (nat \<Rightarrow> 'k) \<Rightarrow> 'k pickle" where
  "unary_pickle f g = \<lparr>dumps = put_nats \<circ> pickled_nats f, loads = nats_pickled g \<circ> get_nats 0\<rparr>"

lemma unary_pickle_ok: "(\<And>k. g (f k) = k) \<Longrightarrow> pickle_ok (unary_pickle f g)"
proof -
  assume inv: "\<And>k. g (f k) = k"
  then have "map g (map f ks) = ks" for ks by (simp add: comp_def)
  then have "nats_pickled g (pickled_nats f x) = Inr x" for x
    using inv by (cases x) (simp_all add: comp_def)
  then show ?thesis by (simp add: pickle_ok_def unary_pickle_def get_put_nats)
qed

text \<open>Keys that are strings, as numbers.\<close>

fun str_nat :: "string \<Rightarrow> nat" where
  "str_nat [] = 0"
| "str_nat (c # cs) = 1 + of_char c + 256 * str_nat cs"

fun nat_str :: "nat \<Rightarrow> string" where
  "nat_str n = (if n = 0 then [] else char_of ((n - 1) mod 256) # nat_str ((n - 1) div 256))"

declare nat_str.simps [simp del]

lemma nat_str_nat: "nat_str (str_nat s) = s"
proof (induction s)
  case (Cons c cs)
  show ?case
    by (subst str_nat.simps, subst nat_str.simps) (simp add: Cons)
qed (simp add: nat_str.simps)

definition string_pickle :: "string pickle" where
  "string_pickle = unary_pickle str_nat nat_str"

lemma string_pickle_ok: "pickle_ok string_pickle"
  unfolding string_pickle_def by (rule unary_pickle_ok) (rule nat_str_nat)

definition nat_pickle :: "nat pickle" where
  "nat_pickle = unary_pickle id id"

lemma nat_pickle_ok: "pickle_ok nat_pickle"
  unfolding nat_pickle_def by (rule unary_pickle_ok) simp

end
