(* ===== verification/BPlusEngine.thy ===== *)
theory BPlusEngine
  imports BPlusStore PickleInstance
begin

text \<open>
  The B+ tree as an index engine: committing and opening, and the interpretation of the
  contract \<open>index_engine\<close> on the operations of the model.
\<close>

section \<open>Opening\<close>

text \<open>Opening a database on the bytes of a file: \<open>Storage(fileobj)\<close>, then \<open>BPlusTree(storage)\<close>.\<close>

definition bp_open :: "nat \<Rightarrow> bytes \<Rightarrow> unit result \<times> 'k bplus_tree" where
  "bp_open ord f =
     (case Storage (SimDisk f) DURABILITY_FULL False of
        (Inl e, st) \<Rightarrow>
          (Inl e, \<lparr>lstorage = st, tree_ref = BPlusNodeRef None 0, order = ord, min_keys = ord div 2, count = 0\<rparr>)
      | (Inr _, st) \<Rightarrow> BPlusTree st ord)"

lemma BPlusTree_inv:
  assumes "storage_inv st m" "durability st = DURABILITY_FULL" "bp_committed P ord m (live (disk st)) xs" "3 \<le> ord"
  obtains s where "BPlusTree st ord = (Inr (), s)" "bp_inv P s m xs xs" "order s = ord" "lstorage s = st"
proof -
  let ?s = "\<lparr>lstorage = st, tree_ref = BPlusNodeRef None (root_address m), order = ord, min_keys = ord div 2, count = key_count m\<rparr>"
  have "tree_rep P st ord (BPlusNodeRef None (root_address m)) xs"
    using assms(3) by (intro bpv.committed_live) (simp add: bp_committed_def)
  then have "bp_inv P ?s m xs xs" using assms by (simp add: bp_inv_def bp_committed_def)
  then show thesis using assms by (intro that [of ?s]) (simp_all add: BPlusTree_def Let_def bp_refresh_inv)
qed

lemma bp_open_recovers:
  assumes "storage_inv st m" "bp_committed P ord m (live (disk st)) xs" "3 \<le> ord"
    and "data_length m \<le> length f" "take (data_length m) f = take (data_length m) (live (disk st))"
  obtains s where "bp_open ord f = (Inr (), s)" "bp_inv P s m xs xs" "order s = ord"
    "\<not> locked (lstorage s)" "crash_at_flush (disk (lstorage s)) = None"
    "live (disk (lstorage s)) = take (data_length m) f" "\<not> closed (disk (lstorage s))"
proof -
  have c: "committed (\<lambda>st. tree_rep P st ord) (BPlusNodeRef None) m (live (disk st)) xs"
    using assms(2) by (simp add: bp_committed_def)
  obtain st' where st':
    "Storage (SimDisk f) DURABILITY_FULL False = (Inr (), st')" "live (disk st') = take (data_length m) f"
    "storage_inv st' m" "\<not> locked st'" "durability st' = DURABILITY_FULL" "crash_at_flush (disk st') = None" "\<not> closed (disk st')"
    "committed (\<lambda>st. tree_rep P st ord) (BPlusNodeRef None) m (live (disk st')) xs"
    by (rule bpv.reopen [OF assms(1) c assms(4,5)])
  then have "bp_committed P ord m (live (disk st')) xs" using assms(2) by (simp add: bp_committed_def)
  then obtain s where s: "BPlusTree st' ord = (Inr (), s)" "bp_inv P s m xs xs" "order s = ord" "lstorage s = st'"
    by (rule BPlusTree_inv [OF st'(3,5) _ assms(3)])
  show thesis using st' s by (intro that [of s]) (simp_all add: bp_open_def)
qed

lemma bp_reopen:
  assumes "bp_inv P s m xs ys" "order s = ord" "recoverable m (lstorage s) st'"
  obtains s' where "bp_open ord (durable_bytes (disk st')) = (Inr (), s')" "bp_inv P s' m xs xs" "order s' = ord"
    "later_file (lstorage s) (lstorage s')" "\<not> closed (disk (lstorage s'))" "crash_at_flush (disk (lstorage s')) = None"
proof -
  have i: "storage_inv (lstorage s) m" "bp_committed P ord m (live (disk (lstorage s))) xs" "3 \<le> ord"
    "data_length m \<le> length (durable (disk st'))"
    "take (data_length m) (durable (disk st')) = take (data_length m) (live (disk (lstorage s)))"
    using assms by (auto simp: bp_inv_def recoverable_def)
  obtain s' where s': "bp_open ord (durable (disk st')) = (Inr (), s')" "bp_inv P s' m xs xs" "order s' = ord"
    "live (disk (lstorage s')) = take (data_length m) (durable (disk st'))" "\<not> closed (disk (lstorage s'))"
    "crash_at_flush (disk (lstorage s')) = None"
    by (rule bp_open_recovers [OF i])
  have "later_file (lstorage s) (lstorage s')"
    by (rule later_file_reopen [OF i(1) assms(3) s'(4)]) (use s'(2) in \<open>simp_all add: bp_inv_def\<close>)
  then show thesis using s' by (intro that [of s']) (simp_all add: durable_bytes_def)
qed

section \<open>Commit\<close>

lemma bp_commit_eq:
  assumes "bref_store P (tree_ref s) (lstorage s) = (x, r, st1)"
  shows "bp_commit P s =
    (case x of Inl e \<Rightarrow> (Inl e, s\<lparr>lstorage := st1, tree_ref := r\<rparr>)
     | Inr _ \<Rightarrow>
       (case commit_root_address (bref_address r) (count s) st1 of
          (Inl e, st2) \<Rightarrow> (Inl e, s\<lparr>tree_ref := r, lstorage := st2\<rparr>)
        | (Inr _, st2) \<Rightarrow> bp_refresh (s\<lparr>tree_ref := r, lstorage := st2\<rparr>)))"
  using assms by (simp add: bp_commit_def bindS_def lift_def gets_def on_storage_def split: prod.splits sum.splits)

lemma bp_commit_ok:
  assumes rep: "bp_rep P ord lim s xs ys" and P: "pickle_ok P"
  obtains (ok) s' where "bp_commit P s = (Inr (), s')" "bp_rep P ord lim s' ys ys" "\<not> locked (lstorage s')"
      "crash_at_flush (disk (lstorage s')) = crash_at_flush (disk (lstorage s))"
      "later_file (lstorage s) (lstorage s')" "closed (disk (lstorage s')) = closed (disk (lstorage s))"
      "records (drop SUPERBLOCK_SIZE (live (disk (lstorage s))))
        \<Longrightarrow> records (drop SUPERBLOCK_SIZE (live (disk (lstorage s'))))" "full_file (lstorage s')"
      "flushed_twice (disk (lstorage s)) (disk (lstorage s'))"
  | (fails) e s' s'' where "bp_commit P s = (Inl e, s')" "e = StructError \<or> e = SimCrash"
      "bp_open ord (durable_bytes (disk (lstorage s'))) = (Inr (), s'')" "bp_rep P ord lim s'' xs xs"
      "e = SimCrash \<Longrightarrow> crash_at_flush (disk (lstorage s)) \<noteq> None" "later_file (lstorage s) (lstorage s'')"
      "\<not> closed (disk (lstorage s''))" "e = SimCrash \<Longrightarrow> crashes_soon (disk (lstorage s))"
      "crash_at_flush (disk (lstorage s'')) = None"
proof (rule bp_repE [OF rep])
  fix m
  assume m: "bp_inv P s m xs ys" and lims: "order s = ord" "0 < lim" "length xs < 2 ^ lim" "length ys < 2 ^ lim"
    and t: "tree_rep P (lstorage s) ord (tree_ref s) ys" "3 \<le> ord" "count s = int (length ys)" "min_keys s = ord div 2"
  have inv: "storage_inv (lstorage s) m" "durability (lstorage s) = DURABILITY_FULL"
    using m by (auto simp: bp_inv_def)
  obtain x r st1 where st: "bref_store P (tree_ref s) (lstorage s) = (x, r, st1)"
    by (cases "bref_store P (tree_ref s) (lstorage s)")
  have again: thesis if A: "bp_commit P s = (Inl e, s')" "e = StructError \<or> e = SimCrash"
      "recoverable m (lstorage s) (lstorage s')"
      "e = SimCrash \<longrightarrow> crash_at_flush (disk (lstorage s)) \<noteq> None"
      "e = SimCrash \<longrightarrow> crashes_soon (disk (lstorage s))" for e s'
  proof -
    obtain s'' where "bp_open ord (durable_bytes (disk (lstorage s'))) = (Inr (), s'')" "bp_inv P s'' m xs xs" "order s'' = ord"
      "later_file (lstorage s) (lstorage s'')" "\<not> closed (disk (lstorage s''))" "crash_at_flush (disk (lstorage s'')) = None"
      by (rule bp_reopen [OF m lims(1) A(3)])
    then show thesis using fails [OF A(1,2)] A(4,5) lims bp_repI by blast
  qed
  show thesis
    using P inv t(1) st
  proof (cases rule: bpv.store_and_commit [where n = "count s"])
    case (ok st2 new)
    let ?s = "s\<lparr>lstorage := st2, tree_ref := BPlusNodeRef None (root_address new), count := key_count new\<rparr>"
    have c: "bp_commit P s = (Inr (), ?s)"
      using ok bp_refresh_inv [of "s\<lparr>tree_ref := r, lstorage := st2\<rparr>" new] by (simp add: bp_commit_eq [OF st])
    have "tree_rep P st2 ord (BPlusNodeRef None (root_address new)) ys" by (rule bpv.committed_live [OF ok(6)])
    then have "bp_inv P ?s new ys ys" using ok t lims by (simp add: bp_inv_def bp_committed_def)
    then show thesis using c ok lims by (intro that(1) [of ?s] bp_repI) simp_all
  next
    case store_fails
    then show thesis
      by (intro again [of StructError "s\<lparr>lstorage := st1, tree_ref := r\<rparr>"]) (simp_all add: bp_commit_eq [OF st])
  next
    case (commit_fails e st2)
    then show thesis
      by (intro again [of e "s\<lparr>tree_ref := r, lstorage := st2\<rparr>"]) (simp_all add: bp_commit_eq [OF st])
  qed
qed

section \<open>The contract\<close>

text \<open>The methods of \<open>BPlusTree\<close> on a file, as \<open>INDEX_CLASSES["bplus"]\<close> offers them.\<close>

definition bplus_ops :: "'k::linorder pickle \<Rightarrow> nat \<Rightarrow> nat \<Rightarrow> ('k bplus_tree, 'k) index_ops" where
  "bplus_ops P ord lim =
     \<lparr>op_get = logical_get (bplus_class P lim),
      op_set = logical_set (bplus_class P lim),
      op_delete = logical_delete (bplus_class P lim),
      op_items = logical_items (bplus_class P lim),
      op_range = logical_range_items (bplus_class P lim),
      op_length = bp_length,
      op_commit = bp_commit P,
      op_open = bp_open ord,
      op_image = (\<lambda>s. durable_bytes (disk (lstorage s))),
      op_arm = (\<lambda>n s. s\<lparr>lstorage := (lstorage s)\<lparr>disk := arm_crash n (disk (lstorage s))\<rparr>\<rparr>)\<rparr>"

definition bp_state ::
  "'k::linorder pickle \<Rightarrow> nat \<Rightarrow> nat \<Rightarrow> 'k bplus_tree \<Rightarrow> 'k content \<Rightarrow> 'k content \<Rightarrow> bool" where
  "bp_state P ord lim s xs ys \<longleftrightarrow> pickle_ok P \<and> bp_rep P ord lim s xs ys"

lemmas bp_ops_simps = bp_state_def bplus_ops_def reopened_def flushes_left_None

lemma bp_stateD: "bp_state P ord lim s xs ys \<Longrightarrow> pickle_ok P" "bp_state P ord lim s xs ys \<Longrightarrow> bp_rep P ord lim s xs ys"
  by (simp_all add: bp_state_def)

lemma bp_rep_sorted: "bp_rep P ord lim s xs ys \<Longrightarrow> kv_sorted xs \<and> kv_sorted ys"
  by (auto simp: bp_rep_def bp_inv_def bp_committed_def committed_def dest: tree_rep_sorted)

lemma bp_rep_reopen:
  assumes "bp_rep P ord lim s xs ys"
  obtains s' where "bp_open ord (durable_bytes (disk (lstorage s))) = (Inr (), s')" "bp_rep P ord lim s' xs xs"
    "later_file (lstorage s) (lstorage s')" "\<not> closed (disk (lstorage s'))" "crash_at_flush (disk (lstorage s')) = None"
proof -
  obtain m where m: "bp_inv P s m xs ys" "order s = ord" using assms by (auto simp: bp_rep_def)
  have "recoverable m (lstorage s) (lstorage s)" using m(1) by (intro storage_inv_recoverable) (auto simp: bp_inv_def)
  then obtain s' where "bp_open ord (durable_bytes (disk (lstorage s))) = (Inr (), s')" "bp_inv P s' m xs xs" "order s' = ord"
    "later_file (lstorage s) (lstorage s')" "\<not> closed (disk (lstorage s'))" "crash_at_flush (disk (lstorage s')) = None"
    by (rule bp_reopen [OF m])
  then show thesis using assms by (intro that [of s'] bp_repI) (auto simp: bp_rep_def)
qed

lemma bp_rep_arm:
  "bp_rep P ord lim s xs ys \<Longrightarrow> bp_rep P ord lim (s\<lparr>lstorage := (lstorage s)\<lparr>disk := arm_crash n (disk (lstorage s))\<rparr>\<rparr>) xs ys"
proof -
  assume "bp_rep P ord lim s xs ys"
  then obtain m where m: "bp_inv P s m xs ys" "order s = ord" "0 < lim" "length xs < 2 ^ lim" "length ys < 2 ^ lim"
    by (auto simp: bp_rep_def)
  let ?st = "(lstorage s)\<lparr>disk := arm_crash n (disk (lstorage s))\<rparr>"
  have "extends (lstorage s) ?st" by (simp add: extends_def arm_crash_def)
  moreover have "storage_inv ?st m" using m(1) by (auto simp: bp_inv_def storage_inv_def read_best_meta_file arm_crash_def)
  ultimately have "bp_inv P (s\<lparr>lstorage := ?st\<rparr>) m xs ys"
    using m(1,2) bpv.later [of "lstorage s" ?st P ord] by (auto simp: bp_inv_def arm_crash_def)
  then show ?thesis using m by (intro bp_repI) simp_all
qed

interpretation bp: index_engine "bplus_ops P ord lim" "bp_state P ord lim" "2 ^ lim" lstorage
  for P :: "'k::linorder pickle" and ord lim :: nat
proof (unfold_locales, goal_cases)
  case (1 s xs ys)
  then show ?case using bp_rep_sorted [of P ord lim s xs ys] by (simp add: bp_state_def)
next
  case (2 s xs ys k)
  show ?case by (rule bpl.get_ok [OF bp_stateD(2) [OF 2], of k]) (use bp_stateD(1) [OF 2] in \<open>auto simp: bp_ops_simps\<close>)
next
  case (3 s xs ys k v)
  show ?case by (rule bpl.set_ok [OF bp_stateD(2) [OF 3(1)] 3(2), of k v]) (use bp_stateD(1) [OF 3(1)] in \<open>auto simp: bp_ops_simps\<close>)
next
  case (4 s xs ys k)
  show ?case by (rule bpl.delete_ok [OF bp_stateD(2) [OF 4], of k]) (use bp_stateD(1) [OF 4] in \<open>auto simp: bp_ops_simps\<close>)
next
  case (5 s xs ys)
  show ?case by (rule bpl.items_ok [OF bp_stateD(2) [OF 5]]) (use bp_stateD(1) [OF 5] in \<open>auto simp: bp_ops_simps\<close>)
next
  case (6 s xs ys a b)
  show ?case by (rule bpl.range_ok [OF bp_stateD(2) [OF 6], of a b]) (use bp_stateD(1) [OF 6] in \<open>auto simp: bp_ops_simps\<close>)
next
  case (7 s xs ys)
  show ?case by (rule bp_length_ok [OF bp_stateD(2) [OF 7]]) (use bp_stateD(1) [OF 7] in \<open>auto simp: bp_ops_simps\<close>)
next
  case (8 s xs ys)
  show ?case by (rule bp_commit_ok [OF bp_stateD(2,1) [OF 8]]) (use bp_stateD(1) [OF 8] in \<open>auto simp: bp_ops_simps\<close>)
next
  case (9 s xs ys)
  show ?case by (rule bp_rep_reopen [OF bp_stateD(2) [OF 9]]) (use bp_stateD(1) [OF 9] in \<open>auto simp: bp_ops_simps\<close>)
next
  case (10 s xs ys n)
  then show ?case using bp_rep_arm [of P ord lim s xs ys n] by (simp add: bp_ops_simps)
qed

lemma bp_open_fresh:
  assumes "length f < SUPERBLOCK_SIZE" "3 \<le> ord" "0 < lim"
  obtains s where "bp_open ord f = (Inr (), s)" "bp_rep P ord lim s [] []" "\<not> closed (disk (lstorage s))"
    "crash_at_flush (disk (lstorage s)) = None" "length (live (disk (lstorage s))) = SUPERBLOCK_SIZE"
proof -
  obtain st where st: "Storage (SimDisk f) DURABILITY_FULL False = (Inr (), st)" "storage_inv st (empty_meta 0)"
    "durability st = DURABILITY_FULL" "\<not> closed (disk st)" "crash_at_flush (disk st) = None" "length (live (disk st)) = SUPERBLOCK_SIZE"
    by (rule Storage_initialises [OF assms(1)])
  have "bp_committed P ord (empty_meta 0) (live (disk st)) []"
    using bpv.committed_empty by (simp add: bp_committed_def empty_meta_def)
  then obtain s where "BPlusTree st ord = (Inr (), s)" "bp_inv P s (empty_meta 0) [] []" "order s = ord" "lstorage s = st"
    by (rule BPlusTree_inv [OF st(2,3) _ assms(2)])
  then show thesis using st(1,4-6) assms by (intro that [of s] bp_repI) (simp_all add: bp_open_def)
qed

end
