(* ===== verification/BPlusAudit.thy ===== *)
theory BPlusAudit
  imports BPlusEngine
begin

text \<open>
  \<open>audit()\<close> on a represented B+ tree: it reports no error, and the counts and the height
  that it reports are those of the tree.
\<close>

definition counted :: "nat \<Rightarrow> nat \<Rightarrow> 'k audit_state \<Rightarrow> 'k audit_state" where
  "counted k n a = a\<lparr>as_nodes := as_nodes a + k, as_values := as_values a + n, as_leaf_keys := as_leaf_keys a + n\<rparr>"

lemma counted_counted: "counted k n (counted k' n' a) = counted (k' + k) (n' + n) a"
  by (simp add: counted_def)

lemma counted_0: "counted 0 0 a = a"
  by (simp add: counted_def)

lemma order_errors_sorted: "sorted_wrt (<) ks \<Longrightarrow> order_errors ks = []"
proof (induction ks)
  case (Cons k ks)
  then show ?case by (cases ks) (auto simp: order_errors_def)
qed (simp add: order_errors_def)

lemma bound_errors_in: "\<forall>k\<in>set ks. in_bounds lo hi k \<Longrightarrow> bound_errors lo hi ks = []"
  by (induction ks; cases lo; cases hi) (auto simp: bound_errors_def in_bounds.simps)

lemma size_errors_ok: "n \<le> ord \<Longrightarrow> is_root \<or> mk \<le> n \<Longrightarrow> size_errors ord mk is_root n = []"
  by (auto simp: size_errors_def)

lemma lt_bounds_in: "lt_bound lo (Some k) \<and> lt_bound (Some k) hi \<Longrightarrow> in_bounds lo hi k"
  by (cases lo; cases hi) (auto simp: in_bounds.simps)

lemma add_no_errors [simp]: "add_errors [] a = (Inr (), a)"
  by (simp add: add_errors_def modify_def)

lemma load_values_ok:
  "list_all2 (value_at st) vs xs \<Longrightarrow> length ks = length xs \<Longrightarrow>
     load_values st (zip ks vs) a = (Inr (), a\<lparr>as_values := as_values a + length xs\<rparr>)"
proof (induction ks arbitrary: vs xs a)
  case (Cons k ks)
  then obtain v vs' x xs' where e: "vs = v # vs'" "xs = x # xs'" "vref_get st v = Inr (Some x)"
    by (cases vs; cases xs) (auto simp: value_at_def)
  then show ?case
    using Cons.IH [of vs' xs' "a\<lparr>as_values := Suc (as_values a)\<rparr>"] Cons.prems by (simp add: bindS_def modify_def)
qed (simp add: ret_def)

lemma bp_check_bt:
  assumes o3: "3 \<le> ord"
  shows "bt P st ord m h lo hi n xs \<Longrightarrow> \<forall>lim\<ge>h. \<forall>is_root a. 1 \<le> m \<and> (is_root \<or> ord div 2 \<le> m) \<longrightarrow>
      (\<exists>k. bp_check P st ord (ord div 2) lim lo hi is_root (Some n) a = (Inr h, counted k (length xs) a))"
    and "chain P st ord h lo bs cs xs \<Longrightarrow> \<forall>lim\<ge>h. \<forall>ks i lower upper a.
      bs = [] \<or> (bs = map Some (drop i ks) @ [upper] \<and> i \<le> length ks \<and> lo = (if i > 0 then Some (ks ! (i - 1)) else lower)) \<longrightarrow>
      (\<exists>k. check_children (\<lambda>lo hi c. bindS (lift (\<lambda>_. bref_get P st c)) (bp_check P st ord (ord div 2) lim lo hi False))
         ks lower upper i cs a = (Inr (replicate (length cs) h), counted k (length xs) a))"
proof (induction rule: bt_chain.inducts)
  case (bt_leaf ks lo hi m xs vs)
  have leaf: "sorted_wrt (<) ks" "\<forall>k\<in>set ks. in_bounds lo hi k" "m \<le> length ks" "length ks \<le> ord"
    "length ks = length xs" and vs: "list_all2 (value_at st) vs xs" by fact+
  have "bp_check P st ord (ord div 2) (Suc l) lo hi is_root (Some (LeafNode ks vs)) a
      = (Inr 1, counted 1 (length (zip ks xs)) a)" if "is_root \<or> ord div 2 \<le> m" for l is_root a
  proof -
    have "size_errors ord (ord div 2) is_root (length ks) = ([] :: 'a audit_error list)"
      using leaf(3,4) that by (intro size_errors_ok) auto
    then show ?thesis
      using leaf list_all2_lengthD [OF vs]
      by (simp add: bindS_def act_defs order_errors_sorted bound_errors_in load_values_ok [OF vs] counted_def)
  qed
  then show ?case by (metis One_nat_def Suc_le_D)
next
  case (bt_node h lo ks hi cs xs m)
  have ch: "chain P st ord h lo (map Some ks @ [hi]) cs xs" and sz: "m \<le> length ks" "length ks \<le> ord"
    using bt_node by simp_all
  have len: "length cs = Suc (length ks)" using chain_length [OF ch] by simp
  have ih: "\<exists>k. check_children (\<lambda>lo hi c. bindS (lift (\<lambda>_. bref_get P st c)) (bp_check P st ord (ord div 2) l lo hi False))
         ks lo hi 0 cs a = (Inr (replicate (length cs) h), counted k (length xs) a)" if "h \<le> l" for l a
    using bt_node that by (metis drop0 gr0I less_irrefl_nat zero_le)
  have keys: "order_errors ks = []" "bound_errors lo hi ks = []"
    using chain_keys [OF ch] by (auto intro!: order_errors_sorted bound_errors_in lt_bounds_in)
  show ?case
  proof (intro allI impI)
    fix lim is_root and a :: "'a audit_state"
    assume lim: "Suc h \<le> lim" and root: "1 \<le> m \<and> (is_root \<or> ord div 2 \<le> m)"
    then obtain l where l: "lim = Suc l" "h \<le> l" by (cases lim) auto
    have se: "size_errors ord (ord div 2) is_root (length ks) = ([] :: 'a audit_error list)"
      using sz root by (intro size_errors_ok) auto
    obtain k where k: "check_children (\<lambda>lo hi c. bindS (lift (\<lambda>_. bref_get P st c)) (bp_check P st ord (ord div 2) l lo hi False))
         ks lo hi 0 cs (a\<lparr>as_nodes := as_nodes a + 1\<rparr>)
       = (Inr (replicate (length cs) h), counted k (length xs) (a\<lparr>as_nodes := as_nodes a + 1\<rparr>))"
      using ih [OF l(2)] by blast
    define hs where "hs = replicate (length cs) h"
    have hs: "set hs = {h}" "hs \<noteq> []" and root': "ks \<noteq> []" using len root sz(1) by (auto simp: hs_def)
    note k' = k [folded hs_def]
    have "bp_check P st ord (ord div 2) lim lo hi is_root (Some (InternalNode ks cs)) a
       = (Inr (Suc h), counted (Suc k) (length xs) a)"
      using k' se keys hs root' len by (simp add: l(1) bindS_def act_defs counted_def)
    then show "\<exists>k. bp_check P st ord (ord div 2) lim lo hi is_root (Some (InternalNode ks cs)) a
       = (Inr (Suc h), counted k (length xs) a)" by blast
  qed
next
  case (chain_nil h lo)
  show ?case by (intro allI impI exI [of _ 0]) (simp add: ret_def counted_0)
next
  case (chain_cons lo b bs c n h xs cs ys)
  have nd: "bref_get P st c = Inr (Some n)" and ch: "chain P st ord h b bs cs ys"
    using chain_cons by (auto simp: node_at_def)
  have one: "1 \<le> ord div 2" using o3 by linarith
  have ih0: "\<forall>lim\<ge>h. \<forall>is_root a. 1 \<le> ord div 2 \<and> (is_root \<or> ord div 2 \<le> ord div 2) \<longrightarrow>
      (\<exists>k. bp_check P st ord (ord div 2) lim lo b is_root (Some n) a = (Inr h, counted k (length xs) a))" by fact
  have ih1: "\<forall>lim\<ge>h. \<forall>ks i lower upper a.
      bs = [] \<or> (bs = map Some (drop i ks) @ [upper] \<and> i \<le> length ks \<and> b = (if i > 0 then Some (ks ! (i - 1)) else lower)) \<longrightarrow>
      (\<exists>k. check_children (\<lambda>lo hi c. bindS (lift (\<lambda>_. bref_get P st c)) (bp_check P st ord (ord div 2) lim lo hi False))
         ks lower upper i cs a = (Inr (replicate (length cs) h), counted k (length ys) a))" by fact
  have ihx: "\<exists>k. bp_check P st ord (ord div 2) lim lo b False (Some n) a = (Inr h, counted k (length xs) a)"
    if "h \<le> lim" for lim a
    using ih0 that one by blast
  have ihy: "\<exists>k. check_children (\<lambda>lo hi c. bindS (lift (\<lambda>_. bref_get P st c)) (bp_check P st ord (ord div 2) lim lo hi False))
         ks lower upper i cs a = (Inr (replicate (length cs) h), counted k (length ys) a)"
    if "h \<le> lim" "bs = [] \<or> (bs = map Some (drop i ks) @ [upper] \<and> i \<le> length ks \<and> b = (if i > 0 then Some (ks ! (i - 1)) else lower))"
    for lim ks i lower upper a
    using ih1 that by blast
  show ?case
  proof (intro allI impI)
    fix lim ks i lower upper and a :: "'a audit_state"
    assume lim: "h \<le> lim" and "b # bs = [] \<or> (b # bs = map Some (drop i ks) @ [upper] \<and> i \<le> length ks \<and> lo = (if i > 0 then Some (ks ! (i - 1)) else lower))"
    then have i: "b # bs = map Some (drop i ks) @ [upper]" "i \<le> length ks" "lo = (if i > 0 then Some (ks ! (i - 1)) else lower)"
      by auto
    let ?f = "\<lambda>lo hi c. bindS (lift (\<lambda>_. bref_get P st c)) (bp_check P st ord (ord div 2) lim lo hi False)"
    have rb: "(i < length ks \<and> b = Some (ks ! i) \<and> bs = map Some (drop (Suc i) ks) @ [upper]) \<or> (i = length ks \<and> b = upper \<and> bs = [])"
      using i by (cases "i < length ks") (auto simp: Cons_nth_drop_Suc [symmetric])
    obtain k1 where k1: "bp_check P st ord (ord div 2) lim lo b False (Some n) a = (Inr h, counted k1 (length xs) a)"
      using ihx [OF lim] by blast
    obtain k2 where k2: "check_children ?f ks lower upper (Suc i) cs (counted k1 (length xs) a)
        = (Inr (replicate (length cs) h), counted k2 (length ys) (counted k1 (length xs) a))"
      using ihy [OF lim, of "Suc i" ks upper lower] rb by fastforce
    have lo: "(if i > 0 then lift (\<lambda>_. bindR (py_nth ks (i - 1)) (\<lambda>k. Inr (Some k))) else ret lower) a = (Inr lo, a)"
      using i(2,3) by (auto simp: py_nth_def act_defs)
    have hi: "(if i < length ks then Some (ks ! i) else upper) = b" using rb by auto
    have "check_children ?f ks lower upper i (c # cs) a = (Inr (replicate (length (c # cs)) h), counted (k1 + k2) (length (xs @ ys)) a)"
      using lo hi k1 k2 by (simp add: bindS_def nd lift_def [of "\<lambda>_. Inr (Some n)"] ret_def counted_counted Let_def)
    then show "\<exists>k. check_children ?f ks lower upper i (c # cs) a = (Inr (replicate (length (c # cs)) h), counted k (length (xs @ ys)) a)"
      by blast
  qed
qed

lemma bp_audit_tree:
  assumes "tree_rep P st ord r xs" "3 \<le> ord" "length xs < 2 ^ lim"
  obtains a where "bp_audit P st ord (ord div 2) lim r (int (length xs)) = Inr a" "audit_ok a"
    "ar_keys a = length xs" "ar_values a = length xs" "ar_height a = 0 \<longleftrightarrow> xs = []"
    "ar_height a > 0 \<longrightarrow> 2 ^ (ar_height a - 1) \<le> length xs"
  using assms(1)
proof (cases rule: tree_rep_cases)
  case 1
  then show thesis
    by (intro that) (auto simp: bp_audit_def act_defs audit_ok_def)
next
  case (2 n h)
  let ?a = "\<lparr>as_nodes = 0, as_values = 0, as_leaf_keys = 0, as_errors = []\<rparr>"
  obtain k where k: "bp_check P st ord (ord div 2) lim None None True (Some n) ?a = (Inr h, counted k (length xs) ?a)"
    using bp_check_bt(1) [OF assms(2) 2(3)] bt_height_lim [OF 2(3) assms(2,3)] by blast
  have h: "2 ^ (h - 1) \<le> length xs" "0 < h"
    by (rule bt_height_log(1) [OF 2(3) assms(2)], rule bt_height_pos [OF 2(3)])
  then have "xs \<noteq> []" by auto
  then show thesis
    using 2(2) k h by (intro that) (auto simp: bp_audit_def audit_ok_def counted_def)
qed

lemma bp_audit_ok:
  assumes "bp_rep P ord lim s xs ys"
  obtains s' a where "bp_audit_op P lim s = (Inr a, s')" "audit_ok a" "ar_keys a = length ys" "ar_values a = length ys"
    "ar_height a = 0 \<longleftrightarrow> ys = []" "ar_height a > 0 \<longrightarrow> 2 ^ (ar_height a - 1) \<le> length ys"
    "bp_rep P ord lim s' xs ys" "lstorage s' = lstorage s"
proof -
  obtain s' where s': "whenS (\<not> locked (lstorage s)) bp_refresh s = (Inr (), s')"
    "bp_rep P ord lim s' xs ys" "lstorage s' = lstorage s"
    by (rule bp_refresh_when_unlocked [OF assms])
  then have t: "tree_rep P (lstorage s') ord (tree_ref s') ys" "3 \<le> ord" "count s' = int (length ys)"
    "order s' = ord" "min_keys s' = ord div 2" "length ys < 2 ^ lim"
    by (auto simp: bp_rep_def bp_inv_def)
  obtain a where a: "bp_audit P (lstorage s') ord (ord div 2) lim (tree_ref s') (int (length ys)) = Inr a" "audit_ok a"
    "ar_keys a = length ys" "ar_values a = length ys" "ar_height a = 0 \<longleftrightarrow> ys = []"
    "ar_height a > 0 \<longrightarrow> 2 ^ (ar_height a - 1) \<le> length ys"
    by (rule bp_audit_tree [OF t(1,2,6)])
  have "bp_audit_op P lim s = (Inr a, s')"
    using s'(1) a(1) t by (simp add: bp_audit_op_def bindS_def gets_def lift_def)
  then show thesis by (rule that [OF _ a(2-6) s'(2,3)])
qed

end
