(* ===== verification/BPlusProperties.thy ===== *)
theory BPlusProperties
  imports BPlusAudit
begin

text \<open>
  The properties of the B+ tree, from one operation on a tree to whole runs of the engine
  with power failures, and their witnesses on a tree with two leaves.
\<close>

section \<open>A small tree\<close>

definition sample_tree :: "nat bref" where
  "sample_tree = internal_ref [3]
     [leaf_ref [1, 2] [ValueRef (Some [10]) 0, ValueRef (Some [20]) 0], leaf_ref [3] [ValueRef (Some [30]) 0]]"

definition sample_content :: "nat content" where
  "sample_content = [(1, [10]), (2, [20]), (3, [30])]"

lemma sample_tree_rep: "tree_rep nat_pickle fresh_storage 3 sample_tree sample_content"
proof -
  have l: "bt nat_pickle fresh_storage 3 (3 div 2) 1 None (Some 3)
      (LeafNode [1, 2] [ValueRef (Some [10]) 0, ValueRef (Some [20]) 0]) [(1, [10]), (2, [20])]"
    by (simp add: bt_leaf_iff value_at_def in_bounds.simps)
  have r: "bt nat_pickle fresh_storage 3 (3 div 2) 1 (Some 3) None
      (LeafNode [3] [ValueRef (Some [30]) 0]) [(3, [30])]"
    by (simp add: bt_leaf_iff value_at_def in_bounds.simps)
  have "chain nat_pickle fresh_storage 3 1 None [Some 3, None]
     [leaf_ref [1, 2] [ValueRef (Some [10]) 0, ValueRef (Some [20]) 0], leaf_ref [3] [ValueRef (Some [30]) 0]]
     ([(1, [10]), (2, [20])] @ [(3, [30])])"
    by (rule chain_pair [OF _ _ _ _ l r]) simp_all
  then have "bt nat_pickle fresh_storage 3 1 2 None None (InternalNode [3]
     [leaf_ref [1, 2] [ValueRef (Some [10]) 0, ValueRef (Some [20]) 0], leaf_ref [3] [ValueRef (Some [30]) 0]]) sample_content"
    by (auto simp: bt_node_iff sample_content_def)
  then show ?thesis by (auto simp: tree_rep_def sample_tree_def)
qed

section \<open>Operations on a tree\<close>

lemma bp_height_bt: "bt P st ord m h lo hi n xs \<Longrightarrow> h \<le> lim \<Longrightarrow> bp_height P st lim (Some n) = Inr h"
proof (induction lim arbitrary: m h lo hi n xs)
  case 0
  then show ?case using bt_height_pos by fastforce
next
  case (Suc lim)
  show ?case
  proof (cases n)
    case (LeafNode ks vs)
    then show ?thesis using Suc.prems(1) by (simp add: bt_leaf_iff)
  next
    case (InternalNode ks cs)
    then obtain h' where h': "h = Suc h'" "chain P st ord h' lo (map Some ks @ [hi]) cs xs"
      using Suc.prems(1) by (auto simp: bt_node_iff)
    obtain b bs where "map Some ks @ [hi] = b # bs" by (cases ks) auto
    then obtain c cs' n' ys where "cs = c # cs'" "node_at P st c n'" "bt P st ord (ord div 2) h' lo b n' ys"
      using h'(2) by (auto simp: chain_Cons_iff)
    then show ?thesis
      using Suc.IH [of "ord div 2" h' lo b n' ys] Suc.prems(2)
      by (simp add: InternalNode h'(1) follow_at_def py_nth_def node_at_def)
  qed
qed

text \<open>
  C25. Insertion into a well-formed B+ tree of order at least 3 returns a well-formed B+ tree
  (sorted, balanced, within the node sizes) whose content is the old one with the key set,
  through whatever splits it takes, and the count grows exactly when the key is new.
\<close>

theorem bplus_insert_correct:
  assumes "tree_rep P st ord r xs" "3 \<le> ord" "length xs < 2 ^ lim" "value_at st v x"
  shows "\<exists>node r'. bref_get P st r = Inr node
    \<and> bp_insert P st ord lim node key v cnt = (Inr r', if key \<in> fst ` set xs then cnt else cnt + 1)
    \<and> tree_rep P st ord r' (kv_upd key x xs)"
  by (rule bp_insert_tree [OF assms, of key cnt]) blast

theorem bplus_insert_correct_witness:
  "\<exists>node r'. bref_get nat_pickle fresh_storage sample_tree = Inr node
    \<and> bp_insert nat_pickle fresh_storage 3 5 node 0 (ValueRef (Some [7]) 0) 3 = (Inr r', 4)
    \<and> tree_rep nat_pickle fresh_storage 3 r' [(0, [7]), (1, [10]), (2, [20]), (3, [30])]"
  using bplus_insert_correct [OF sample_tree_rep, of 5 "ValueRef (Some [7]) 0" "[7]" 0 3]
  by (simp add: sample_content_def value_at_def)

text \<open>
  C24. Deletion from a well-formed B+ tree raises \<open>KeyError\<close> and changes nothing when the key is
  absent; otherwise it returns a well-formed tree without the key, through whatever
  borrowing, merging and shrinking of the root it takes, and the count drops by one.
\<close>

theorem bplus_delete_correct:
  assumes "tree_rep P st ord r xs" "3 \<le> ord" "length xs < 2 ^ lim"
  shows "\<exists>node. bref_get P st r = Inr node
    \<and> (if key \<in> fst ` set xs
       then \<exists>r'. bp_delete P st (ord div 2) lim node key cnt = (Inr r', cnt - 1)
              \<and> tree_rep P st ord r' (kv_del key xs)
       else bp_delete P st (ord div 2) lim node key cnt = (Inl KeyError, cnt))"
  by (rule bp_delete_tree [OF assms, of key cnt]) auto

theorem bplus_delete_correct_witness:
  "\<exists>node. bref_get nat_pickle fresh_storage sample_tree = Inr node
    \<and> (\<exists>r'. bp_delete nat_pickle fresh_storage 1 5 node 3 3 = (Inr r', 2)
           \<and> tree_rep nat_pickle fresh_storage 3 r' [(1, [10]), (2, [20])])"
  using bplus_delete_correct [OF sample_tree_rep, of 5 3 3] by (simp add: sample_content_def)

text \<open>
  Search: on a well-formed B+ tree \<open>_get\<close> returns the value of the key, and raises
  \<open>KeyError\<close> exactly for the keys that are not in the tree.
\<close>

theorem bplus_get_correct:
  assumes "tree_rep P st ord r xs" "3 \<le> ord" "length xs < 2 ^ lim" "0 < lim"
  shows "bindR (bref_get P st r) (\<lambda>node. bp_get P st lim node key)
    = (case map_of xs key of None \<Rightarrow> Inl KeyError | Some v \<Rightarrow> Inr (Some v))"
  using bp_get_tree [OF assms] by (simp add: lookup_result_def)

theorem bplus_get_correct_witness:
  "bindR (bref_get nat_pickle fresh_storage sample_tree) (\<lambda>node. bp_get nat_pickle fresh_storage 5 node 2) = Inr (Some [20])
   \<and> bindR (bref_get nat_pickle fresh_storage sample_tree) (\<lambda>node. bp_get nat_pickle fresh_storage 5 node 4) = Inl KeyError"
  using bplus_get_correct [OF sample_tree_rep, of 5 2] bplus_get_correct [OF sample_tree_rep, of 5 4]
  by (simp add: sample_content_def)

text \<open>
  C27. The range scan with its pruning of subtrees yields what filtering a full scan by
  \<open>start \<le> key < stop\<close> yields, in the same order, for every combination of missing bounds.
\<close>

theorem bplus_range_is_filtered_scan:
  assumes "tree_rep P st ord r xs" "3 \<le> ord" "length xs < 2 ^ lim" "0 < lim"
  shows "bindR (bref_get P st r) (bp_range P st lim start stop)
    = bindR (bindR (bref_get P st r) (bp_items P st lim)) (\<lambda>kvs.
        Inr (filter (\<lambda>(k, v). (start = None \<or> the start \<le> k) \<and> (stop = None \<or> k < the stop)) kvs))"
proof -
  have "in_bounds start stop k \<longleftrightarrow> (start = None \<or> the start \<le> k) \<and> (stop = None \<or> k < the stop)" for k
    by (cases start; cases stop) (auto simp: in_bounds.simps)
  then show ?thesis
    unfolding bp_range_tree [OF assms] bp_items_tree [OF assms]
    by (simp add: filter_map comp_def split_def)
qed

theorem bplus_range_is_filtered_scan_witness:
  "bindR (bref_get nat_pickle fresh_storage sample_tree) (bp_range nat_pickle fresh_storage 5 (Some 2) None)
    = bindR (bindR (bref_get nat_pickle fresh_storage sample_tree) (bp_items nat_pickle fresh_storage 5)) (\<lambda>kvs.
        Inr (filter (\<lambda>(k, v). 2 \<le> k) kvs))"
  using bplus_range_is_filtered_scan [OF sample_tree_rep, of 5 "Some 2" None]
  by (simp add: sample_content_def)

text \<open>
  The height of a tree, without reference to \<open>height()\<close>: the paths from the node behind a reference down to a
  leaf, with the number of nodes on them.
\<close>

inductive leaf_path :: "'k pickle \<Rightarrow> storage \<Rightarrow> 'k bref \<Rightarrow> nat \<Rightarrow> bool" for P :: "'k pickle" and st :: storage where
  path_leaf: "bref_get P st r = Inr (Some (LeafNode ks vs)) \<Longrightarrow> leaf_path P st r 1"
| path_node: "bref_get P st r = Inr (Some (InternalNode ks cs)) \<Longrightarrow> c \<in> set cs \<Longrightarrow> leaf_path P st c n
    \<Longrightarrow> leaf_path P st r (Suc n)"

lemma chain_child:
  "chain P st ord h lo bs cs xs \<Longrightarrow> c \<in> set cs
    \<Longrightarrow> \<exists>lo' hi' n ys. node_at P st c n \<and> bt P st ord (ord div 2) h lo' hi' n ys"
proof (induction bs arbitrary: lo cs xs)
  case (Cons b bs)
  then show ?case by (fastforce simp: chain_Cons_iff)
qed simp

lemma leaf_path_bt:
  "leaf_path P st r k \<Longrightarrow> bref_get P st r = Inr (Some n) \<Longrightarrow> bt P st ord m h lo hi n xs \<Longrightarrow> k = h"
proof (induction arbitrary: n m h lo hi xs rule: leaf_path.induct)
  case (path_leaf r ks vs)
  then show ?case by (simp add: bt_leaf_iff)
next
  case (path_node r ks cs c k)
  then obtain h' where h': "h = Suc h'" "chain P st ord h' lo (map Some ks @ [hi]) cs xs"
    by (auto simp: bt_node_iff)
  then show ?case using chain_child [OF h'(2) path_node(2)] path_node.IH by (auto simp: node_at_def)
qed

lemma bt_leaf_path: "bref_get P st r = Inr (Some n) \<Longrightarrow> bt P st ord m h lo hi n xs \<Longrightarrow> leaf_path P st r h"
proof (induction h arbitrary: r n m lo hi xs)
  case (Suc h)
  show ?case
  proof (cases n)
    case (LeafNode ks vs)
    then show ?thesis using Suc.prems path_leaf [of P st r ks vs] by (simp add: bt_leaf_iff)
  next
    case (InternalNode ks cs)
    then have c: "chain P st ord h lo (map Some ks @ [hi]) cs xs" using Suc.prems(2) by (simp add: bt_node_iff)
    then have "cs \<noteq> []" by (cases ks) (auto simp: chain_Cons_iff)
    then have 1: "hd cs \<in> set cs" by simp
    then have "leaf_path P st (hd cs) h" using chain_child [OF c 1] Suc.IH by (auto simp: node_at_def)
    then show ?thesis using Suc.prems(1) path_node 1 unfolding InternalNode by blast
  qed
qed (use bt_height_pos in blast)

text \<open>
  C28. The tree is balanced and shallow. All paths from the root to a leaf have the same number
  \<open>h\<close> of nodes, and \<open>height()\<close>, which walks down the leftmost one, returns that \<open>h\<close>: 0 for the empty
  tree, which has no such path. A tree with \<open>h \<ge> 2\<close> holds at least
  \<open>2 * (ord div 2) * (ord div 2 + 1) ^ (h - 2)\<close> keys.
\<close>

theorem bplus_height_bound:
  assumes "tree_rep P st ord r xs" "3 \<le> ord" "length xs < 2 ^ lim" "0 < lim"
  shows "\<exists>h. bindR (bref_get P st r) (bp_height P st lim) = Inr h \<and> (h = 0 \<longleftrightarrow> xs = [])
    \<and> (\<forall>k. leaf_path P st r k \<longleftrightarrow> k = h \<and> xs \<noteq> [])
    \<and> (2 \<le> h \<longrightarrow> 2 * (ord div 2 * (ord div 2 + 1) ^ (h - 2)) \<le> length xs)"
  using assms(1)
proof (cases rule: tree_rep_cases)
  case 1
  then have "\<not> leaf_path P st r k" for k by (auto elim: leaf_path.cases)
  then show ?thesis using 1 assms(4) by (cases lim) auto
next
  case (2 n h)
  have "2 ^ (h - 1) \<le> length xs" by (rule bt_height_log(1) [OF 2(3) assms(2)])
  then have ne: "xs \<noteq> []" by auto
  have "leaf_path P st r k \<longleftrightarrow> k = h" for k
    using leaf_path_bt [OF _ 2(2,3)] bt_leaf_path [OF 2(2,3)] by blast
  then show ?thesis
    using ne 2(2) bp_height_bt [OF 2(3) bt_height_lim [OF 2(3) assms(2,3)]] bt_height_pos [OF 2(3)]
      bt_height_log(2) [OF 2(3) assms(2)] by (intro exI [of _ h]) simp
qed

theorem bplus_height_bound_witness:
  "\<exists>h. bindR (bref_get nat_pickle fresh_storage sample_tree) (bp_height nat_pickle fresh_storage 5) = Inr h
    \<and> h \<noteq> 0 \<and> leaf_path nat_pickle fresh_storage sample_tree h"
  using bplus_height_bound [OF sample_tree_rep, of 5] by (auto simp: sample_content_def)

section \<open>Storing\<close>

text \<open>
  C29. Storing a tree and reading it back: when \<open>store\<close> returns, the file has only grown, and
  the tree read from the address it was stored at has the same content.
\<close>

theorem bplus_store_roundtrip:
  assumes "pickle_ok P" "tree_rep P st ord r xs" "3 \<le> ord" "length xs < 2 ^ lim" "0 < lim"
    and "storage_inv st m" "bref_store P r st = (Inr (), r', st')"
  shows "(\<exists>bs. live (disk st') = live (disk st) @ bs)
    \<and> bindR (bref_get P st' (BPlusNodeRef None (bref_address r'))) (bp_items P st' lim) = Inr (somes xs)
    \<and> tree_rep P st' ord (BPlusNodeRef None (bref_address r')) xs"
proof -
  have s: "stores (Inr ()) st st' (tree_rep P st' ord (bref_addr r') xs)"
    by (rule bref_store_tree [OF assms(1,2) storage_inv_writable [OF assms(6)] assms(7)])
  then have t: "tree_rep P st' ord (BPlusNodeRef None (bref_address r')) xs"
    by (simp add: stores_def bref_addr_def)
  show ?thesis
    using s t bp_items_tree [OF t assms(3-5)] by (auto simp: stores_def appended_def)
qed

definition sample_leaf :: "nat bref" where
  "sample_leaf = leaf_ref [1] [ValueRef (Some [10]) 0]"

lemma sample_leaf_rep: "tree_rep nat_pickle st 3 sample_leaf [(1, [10])]"
  by (auto simp: tree_rep_def sample_leaf_def bt_leaf_iff value_at_def)

lemma length_put_nats: "length (put_nats ns) = sum_list ns + length ns"
  by (induction ns) auto

lemma storage_write_small:
  assumes "writable st" "length p < 256 ^ 4"
  obtains st' where "storage_write p st = (Inr (length (live (disk st))), st')" "writable st'"
    "length (live (disk st')) = length (live (disk st)) + 8 + length p"
proof -
  have ro: "\<not> readonly st" "SUPERBLOCK_SIZE \<le> length (live (disk st))" using assms(1) by (auto simp: writable_def)
  show thesis
    by (rule storage_write_cases [OF ro, of p]) (use that assms in \<open>auto simp: appended_def writable_def\<close>)
qed

lemma sample_leaf_stored:
  obtains r' st' where "bref_store nat_pickle sample_leaf fresh_storage = (Inr (), r', st')"
proof -
  have w: "writable fresh_storage" by (rule storage_inv_writable [OF fresh_storage(1)])
  obtain st1 where st1: "storage_write [10] fresh_storage = (Inr 8192, st1)" "writable st1"
    using storage_write_small [OF w, of "[10]"] by (auto simp: fresh_storage(4) layout_defs)
  let ?n = "LeafNode [1] [ValueRef (Some [10]) 8192]"
  have "length (referent_to_bytes nat_pickle ?n) < 256 ^ 4"
    by (simp add: referent_to_bytes_def nat_pickle_def unary_pickle_def length_put_nats)
  then obtain st2 where "storage_write (referent_to_bytes nat_pickle ?n) st1 = (Inr (length (live (disk st1))), st2)"
    by (rule storage_write_small [OF st1(2)])
  then show thesis using st1(1) that by (simp add: sample_leaf_def leaf_ref_def)
qed

theorem bplus_store_roundtrip_witness:
  "\<exists>r' st'. bref_store nat_pickle sample_leaf fresh_storage = (Inr (), r', st')
    \<and> (\<exists>bs. live (disk st') = live (disk fresh_storage) @ bs)
    \<and> bindR (bref_get nat_pickle st' (BPlusNodeRef None (bref_address r'))) (bp_items nat_pickle st' 5) = Inr [(1, Some [10])]
    \<and> tree_rep nat_pickle st' 3 (BPlusNodeRef None (bref_address r')) [(1, [10])]"
proof -
  obtain r' st' where st: "bref_store nat_pickle sample_leaf fresh_storage = (Inr (), r', st')"
    by (rule sample_leaf_stored)
  show ?thesis
    using st bplus_store_roundtrip [OF nat_pickle_ok sample_leaf_rep _ _ _ fresh_storage(1) st, of 5] by auto
qed

section \<open>Auditing\<close>

text \<open>
  C30. \<open>audit()\<close> accepts what the engine builds: on an engine that shows \<open>ys\<close> it returns without
  errors, counts every key and every value, and reports a height that is logarithmic.
\<close>

theorem bplus_audit_accepts:
  assumes "bp_rep P ord lim s xs ys"
  shows "\<exists>s' a. bp_audit_op P lim s = (Inr a, s') \<and> audit_ok a \<and> ar_keys a = length ys \<and> ar_values a = length ys
    \<and> (ar_height a = 0 \<longleftrightarrow> ys = []) \<and> (ar_height a > 0 \<longrightarrow> 2 ^ (ar_height a - 1) \<le> length ys)"
  by (rule bp_audit_ok [OF assms]) (intro exI conjI; assumption)

lemma sample_engine:
  obtains s where "bp_rep nat_pickle 3 5 s [] [(1, [10])]"
proof -
  have "length [] < SUPERBLOCK_SIZE" by (simp add: layout_defs)
  then obtain s0 where "bp_rep nat_pickle 3 5 s0 [] []"
    using bp_open_fresh [of "[]" 3 5 nat_pickle] by auto
  then obtain s where "bp_rep nat_pickle 3 5 s [] (kv_upd 1 [10] [])"
    using bpl.set_ok [of nat_pickle 3 5 s0 "[]" "[]" 1 "[10]"] by auto
  then show thesis using that by simp
qed

theorem bplus_audit_accepts_witness:
  "\<exists>s s' a. bp_rep nat_pickle 3 5 s [] [(1, [10])] \<and> bp_audit_op nat_pickle 5 s = (Inr a, s') \<and> audit_ok a
    \<and> ar_keys a = 1 \<and> ar_values a = 1 \<and> ar_height a \<noteq> 0"
proof -
  obtain s where s: "bp_rep nat_pickle 3 5 s [] [(1, [10])]" by (rule sample_engine)
  then show ?thesis using bplus_audit_accepts [OF s] by auto
qed

section \<open>Runs\<close>

text \<open>
  C1. The engine refines the specification: whatever requests are sent to a database that was
  just created, gets, puts, removals, scans, lengths, commits, power failures and crashes of
  the disk armed at some later flush, every reply is one that the specification allows, and
  after the run a power failure leaves exactly the content of the last commit that
  returned. A commit flushes the disk twice: it returns when no crash is armed at those
  flushes, and when one is, it raises the crash, unless it raised \<open>struct.error\<close>. No
  other request raises anything but \<open>KeyError\<close> for a missing key.
\<close>

theorem bplus_refines_spec:
  assumes "pickle_ok P" "3 \<le> ord" "0 < lim" "length f < SUPERBLOCK_SIZE"
    and "bp_open ord f = (Inr (), s)" "Suc (puts qs) < 2 ^ lim" "engine_run (bplus_ops P ord lim) qs s = (rs, s')"
  shows "\<exists>xs ys. spec_run ([], []) qs rs (xs, ys) \<and> flush_run None qs rs
    \<and> (\<exists>s1 s2. bp_open ord (durable_bytes (disk (lstorage s'))) = (Inr (), s1)
         \<and> logical_items (bplus_class P lim) s1 = (Inr (somes xs), s2))"
proof -
  obtain s0 where "bp_open ord f = (Inr (), s0)" "bp_rep P ord lim s0 [] []" "crash_at_flush (disk (lstorage s0)) = None"
    by (rule bp_open_fresh [OF assms(4,2,3)])
  then have "bp_state P ord lim s [] []" "bp.left s = None" using assms(1,5) by (simp_all add: bp_state_def flushes_left_None)
  then obtain xs ys where r: "spec_run ([], []) qs rs (xs, ys)" "bp_state P ord lim s' xs ys" "flush_run None qs rs"
    using bp.run_refines [of P ord lim s "[]" "[]" qs rs s'] assms(6,7) by auto
  obtain s1 where s1: "bp_open ord (durable_bytes (disk (lstorage s'))) = (Inr (), s1)" "bp_state P ord lim s1 xs xs"
    using bp.reopen_law [OF r(2)] by (auto simp: reopened_def bplus_ops_def)
  obtain s2 where "logical_items (bplus_class P lim) s1 = (Inr (somes xs), s2)"
    using bp.items_law [OF s1(2)] by (auto simp: bplus_ops_def)
  then show ?thesis using r(1,3) s1(1) by blast
qed

theorem bplus_refines_spec_witness:
  "\<exists>s rs s'. bp_open 3 [] = (Inr (), s)
    \<and> engine_run (bplus_ops nat_pickle 3 5) [Put 1 [10], Commit, Remove 1, CrashAt 2, Commit, Get 1] s = (rs, s')
    \<and> rs ! 4 \<noteq> Done
    \<and> (\<exists>xs ys. spec_run ([], []) [Put 1 [10], Commit, Remove 1, CrashAt 2, Commit, Get 1] rs (xs, ys)
         \<and> (\<exists>s1 s2. bp_open 3 (durable_bytes (disk (lstorage s'))) = (Inr (), s1)
              \<and> logical_items (bplus_class nat_pickle 5) s1 = (Inr (somes xs), s2)))"
proof -
  let ?qs = "[Put 1 [10], Commit, Remove 1, CrashAt 2, Commit, Get 1] :: nat request list"
  have f: "length [] < SUPERBLOCK_SIZE" by (simp add: layout_defs)
  obtain s where s: "bp_open 3 [] = (Inr (), s :: nat bplus_tree)"
    by (rule bp_open_fresh [OF f, of 3 5]) auto
  obtain rs s' where r: "engine_run (bplus_ops nat_pickle 3 5) ?qs s = (rs, s')"
    by (cases "engine_run (bplus_ops nat_pickle 3 5) ?qs s")
  have w: "\<exists>xs ys. spec_run ([], []) ?qs rs (xs, ys) \<and> flush_run None ?qs rs
         \<and> (\<exists>s1 s2. bp_open 3 (durable_bytes (disk (lstorage s'))) = (Inr (), s1)
              \<and> logical_items (bplus_class nat_pickle 5) s1 = (Inr (somes xs), s2))"
    by (rule bplus_refines_spec [OF nat_pickle_ok _ _ f s _ r]) simp_all
  have "length rs = 6" using engine_run_length [OF r] by simp
  then obtain r1 r2 r3 r4 r5 r6 where "rs = [r1, r2, r3, r4, r5, r6]" by (auto simp: numeral_eq_Suc length_Suc_conv)
  then have "rs ! 4 \<noteq> Done" using w by (auto split: if_splits)
  then show ?thesis using s r w by blast
qed

end
