(* ===== verification/BinaryTree.thy ===== *)
theory BinaryTree
  imports BPlusTree IndexContract
begin

text \<open>
  \<open>binary_tree.py\<close>: the unbalanced copy-on-write binary search tree, the second class of
  \<open>INDEX_CLASSES\<close>, on the same storage. Every node carries the size of its subtree. As in
  \<open>BPlusTree\<close>, traversals have a depth bound \<open>lim\<close>; a tree is at most as deep as it has keys.
\<close>

section \<open>Nodes\<close>

datatype 'k binary_node = BinaryNode "'k binary_ref" 'k value_ref "'k binary_ref" int
and 'k binary_ref = BinaryNodeRef "'k binary_node option" nat

fun tref_address :: "'k binary_ref \<Rightarrow> nat" where
  "tref_address (BinaryNodeRef r a) = a"

fun node_length :: "'k binary_node \<Rightarrow> int" where
  "node_length (BinaryNode l k v r n) = n"

fun tnode_to_bytes :: "'k pickle \<Rightarrow> 'k binary_node \<Rightarrow> bytes" where
  "tnode_to_bytes P (BinaryNode l k v r n) =
     dumps P (PBinary (tref_address l) k (vr_address v) (tref_address r) n)"

text \<open>A pickled node of the other engine has no \<open>"left"\<close> entry.\<close>

fun pickled_to_tnode :: "'k pickled \<Rightarrow> 'k binary_node result" where
  "pickled_to_tnode (PBinary l k v r n) =
     Inr (BinaryNode (BinaryNodeRef None l) k (ValueRef None v) (BinaryNodeRef None r) n)"
| "pickled_to_tnode _ = Inl KeyError"

fun tref_get :: "'k pickle \<Rightarrow> storage \<Rightarrow> 'k binary_ref \<Rightarrow> 'k binary_node option result" where
  "tref_get P st (BinaryNodeRef r a) =
     (if r = None \<and> a \<noteq> 0
      then bindR (storage_read st a) (\<lambda>bs. bindR (bindR (loads P bs) pickled_to_tnode) (\<lambda>n. Inr (Some n)))
      else Inr r)"

fun tref_store :: "'k pickle \<Rightarrow> 'k binary_ref \<Rightarrow> storage \<Rightarrow> unit result \<times> 'k binary_ref \<times> storage"
  and tnode_store_refs :: "'k pickle \<Rightarrow> 'k binary_node \<Rightarrow> storage \<Rightarrow> unit result \<times> 'k binary_node \<times> storage" where
  "tref_store P (BinaryNodeRef None a) st = (Inr (), BinaryNodeRef None a, st)"
| "tref_store P (BinaryNodeRef (Some n) a) st =
     (if a = 0 then
        (case tnode_store_refs P n st of
           (Inl e, n', st') \<Rightarrow> (Inl e, BinaryNodeRef (Some n') a, st')
         | (Inr _, n', st') \<Rightarrow>
             (case storage_write (tnode_to_bytes P n') st' of
                (Inl e, st'') \<Rightarrow> (Inl e, BinaryNodeRef (Some n') a, st'')
              | (Inr a', st'') \<Rightarrow> (Inr (), BinaryNodeRef (Some n') a', st'')))
      else (Inr (), BinaryNodeRef (Some n) a, st))"
| "tnode_store_refs P (BinaryNode l k v r n) st =
     (case vref_store v st of
        (Inl e, v', st1) \<Rightarrow> (Inl e, BinaryNode l k v' r n, st1)
      | (Inr _, v', st1) \<Rightarrow>
          (case tref_store P l st1 of
             (Inl e, l', st2) \<Rightarrow> (Inl e, BinaryNode l' k v' r n, st2)
           | (Inr _, l', st2) \<Rightarrow>
               (case tref_store P r st2 of (x, r', st3) \<Rightarrow> (x, BinaryNode l' k v' r' n, st3))))"

section \<open>The methods of the engine\<close>

definition ref_length :: "'k pickle \<Rightarrow> storage \<Rightarrow> 'k binary_ref \<Rightarrow> int result" where
  "ref_length P st r = bindR (tref_get P st r) (\<lambda>node. Inr (case node of None \<Rightarrow> 0 | Some n \<Rightarrow> node_length n))"

definition node_ref ::
  "'k pickle \<Rightarrow> storage \<Rightarrow> 'k binary_ref \<Rightarrow> 'k \<Rightarrow> value_ref \<Rightarrow> 'k binary_ref \<Rightarrow> 'k binary_ref result" where
  "node_ref P st l k v r =
     bindR (ref_length P st l) (\<lambda>a. bindR (ref_length P st r) (\<lambda>b.
       Inr (BinaryNodeRef (Some (BinaryNode l k v r (1 + a + b))) 0)))"

fun bin_get ::
  "'k::linorder pickle \<Rightarrow> storage \<Rightarrow> nat \<Rightarrow> 'k binary_node option \<Rightarrow> 'k \<Rightarrow> bytes option result" where
  "bin_get P st 0 node key = Inl RecursionError"
| "bin_get P st (Suc lim) None key = Inl KeyError"
| "bin_get P st (Suc lim) (Some (BinaryNode l k v r n)) key =
     (if key < k then bindR (tref_get P st l) (\<lambda>node. bin_get P st lim node key)
      else if k < key then bindR (tref_get P st r) (\<lambda>node. bin_get P st lim node key)
      else vref_get st v)"

fun bin_insert ::
  "'k::linorder pickle \<Rightarrow> storage \<Rightarrow> nat \<Rightarrow> 'k binary_node option \<Rightarrow> 'k \<Rightarrow> value_ref \<Rightarrow> 'k binary_ref result" where
  "bin_insert P st 0 node key w = Inl RecursionError"
| "bin_insert P st (Suc lim) None key w = node_ref P st (BinaryNodeRef None 0) key w (BinaryNodeRef None 0)"
| "bin_insert P st (Suc lim) (Some (BinaryNode l k v r n)) key w =
     (if key < k then
        bindR (tref_get P st l) (\<lambda>node. bindR (bin_insert P st lim node key w) (\<lambda>l'. node_ref P st l' k v r))
      else if k < key then
        bindR (tref_get P st r) (\<lambda>node. bindR (bin_insert P st lim node key w) (\<lambda>r'. node_ref P st l k v r'))
      else node_ref P st l key w r)"

fun pop_min ::
  "'k pickle \<Rightarrow> storage \<Rightarrow> nat \<Rightarrow> 'k binary_node \<Rightarrow> ('k binary_node \<times> 'k binary_ref) result" where
  "pop_min P st 0 node = Inl RecursionError"
| "pop_min P st (Suc lim) (BinaryNode l k v r n) =
     bindR (tref_get P st l) (\<lambda>left.
       case left of
         None \<Rightarrow> Inr (BinaryNode l k v r n, r)
       | Some m \<Rightarrow>
           bindR (pop_min P st lim m) (\<lambda>(successor, l').
           bindR (node_ref P st l' k v r) (\<lambda>t. Inr (successor, t))))"

fun bin_delete ::
  "'k::linorder pickle \<Rightarrow> storage \<Rightarrow> nat \<Rightarrow> 'k binary_node option \<Rightarrow> 'k \<Rightarrow> 'k binary_ref result" where
  "bin_delete P st 0 node key = Inl RecursionError"
| "bin_delete P st (Suc lim) None key = Inl KeyError"
| "bin_delete P st (Suc lim) (Some (BinaryNode l k v r n)) key =
     (if key < k then
        bindR (tref_get P st l) (\<lambda>node. bindR (bin_delete P st lim node key) (\<lambda>l'. node_ref P st l' k v r))
      else if k < key then
        bindR (tref_get P st r) (\<lambda>node. bindR (bin_delete P st lim node key) (\<lambda>r'. node_ref P st l k v r'))
      else
        bindR (tref_get P st l) (\<lambda>left. bindR (tref_get P st r) (\<lambda>right.
          case (left, right) of
            (None, _) \<Rightarrow> Inr r
          | (Some _, None) \<Rightarrow> Inr l
          | (Some _, Some m) \<Rightarrow>
              bindR (pop_min P st lim m) (\<lambda>(successor, r').
                case successor of BinaryNode _ k' v' _ _ \<Rightarrow> node_ref P st l k' v' r'))))"

fun bin_items ::
  "'k pickle \<Rightarrow> storage \<Rightarrow> nat \<Rightarrow> 'k binary_node option \<Rightarrow> ('k \<times> bytes option) list result" where
  "bin_items P st 0 node = Inl RecursionError"
| "bin_items P st (Suc lim) None = Inr []"
| "bin_items P st (Suc lim) (Some (BinaryNode l k v r n)) =
     bindR (bindR (tref_get P st l) (bin_items P st lim)) (\<lambda>xs.
     bindR (vref_get st v) (\<lambda>p.
     bindR (bindR (tref_get P st r) (bin_items P st lim)) (\<lambda>ys.
       Inr (xs @ (k, p) # ys))))"

fun bin_range ::
  "'k::linorder pickle \<Rightarrow> storage \<Rightarrow> nat \<Rightarrow> 'k option \<Rightarrow> 'k option \<Rightarrow> 'k binary_node option
     \<Rightarrow> ('k \<times> bytes option) list result" where
  "bin_range P st 0 start stop node = Inl RecursionError"
| "bin_range P st (Suc lim) start stop None = Inr []"
| "bin_range P st (Suc lim) start stop (Some (BinaryNode l k v r n)) =
     (let low = (start = None \<or> the start \<le> k); high = (stop = None \<or> k < the stop) in
      bindR (if low then bindR (tref_get P st l) (bin_range P st lim start stop) else Inr []) (\<lambda>xs.
      bindR (if low \<and> high then bindR (vref_get st v) (\<lambda>p. Inr [(k, p)]) else Inr []) (\<lambda>mid.
      bindR (if high then bindR (tref_get P st r) (bin_range P st lim start stop) else Inr []) (\<lambda>ys.
        Inr (xs @ mid @ ys)))))"

fun bin_height :: "'k pickle \<Rightarrow> storage \<Rightarrow> nat \<Rightarrow> 'k binary_node option \<Rightarrow> nat result" where
  "bin_height P st 0 node = Inl RecursionError"
| "bin_height P st (Suc lim) None = Inr 0"
| "bin_height P st (Suc lim) (Some (BinaryNode l k v r n)) =
     bindR (bindR (tref_get P st l) (bin_height P st lim)) (\<lambda>a.
     bindR (bindR (tref_get P st r) (bin_height P st lim)) (\<lambda>b. Inr (1 + max a b)))"

section \<open>Audit\<close>

definition bst_bound_errors :: "'k::linorder option \<Rightarrow> 'k option \<Rightarrow> 'k \<Rightarrow> 'k audit_error list" where
  "bst_bound_errors lower upper k =
     (if lower \<noteq> None \<and> k \<le> the lower then [BelowLowerBound k (the lower)] else [])
     @ (if upper \<noteq> None \<and> k \<ge> the upper then [NotBelowUpperBound k (the upper)] else [])"

text \<open>
  \<open>walk\<close> returns the number of nodes and the depth of the deepest; the state holds the
  errors and the number of values loaded.
\<close>

fun bst_walk ::
  "'k::linorder pickle \<Rightarrow> storage \<Rightarrow> nat \<Rightarrow> 'k binary_node option \<Rightarrow> 'k option \<Rightarrow> 'k option \<Rightarrow> int
     \<Rightarrow> ('k audit_state, nat \<times> int) act" where
  "bst_walk P st 0 node lower upper depth = raise RecursionError"
| "bst_walk P st (Suc lim) None lower upper depth = ret (0, depth - 1)"
| "bst_walk P st (Suc lim) (Some (BinaryNode l k v r n)) lower upper depth =
     bindS (add_errors (bst_bound_errors lower upper k)) (\<lambda>_.
     bindS (load_values st [(k, v)]) (\<lambda>_.
     bindS (lift (\<lambda>_. tref_get P st l)) (\<lambda>left.
     bindS (bst_walk P st lim left lower (Some k) (depth + 1)) (\<lambda>(left_count, left_height).
     bindS (lift (\<lambda>_. tref_get P st r)) (\<lambda>right.
     bindS (bst_walk P st lim right (Some k) upper (depth + 1)) (\<lambda>(right_count, right_height).
     let expected = 1 + left_count + right_count in
     bindS (add_errors (if n \<noteq> int expected then [WrongLength k n expected] else [])) (\<lambda>_.
       ret (expected, max depth (max left_height right_height)))))))))"

definition bst_audit :: "'k::linorder pickle \<Rightarrow> storage \<Rightarrow> nat \<Rightarrow> 'k binary_ref \<Rightarrow> 'k audit_report result" where
  "bst_audit P st lim root_ref =
     bindR (tref_get P st root_ref) (\<lambda>root.
       case bst_walk P st lim root None None 1
              \<lparr>as_nodes = 0, as_values = 0, as_leaf_keys = 0, as_errors = []\<rparr> of
         (Inl e, _) \<Rightarrow> Inl e
       | (Inr (nodes, height), a) \<Rightarrow>
           Inr \<lparr>ar_keys = nodes, ar_nodes = nodes, ar_values = as_values a,
                ar_height = (if root = None then 0 else nat height), ar_errors = as_errors a\<rparr>)"

section \<open>The engine\<close>

type_synonym 'k binary_tree = "'k binary_ref logical_base"

definition bin_refresh :: "('k binary_tree, unit) act" where
  "bin_refresh = bindS (on_storage get_root_address) (\<lambda>a. modify (\<lambda>s. s\<lparr>tree_ref := BinaryNodeRef None a\<rparr>))"

definition binary_class ::
  "'k::linorder pickle \<Rightarrow> nat \<Rightarrow> ('k binary_tree, 'k binary_ref, 'k binary_node, 'k) index_class" where
  "binary_class P lim =
     \<lparr>refresh_tree_ref = bin_refresh,
      follow = tref_get P,
      get_node = (\<lambda>s. bin_get P (lstorage s) lim),
      insert_node = (\<lambda>node key v. lift (\<lambda>s. bin_insert P (lstorage s) lim node key v)),
      delete_node = (\<lambda>node key. lift (\<lambda>s. bin_delete P (lstorage s) lim node key)),
      items_node = (\<lambda>s. bin_items P (lstorage s) lim),
      range_node = (\<lambda>s node start stop. bin_range P (lstorage s) lim start stop node)\<rparr>"

definition BinaryTree :: "storage \<Rightarrow> unit result \<times> 'k binary_tree" where
  "BinaryTree st = bin_refresh \<lparr>lstorage = st, tree_ref = BinaryNodeRef None 0\<rparr>"

text \<open>\<open>LogicalBase.commit\<close> and \<open>LogicalBase.length\<close>, which the binary tree inherits; the key count is left at 0.\<close>

definition bin_commit :: "'k pickle \<Rightarrow> ('k binary_tree, unit) act" where
  "bin_commit P s =
     (case tref_store P (tree_ref s) (lstorage s) of
        (x, r, st) \<Rightarrow>
          bindS (lift (\<lambda>_. x)) (\<lambda>_.
          bindS (gets (\<lambda>s. tref_address (tree_ref s))) (\<lambda>a.
          bindS (on_storage (commit_root_address a 0)) (\<lambda>_.
            bin_refresh))) (s\<lparr>lstorage := st, tree_ref := r\<rparr>))"

definition bin_length :: "'k pickle \<Rightarrow> ('k binary_tree, int) act" where
  "bin_length P =
     bindS (gets (\<lambda>s. locked (lstorage s))) (\<lambda>l.
     bindS (whenS (\<not> l) bin_refresh) (\<lambda>_.
     bindS (lift (\<lambda>s. tref_get P (lstorage s) (tree_ref s))) (\<lambda>node.
       ret (case node of None \<Rightarrow> 0 | Some n \<Rightarrow> node_length n))))"

definition bin_height_op :: "'k pickle \<Rightarrow> nat \<Rightarrow> ('k binary_tree, nat) act" where
  "bin_height_op P lim =
     bindS (gets (\<lambda>s. locked (lstorage s))) (\<lambda>l.
     bindS (whenS (\<not> l) bin_refresh) (\<lambda>_.
       lift (\<lambda>s. bindR (tref_get P (lstorage s) (tree_ref s)) (bin_height P (lstorage s) lim))))"

definition bin_audit_op :: "'k::linorder pickle \<Rightarrow> nat \<Rightarrow> ('k binary_tree, 'k audit_report) act" where
  "bin_audit_op P lim =
     bindS (gets (\<lambda>s. locked (lstorage s))) (\<lambda>l.
     bindS (whenS (\<not> l) bin_refresh) (\<lambda>_.
       lift (\<lambda>s. bst_audit P (lstorage s) lim (tree_ref s))))"

definition bin_open :: "bytes \<Rightarrow> unit result \<times> 'k binary_tree" where
  "bin_open f =
     (case Storage (SimDisk f) DURABILITY_FULL False of
        (Inl e, st) \<Rightarrow> (Inl e, \<lparr>lstorage = st, tree_ref = BinaryNodeRef None 0\<rparr>)
      | (Inr _, st) \<Rightarrow> BinaryTree st)"

definition binary_ops :: "'k::linorder pickle \<Rightarrow> nat \<Rightarrow> ('k binary_tree, 'k) index_ops" where
  "binary_ops P lim =
     \<lparr>op_get = logical_get (binary_class P lim),
      op_set = logical_set (binary_class P lim),
      op_delete = logical_delete (binary_class P lim),
      op_items = logical_items (binary_class P lim),
      op_range = logical_range_items (binary_class P lim),
      op_length = bin_length P,
      op_commit = bin_commit P,
      op_open = bin_open,
      op_image = (\<lambda>s. durable_bytes (disk (lstorage s))),
      op_arm = (\<lambda>n s. s\<lparr>lstorage := (lstorage s)\<lparr>disk := arm_crash n (disk (lstorage s))\<rparr>\<rparr>)\<rparr>"

end
