(* ===== verification/BinaryRep.thy ===== *)
theory BinaryRep
  imports BinaryTree StoredTree
begin

text \<open>
  The binary search tree: what a reference represents (\<open>bst\<close>), the reads and updates of the
  nodes in terms of the content, and that a stored tree is read back from the file.
\<close>

section \<open>What a tree represents\<close>

fun clean_tref :: "'k binary_ref \<Rightarrow> bool" where
  "clean_tref (BinaryNodeRef r a) \<longleftrightarrow> (r = None \<and> SUPERBLOCK_SIZE \<le> a) \<or> (r \<noteq> None \<and> a = 0)"

definition tnode_at :: "'k pickle \<Rightarrow> storage \<Rightarrow> 'k binary_ref \<Rightarrow> 'k binary_node \<Rightarrow> bool" where
  "tnode_at P st c n \<longleftrightarrow> clean_tref c \<and> tref_get P st c = Inr (Some n)"

abbreviation empty_ref :: "'k binary_ref" where
  "empty_ref \<equiv> BinaryNodeRef None 0"

text \<open>\<open>bst P st h r xs\<close>: the reference \<open>r\<close> is a search tree of height \<open>h\<close> with content \<open>xs\<close> and right sizes.\<close>

inductive bst :: "'k::linorder pickle \<Rightarrow> storage \<Rightarrow> nat \<Rightarrow> 'k binary_ref \<Rightarrow> 'k content \<Rightarrow> bool"
  for P :: "'k pickle" and st :: storage where
  bst_empty: "bst P st 0 empty_ref []"
| bst_node: "tnode_at P st c (BinaryNode l k v r n) \<Longrightarrow> bst P st a l xs \<Longrightarrow> bst P st b r ys \<Longrightarrow> value_at st v x
    \<Longrightarrow> n = 1 + int (length xs) + int (length ys) \<Longrightarrow> kv_sorted (xs @ (k, x) # ys)
    \<Longrightarrow> bst P st (Suc (max a b)) c (xs @ (k, x) # ys)"

lemma bst_sorted: "bst P st h r xs \<Longrightarrow> kv_sorted xs"
  by (induction rule: bst.induct) auto

lemma bst_height_le: "bst P st h r xs \<Longrightarrow> h \<le> length xs"
  by (induction rule: bst.induct) auto

lemma bst_cases:
  assumes "bst P st h c xs"
  obtains "c = empty_ref" "xs = []" "h = 0" "tref_get P st c = Inr None"
  | l k v r n a b ys zs x where "tref_get P st c = Inr (Some (BinaryNode l k v r n))" "h = Suc (max a b)"
      "xs = ys @ (k, x) # zs" "bst P st a l ys" "bst P st b r zs" "value_at st v x"
      "n = 1 + int (length ys) + int (length zs)" "kv_sorted xs" "\<forall>y\<in>fst ` set ys. y < k" "\<forall>z\<in>fst ` set zs. k < z"
  using assms
proof (cases rule: bst.cases)
  case bst_empty
  then show thesis by (intro that(1)) simp_all
next
  case (bst_node l k v r n a ys b zs x)
  then show thesis
    by (intro that(2) [of l k v r n a b ys x zs]) (auto simp: tnode_at_def sorted_wrt_append)
qed

lemma ref_length_bst: "bst P st h r xs \<Longrightarrow> ref_length P st r = Inr (int (length xs))"
  by (erule bst_cases) (simp_all add: ref_length_def)

text \<open>\<open>_node_ref\<close> builds a represented node from represented children.\<close>

lemma node_ref_bst:
  assumes "bst P st a l xs" "bst P st b r ys" "value_at st v x" "kv_sorted (xs @ (k, x) # ys)"
  obtains c where "node_ref P st l k v r = Inr c" "bst P st (Suc (max a b)) c (xs @ (k, x) # ys)"
proof -
  let ?n = "BinaryNode l k v r (1 + int (length xs) + int (length ys))"
  have "bst P st (Suc (max a b)) (BinaryNodeRef (Some ?n) 0) (xs @ (k, x) # ys)"
    by (rule bst_node [OF _ assms(1-3) refl assms(4)]) (simp add: tnode_at_def)
  then show thesis
    using that ref_length_bst [OF assms(1)] ref_length_bst [OF assms(2)] by (simp add: node_ref_def)
qed

section \<open>Reads\<close>

lemma bin_get_bst:
  "bst P st h c xs \<Longrightarrow> h < lim \<Longrightarrow>
     bindR (tref_get P st c) (\<lambda>node. bin_get P st lim node key) = lookup_result (map_of xs) key"
proof (induction lim arbitrary: h c xs)
  case (Suc lim)
  from Suc.prems(1) show ?case
  proof (cases rule: bst_cases)
    case 1
    then show ?thesis by (simp add: lookup_result_def)
  next
    case (2 l k v r n a b ys zs x)
    have ab: "a < lim" "b < lim" using 2(2) Suc.prems(2) by auto
    have ny: "key \<notin> fst ` set ys" if "\<not> key < k" using 2(9) that by auto
    have nz: "key \<notin> fst ` set zs" if "\<not> k < key" using 2(10) that by auto
    consider "key < k" | "k < key" | "key = k" by fastforce
    then show ?thesis
    proof cases
      case 1
      then have "map_of xs key = map_of ys key"
        using map_of_append_left [of key "(k, x) # zs" ys] nz unfolding 2(3) by auto
      then show ?thesis using Suc.IH [OF 2(4) ab(1)] 1 2(1) by (simp add: lookup_result_def)
    next
      case 3: 2
      then have "map_of xs key = map_of zs key"
        using map_of_append_right [of key ys "(k, x) # zs"] ny unfolding 2(3) by auto
      then show ?thesis using Suc.IH [OF 2(5) ab(2)] 3 2(1) less_not_sym [OF 3] by (simp add: lookup_result_def)
    next
      case 3
      then have "map_of xs key = Some x"
        using map_of_append_right [of key ys "(k, x) # zs"] ny unfolding 2(3) by auto
      then show ?thesis using 2(1,6) 3 by (simp add: lookup_result_def value_at_def)
    qed
  qed
qed simp

lemma bin_items_bst:
  "bst P st h c xs \<Longrightarrow> h < lim \<Longrightarrow> bindR (tref_get P st c) (bin_items P st lim) = Inr (somes xs)"
proof (induction lim arbitrary: h c xs)
  case (Suc lim)
  from Suc.prems(1) show ?case
  proof (cases rule: bst_cases)
    case (2 l k v r n a b ys zs x)
    then show ?thesis using Suc.IH [OF 2(4)] Suc.IH [OF 2(5)] Suc.prems(2) by (simp add: value_at_def)
  qed simp
qed simp

lemma bin_range_bst:
  "bst P st h c xs \<Longrightarrow> h < lim \<Longrightarrow>
     bindR (tref_get P st c) (bin_range P st lim start stop) = Inr (somes (filter (in_range start stop) xs))"
proof (induction lim arbitrary: h c xs)
  case (Suc lim)
  from Suc.prems(1) show ?case
  proof (cases rule: bst_cases)
    case (2 l k v r n a b ys zs x)
    let ?F = "filter (in_range start stop)"
    let ?low = "start = None \<or> the start \<le> k" and ?high = "stop = None \<or> k < the stop"
    have "?F ys = []" if "\<not> ?low"
      using 2(9) that by (cases start) (force simp: filter_empty_conv in_bounds.simps)+
    moreover have "?F zs = []" if "\<not> ?high"
      using 2(10) that by (cases stop) (force simp: filter_empty_conv in_bounds.simps)+
    moreover have "in_bounds start stop k \<longleftrightarrow> ?low \<and> ?high"
      by (cases start; cases stop) (auto simp: in_bounds.simps)
    ultimately show ?thesis
      using 2(1-3,6) Suc.IH [OF 2(4)] Suc.IH [OF 2(5)] Suc.prems(2)
      by (auto simp: value_at_def Let_def)
  qed simp
qed simp

section \<open>Updates\<close>

lemma kv_upd_left: "\<forall>z\<in>fst ` set ((k, x) # zs). key < z \<Longrightarrow> kv_upd key w (ys @ (k, x) # zs) = kv_upd key w ys @ (k, x) # zs"
  using kv_upd_append [of "[]" key "(k, x) # zs" w ys] by simp

lemma bin_insert_bst:
  "bst P st h c xs \<Longrightarrow> h < lim \<Longrightarrow> value_at st w y \<Longrightarrow>
     \<exists>c' h'. bindR (tref_get P st c) (\<lambda>node. bin_insert P st lim node key w) = Inr c'
       \<and> bst P st h' c' (kv_upd key y xs)"
proof (induction lim arbitrary: h c xs)
  case (Suc lim)
  from Suc.prems(1) show ?case
  proof (cases rule: bst_cases)
    case 1
    show ?thesis
      by (rule node_ref_bst [OF bst_empty bst_empty Suc.prems(3), of key]) (use 1 in auto)
  next
    case (2 l k v r n a b ys zs x)
    have ab: "a < lim" "b < lim" using 2(2) Suc.prems(2) by auto
    have sorted: "kv_sorted (kv_upd key y xs)" by (rule kv_sorted_upd [OF 2(8)])
    consider "key < k" | "k < key" | "key = k" by fastforce
    then show ?thesis
    proof cases
      case 1
      then have eq: "kv_upd key y xs = kv_upd key y ys @ (k, x) # zs"
        unfolding 2(3) using 2(10) by (intro kv_upd_left) auto
      obtain c' h' where ih: "bindR (tref_get P st l) (\<lambda>node. bin_insert P st lim node key w) = Inr c'" "bst P st h' c' (kv_upd key y ys)"
        using Suc.IH [OF 2(4) ab(1) Suc.prems(3)] by blast
      show ?thesis
        by (rule node_ref_bst [OF ih(2) 2(5,6) sorted [unfolded eq]])
          (use ih(1) 1 2(1) eq in \<open>auto simp: bindR_eq_Inr\<close>)
    next
      case 3: 2
      then have "\<forall>z\<in>fst ` set (ys @ [(k, x)]). z < key" using 2(9) by (auto intro: less_trans)
      then have eq: "kv_upd key y xs = ys @ (k, x) # kv_upd key y zs"
        unfolding 2(3) using kv_upd_append [of "ys @ [(k, x)]" key "[]" y zs] by simp
      obtain c' h' where ih: "bindR (tref_get P st r) (\<lambda>node. bin_insert P st lim node key w) = Inr c'" "bst P st h' c' (kv_upd key y zs)"
        using Suc.IH [OF 2(5) ab(2) Suc.prems(3)] by blast
      show ?thesis
        by (rule node_ref_bst [OF 2(4) ih(2) 2(6) sorted [unfolded eq]])
          (use ih(1) 3 2(1) eq in \<open>auto simp: bindR_eq_Inr\<close>)
    next
      case 3
      have eq: "kv_upd key y xs = ys @ (key, y) # zs"
        unfolding 2(3) using kv_upd_append [of ys key "[]" y "(k, x) # zs"] 2(9) 3 by auto
      show ?thesis
        by (rule node_ref_bst [OF 2(4,5) Suc.prems(3) sorted [unfolded eq]]) (use 3 2(1) eq in auto)
    qed
  qed
qed simp

lemma pop_min_bst:
  "bst P st h c xs \<Longrightarrow> h \<le> lim \<Longrightarrow> tref_get P st c = Inr (Some m) \<Longrightarrow>
     \<exists>l k v r n c' h' x zs. pop_min P st lim m = Inr (BinaryNode l k v r n, c') \<and> value_at st v x
       \<and> xs = (k, x) # zs \<and> bst P st h' c' zs"
proof (induction lim arbitrary: h c xs m)
  case 0
  from 0(1) show ?case by (cases rule: bst_cases) (use 0 in auto)
next
  case (Suc lim)
  from Suc.prems(1) show ?case
  proof (cases rule: bst_cases)
    case (2 l k v r n a b ys zs x)
    have m: "m = BinaryNode l k v r n" using 2(1) Suc.prems(3) by simp
    show ?thesis
      using 2(4)
    proof (cases rule: bst_cases)
      case e: 1
      then show ?thesis using 2 m by fastforce
    next
      case n: (2 l1 k1 v1 r1 n1 a1 b1 ys1 zs1 x1)
      have "a \<le> lim" using 2(2) Suc.prems(2) by simp
      then obtain l2 k2 v2 r2 n2 c2 h2 x2 zs2 where ih: "pop_min P st lim (BinaryNode l1 k1 v1 r1 n1) = Inr (BinaryNode l2 k2 v2 r2 n2, c2)"
        "value_at st v2 x2" "ys = (k2, x2) # zs2" "bst P st h2 c2 zs2"
        using Suc.IH [OF 2(4) _ n(1)] by blast
      have "kv_sorted (zs2 @ (k, x) # zs)" using 2(8) by (simp add: 2(3) ih(3))
      then obtain c3 where "node_ref P st c2 k v r = Inr c3" "bst P st (Suc (max h2 b)) c3 (zs2 @ (k, x) # zs)"
        by (rule node_ref_bst [OF ih(4) 2(5,6)])
      then show ?thesis using ih(1-3) n(1) by (auto simp: m 2(3))
    qed
  qed (use Suc.prems(3) in simp)
qed

lemma bst_None: "bst P st h c xs \<Longrightarrow> tref_get P st c = Inr None \<Longrightarrow> xs = []"
  by (erule bst_cases) auto

lemma bst_get: "bst P st h c xs \<Longrightarrow> \<exists>node. tref_get P st c = Inr node"
  by (erule bst_cases) simp_all

lemma bin_delete_here:
  assumes t: "bst P st a l ys" "bst P st b r zs" "value_at st v x" "kv_sorted (ys @ (k, x) # zs)" "b \<le> lim"
    and get: "tref_get P st c = Inr (Some (BinaryNode l k v r n))"
  shows "\<exists>c' h'. bindR (tref_get P st c) (\<lambda>node. bin_delete P st (Suc lim) node k) = Inr c' \<and> bst P st h' c' (ys @ zs)"
proof -
  obtain left right where lr: "tref_get P st l = Inr left" "tref_get P st r = Inr right"
    using bst_get [OF t(1)] bst_get [OF t(2)] by blast
  show ?thesis
  proof (cases left)
    case None
    then have "ys = []" using bst_None [OF t(1)] lr by simp
    then show ?thesis using get lr None t(2) by auto
  next
    case (Some m1)
    show ?thesis
    proof (cases right)
      case None
      then have "zs = []" using bst_None [OF t(2)] lr by simp
      then show ?thesis using get lr None Some t(1) by auto
    next
      case (Some m2)
      obtain l2 k2 v2 r2 n2 c2 h2 x2 zs2 where p: "pop_min P st lim m2 = Inr (BinaryNode l2 k2 v2 r2 n2, c2)"
        "value_at st v2 x2" "zs = (k2, x2) # zs2" "bst P st h2 c2 zs2"
        using pop_min_bst [OF t(2,5)] lr(2) Some by blast
      have "kv_sorted (ys @ (k2, x2) # zs2)" using t(4) by (auto simp: p(3) sorted_wrt_append)
      then obtain c3 where "node_ref P st l k2 v2 c2 = Inr c3" "bst P st (Suc (max a h2)) c3 (ys @ (k2, x2) # zs2)"
        by (rule node_ref_bst [OF t(1) p(4,2)])
      then show ?thesis using get lr Some \<open>left = Some m1\<close> p(1,3) by auto
    qed
  qed
qed

lemma bin_delete_bst:
  "bst P st h c xs \<Longrightarrow> h < lim \<Longrightarrow>
     if key \<in> fst ` set xs
     then \<exists>c' h'. bindR (tref_get P st c) (\<lambda>node. bin_delete P st lim node key) = Inr c' \<and> bst P st h' c' (kv_del key xs)
     else bindR (tref_get P st c) (\<lambda>node. bin_delete P st lim node key) = Inl KeyError"
proof (induction lim arbitrary: h c xs)
  case (Suc lim)
  from Suc.prems(1) show ?case
  proof (cases rule: bst_cases)
    case 1
    then show ?thesis by simp
  next
    case (2 l k v r n a b ys zs x)
    have ab: "a < lim" "b < lim" using 2(2) Suc.prems(2) by auto
    have sorted: "kv_sorted (kv_del key xs)" by (rule kv_sorted_del [OF 2(8)])
    consider "key < k" | "k < key" | "key = k" by fastforce
    then show ?thesis
    proof cases
      case 1
      have nz: "key \<notin> fst ` set ((k, x) # zs)" using 2(10) 1 by auto
      then have eq: "kv_del key xs = kv_del key ys @ (k, x) # zs" "key \<in> fst ` set xs \<longleftrightarrow> key \<in> fst ` set ys"
        using kv_del_append [of key "[]" "(k, x) # zs" ys] unfolding 2(3) by auto
      show ?thesis
      proof (cases "key \<in> fst ` set ys")
        case True
        then obtain c' h' where ih: "bindR (tref_get P st l) (\<lambda>node. bin_delete P st lim node key) = Inr c'" "bst P st h' c' (kv_del key ys)"
          using Suc.IH [OF 2(4) ab(1)] by auto
        obtain c2 where "node_ref P st c' k v r = Inr c2" "bst P st (Suc (max h' b)) c2 (kv_del key ys @ (k, x) # zs)"
          by (rule node_ref_bst [OF ih(2) 2(5,6) sorted [unfolded eq]])
        then show ?thesis using ih(1) 1 2(1) True eq by (auto simp: bindR_eq_Inr)
      next
        case False
        then have "bindR (tref_get P st l) (\<lambda>node. bin_delete P st lim node key) = Inl KeyError"
          using Suc.IH [OF 2(4) ab(1)] by simp
        then show ?thesis using 1 2(1) False eq by (simp add: bindR_assoc [symmetric])
      qed
    next
      case 3: 2
      have ny: "key \<notin> fst ` set (ys @ [(k, x)])" using 2(9) 3 by auto
      then have eq: "kv_del key xs = ys @ (k, x) # kv_del key zs" "key \<in> fst ` set xs \<longleftrightarrow> key \<in> fst ` set zs"
        using kv_del_append [of key "ys @ [(k, x)]" "[]" zs] unfolding 2(3) by auto
      show ?thesis
      proof (cases "key \<in> fst ` set zs")
        case True
        then obtain c' h' where ih: "bindR (tref_get P st r) (\<lambda>node. bin_delete P st lim node key) = Inr c'" "bst P st h' c' (kv_del key zs)"
          using Suc.IH [OF 2(5) ab(2)] by auto
        obtain c2 where "node_ref P st l k v c' = Inr c2" "bst P st (Suc (max a h')) c2 (ys @ (k, x) # kv_del key zs)"
          by (rule node_ref_bst [OF 2(4) ih(2) 2(6) sorted [unfolded eq]])
        then show ?thesis using ih(1) 3 2(1) True eq by (auto simp: bindR_eq_Inr)
      next
        case False
        then have "bindR (tref_get P st r) (\<lambda>node. bin_delete P st lim node key) = Inl KeyError"
          using Suc.IH [OF 2(5) ab(2)] by simp
        then show ?thesis using 3 2(1) False eq less_not_sym [OF 3] by (simp add: bindR_assoc [symmetric])
      qed
    next
      case 3
      have "key \<notin> fst ` set ys" "key \<notin> fst ` set zs" using 2(9,10) 3 by auto
      then have eq: "kv_del key xs = ys @ zs" "key \<in> fst ` set xs"
        using kv_del_append [of key ys zs "[(k, x)]"] unfolding 2(3) by (simp_all add: 3)
      show ?thesis
        using bin_delete_here [OF 2(4-6) 2(8) [unfolded 2(3)] _ 2(1), of lim] ab(2) eq 3 by simp
    qed
  qed
qed simp

section \<open>Later files and storing\<close>

lemma tnode_at_extends: "extends st st' \<Longrightarrow> tnode_at P st c n \<Longrightarrow> tnode_at P st' c n"
  by (cases c) (auto simp: tnode_at_def bindR_eq_Inr split: if_splits dest: extends_read)

lemma bst_extends: "bst P st h c xs \<Longrightarrow> extends st st' \<Longrightarrow> bst P st' h c xs"
proof (induction rule: bst.induct)
  case (bst_node c l k v r n a xs b ys x)
  then show ?case using tnode_at_extends value_at_extends by (intro bst.bst_node) auto
qed (rule bst_empty)

definition tref_addr :: "'k binary_ref \<Rightarrow> 'k binary_ref" where
  "tref_addr c = BinaryNodeRef None (tref_address c)"

fun tnode_addr :: "'k binary_node \<Rightarrow> 'k binary_node" where
  "tnode_addr (BinaryNode l k v r n) = BinaryNode (tref_addr l) k (vref_addr v) (tref_addr r) n"

lemma pickle_tnode: "pickle_ok P \<Longrightarrow> bindR (loads P (tnode_to_bytes P n)) pickled_to_tnode = Inr (tnode_addr n)"
  by (cases n) (simp add: pickle_ok_def tref_addr_def vref_addr_def)

lemma tref_store_bst:
  assumes P: "pickle_ok P"
  shows "bst P st h c xs \<Longrightarrow> \<forall>st1 x c' st2. writable st1 \<longrightarrow> extends st st1 \<longrightarrow> tref_store P c st1 = (x, c', st2)
    \<longrightarrow> stores x st1 st2 (bst P st2 h (tref_addr c') xs)"
proof (induction rule: bst.induct)
  case bst_empty
  then show ?case by (auto simp: stores_def tref_addr_def intro: bst.bst_empty exI [of _ "[]"])
next
  case (bst_node c l k v r n a xs b ys x)
  note h = bst_node
  show ?case
  proof (intro allI impI)
    fix st1 e c' st2
    assume st1: "writable st1" "extends st st1" "tref_store P c st1 = (e, c', st2)"
    obtain q ad where c: "c = BinaryNodeRef q ad" by (cases c)
    show "stores e st1 st2 (bst P st2 (Suc (max a b)) (tref_addr c') (xs @ (k, x) # ys))"
    proof (cases q)
      case None
      then have "c' = c" "e = Inr ()" "st2 = st1" "tref_addr c = c" using st1(3) c by (auto simp: tref_addr_def)
      then show ?thesis
        using bst_extends [OF bst.bst_node [OF h(1-6)] st1(2)] by (auto simp: stores_def intro: exI [of _ "[]"])
    next
      case (Some q')
      then have c0: "c = BinaryNodeRef (Some (BinaryNode l k v r n)) 0" using h(1) c by (auto simp: tnode_at_def)
      obtain x1 v' s1 where e1: "vref_store v st1 = (x1, v', s1)" by (cases "vref_store v st1")
      obtain x2 l' s2 where e2: "tref_store P l s1 = (x2, l', s2)" by (cases "tref_store P l s1")
      obtain x3 r' s3 where e3: "tref_store P r s2 = (x3, r', s3)" by (cases "tref_store P r s2")
      let ?n = "BinaryNode l' k v' r' n"
      obtain x4 s4 where e4: "storage_write (tnode_to_bytes P ?n) s3 = (x4, s4)" by fastforce
      have 1: "stores x1 st1 s1 (value_at s1 (vref_addr v') x)"
        by (rule vref_store_ok [OF e1 st1(1) value_at_extends [OF st1(2) h(4)]])
      have s1: "writable s1" "extends st s1" using stores_writable [OF 1 st1(1)] extends_trans [OF st1(2)] by auto
      have 2: "stores x2 s1 s2 (bst P s2 a (tref_addr l') xs)" using h(7) s1 e2 by blast
      have s2: "writable s2" "extends s1 s2" "extends st s2"
        using stores_writable [OF 2 s1(1)] extends_trans [OF s1(2)] by auto
      have 3: "stores x3 s2 s3 (bst P s3 b (tref_addr r') ys)" using h(8) s2 e3 by blast
      have s3: "writable s3" "extends s2 s3" using stores_writable [OF 3 s2(1)] by auto
      have err: "e = Inl StructError \<and> (\<exists>bs. appended st1 st2 bs \<and> records bs)" if "x1 \<noteq> Inr () \<or> x2 \<noteq> Inr () \<or> x3 \<noteq> Inr ()"
        using st1(3) e1 e2 e3 1 2 3 that
        by (cases x1; cases x2; cases x3) (auto simp: c0 stores_def, (meson appended_trans records_append)+)
      show ?thesis
      proof (cases "x1 = Inr () \<and> x2 = Inr () \<and> x3 = Inr ()")
        case False
        then show ?thesis using err by (auto simp: stores_def)
      next
        case True
        let ?ok = "value_at s3 (vref_addr v') x \<and> bst P s3 a (tref_addr l') xs \<and> bst P s3 b (tref_addr r') ys"
        have 1: "stores (Inr ()) st1 s1 (value_at s1 (vref_addr v') x)" and 2: "stores (Inr ()) s1 s2 (bst P s2 a (tref_addr l') xs)"
          and 3: "stores (Inr ()) s2 s3 (bst P s3 b (tref_addr r') ys)"
          using 1 2 3 True by simp_all
        have "stores (Inr ()) st1 s2 (value_at s2 (vref_addr v') x \<and> bst P s2 a (tref_addr l') xs)"
          by (rule stores_trans [OF 1 2]) (simp add: value_at_extends [OF s2(2)])
        then have all: "stores (Inr ()) st1 s3 ?ok"
          by (rule stores_trans [OF _ 3]) (simp add: value_at_extends [OF s3(2)] bst_extends [OF _ s3(2)])
        show ?thesis
          using all s3(1) e4
        proof (cases rule: stores_write)
          case w: (1 a')
          have res: "e = Inr ()" "c' = BinaryNodeRef (Some ?n) a'" "st2 = s4"
            using st1(3) e1 e2 e3 e4 True w(1) by (simp_all add: c0)
          have "bst P s4 (Suc (max a b)) (tref_addr c') (xs @ (k, x) # ys)" if ?ok
          proof (rule bst.bst_node)
            show "tnode_at P s4 (tref_addr c') (BinaryNode (tref_addr l') k (vref_addr v') (tref_addr r') n)"
              using w(2,3) pickle_tnode [OF P, of ?n] by (simp add: res tref_addr_def tnode_at_def layout_defs)
          qed (use that w(4) bst_extends value_at_extends h(5,6) in auto)
          then show ?thesis using w(5) by (simp add: res)
        next
          case w: 2
          then show ?thesis using st1(3) e1 e2 e3 e4 True by (simp add: c0)
        qed
      qed
    qed
  qed
qed

end
