(* ===== verification/BinaryEngine.thy ===== *)
theory BinaryEngine
  imports BinaryRep
begin

text \<open>
  The binary tree as an index engine: the same contracts as the B+ tree, \<open>versioned_tree\<close>
  towards the storage, \<open>logical_engine\<close> below \<open>LogicalBase\<close> and \<open>index_engine\<close> towards the
  database, interpreted on the model of \<open>binary_tree.py\<close>.
\<close>

definition bin_tree :: "'k::linorder pickle \<Rightarrow> storage \<Rightarrow> 'k binary_ref \<Rightarrow> 'k content \<Rightarrow> bool" where
  "bin_tree P st r xs \<longleftrightarrow> (\<exists>h. bst P st h r xs)"

lemma bin_treeE:
  assumes "bin_tree P st r xs" "length xs < lim"
  obtains h where "bst P st h r xs" "h < lim"
  using assms bst_height_le unfolding bin_tree_def by (metis le_less_trans)

interpretation binv: versioned_tree "bin_tree P" "tref_store P" tref_address "BinaryNodeRef None" "pickle_ok P"
  for P :: "'k::linorder pickle"
proof unfold_locales
  fix st st' :: storage and r and xs :: "'k content"
  show "extends st st' \<Longrightarrow> bin_tree P st r xs \<Longrightarrow> bin_tree P st' r xs"
    using bst_extends unfolding bin_tree_def by blast
next
  fix st st' :: storage and r r' x and xs :: "'k content"
  assume a: "pickle_ok P" "bin_tree P st r xs" "writable st" "tref_store P r st = (x, r', st')"
  then obtain h where h: "bst P st h r xs" by (auto simp: bin_tree_def)
  have "stores x st st' (bst P st' h (tref_addr r') xs)"
    using tref_store_bst [OF a(1) h] a(3,4) by simp
  then show "stores x st st' (bin_tree P st' (BinaryNodeRef None (tref_address r')) xs)"
    by (auto simp: stores_def bin_tree_def tref_addr_def)
next
  fix st
  show "bin_tree P st (BinaryNodeRef None 0) []" using bst_empty by (auto simp: bin_tree_def)
qed

section \<open>The invariant\<close>

definition bin_inv :: "'k::linorder pickle \<Rightarrow> 'k binary_tree \<Rightarrow> meta \<Rightarrow> 'k content \<Rightarrow> 'k content \<Rightarrow> bool" where
  "bin_inv P s m xs ys \<longleftrightarrow>
     storage_inv (lstorage s) m \<and> durability (lstorage s) = DURABILITY_FULL
     \<and> committed (bin_tree P) (BinaryNodeRef None) m (live (disk (lstorage s))) xs
     \<and> bin_tree P (lstorage s) (tree_ref s) ys \<and> (\<not> locked (lstorage s) \<longrightarrow> ys = xs)"

definition bin_rep :: "'k::linorder pickle \<Rightarrow> nat \<Rightarrow> 'k binary_tree \<Rightarrow> 'k content \<Rightarrow> 'k content \<Rightarrow> bool" where
  "bin_rep P lim s xs ys \<longleftrightarrow> (\<exists>m. bin_inv P s m xs ys) \<and> length xs < lim \<and> length ys < lim"

lemma bin_repE:
  assumes "bin_rep P lim s xs ys"
  obtains m h where "bin_inv P s m xs ys" "length xs < lim" "length ys < lim" "bst P (lstorage s) h (tree_ref s) ys" "h < lim"
proof -
  obtain m where m: "bin_inv P s m xs ys" "length xs < lim" "length ys < lim" using assms by (auto simp: bin_rep_def)
  have "bin_tree P (lstorage s) (tree_ref s) ys" using m(1) by (simp add: bin_inv_def)
  then obtain h where "bst P (lstorage s) h (tree_ref s) ys" "h < lim" using m(3) by (rule bin_treeE)
  then show thesis by (rule that [OF m])
qed

lemma bin_refresh_inv:
  "storage_inv (lstorage s) m \<Longrightarrow> bin_refresh s = (Inr (), s\<lparr>tree_ref := BinaryNodeRef None (root_address m)\<rparr>)"
  by (simp add: bin_refresh_def on_storage_def get_root_address_def refresh_meta_inv act_defs bindS_def)

lemma bin_inv_at_root:
  assumes "storage_inv (lstorage s) m" "durability (lstorage s) = DURABILITY_FULL"
    and "committed (bin_tree P) (BinaryNodeRef None) m (live (disk (lstorage s))) xs"
  shows "bin_inv P (s\<lparr>tree_ref := BinaryNodeRef None (root_address m)\<rparr>) m xs xs"
  using assms binv.committed_live [OF assms(3)] by (simp add: bin_inv_def)

lemma bin_refresh_law:
  assumes "bin_rep P lim s xs ys"
  shows "\<exists>s'. bin_refresh s = (Inr (), s') \<and> bin_rep P lim s' xs xs \<and> lstorage s' = lstorage s"
proof (rule bin_repE [OF assms])
  fix m
  assume m: "bin_inv P s m xs ys" "length xs < lim"
  then have "bin_inv P (s\<lparr>tree_ref := BinaryNodeRef None (root_address m)\<rparr>) m xs xs"
    by (intro bin_inv_at_root) (simp_all add: bin_inv_def)
  then show ?thesis using m bin_refresh_inv [of s m] by (auto simp: bin_rep_def bin_inv_def)
qed

lemma bin_inv_lock: "bin_inv P s m xs ys \<Longrightarrow> bin_inv P (hold_lock s) m xs ys"
  by (auto simp: bin_inv_def storage_inv_def read_best_meta_file extends_def intro: binv.later [rotated])

lemma bin_rep_update:
  assumes "bin_rep P lim s xs ys" "locked (lstorage s)" "bst P (lstorage s) h r zs" "length zs < lim"
  shows "bin_rep P lim (s\<lparr>tree_ref := r\<rparr>) xs zs"
  using assms by (auto simp: bin_rep_def bin_inv_def bin_tree_def)

lemma binary_class_simps [simp]:
  "refresh_tree_ref (binary_class P lim) = bin_refresh"
  "follow (binary_class P lim) = tref_get P"
  "get_node (binary_class P lim) s = bin_get P (lstorage s) lim"
  "insert_node (binary_class P lim) node key v s = (bin_insert P (lstorage s) lim node key v, s)"
  "delete_node (binary_class P lim) node key s = (bin_delete P (lstorage s) lim node key, s)"
  "items_node (binary_class P lim) s = bin_items P (lstorage s) lim"
  "range_node (binary_class P lim) s node start stop = bin_range P (lstorage s) lim start stop node"
  by (simp_all add: binary_class_def lift_def)

section \<open>The methods\<close>

lemma bin_read_law:
  assumes "bin_rep P lim s xs ys"
  shows "\<exists>node. tref_get P (lstorage s) (tree_ref s) = Inr node
      \<and> bin_get P (lstorage s) lim node k = lookup_result (map_of ys) k
      \<and> bin_items P (lstorage s) lim node = Inr (somes ys)
      \<and> bin_range P (lstorage s) lim a b node = Inr (somes (filter (in_range a b) ys))"
proof (rule bin_repE [OF assms])
  fix h
  assume h: "bst P (lstorage s) h (tree_ref s) ys" "h < lim"
  obtain node where "tref_get P (lstorage s) (tree_ref s) = Inr node" using bst_get [OF h(1)] by blast
  then show ?thesis
    using bin_get_bst [OF h, of k] bin_items_bst [OF h] bin_range_bst [OF h, of a b] by simp
qed

lemma bin_insert_law:
  assumes rep: "bin_rep P lim s xs ys" and l: "locked (lstorage s)" and len: "Suc (length ys) < lim"
    and node: "tref_get P (lstorage s) (tree_ref s) = Inr node"
  shows "\<exists>r. bin_insert P (lstorage s) lim node k (ValueRef (Some v) 0) = Inr r
    \<and> bin_rep P lim (s\<lparr>tree_ref := r\<rparr>) xs (kv_upd k v ys)"
proof (rule bin_repE [OF rep])
  fix h
  assume h: "bst P (lstorage s) h (tree_ref s) ys" "h < lim"
  have v: "value_at (lstorage s) (ValueRef (Some v) 0) v" by (simp add: value_at_def)
  obtain r h' where r: "bin_insert P (lstorage s) lim node k (ValueRef (Some v) 0) = Inr r"
    "bst P (lstorage s) h' r (kv_upd k v ys)"
    using bin_insert_bst [OF h v, of k] node by auto
  have "length (kv_upd k v ys) < lim" using length_kv_upd [OF bst_sorted [OF h(1)], of k v] len by auto
  then show ?thesis using bin_rep_update [OF rep l r(2)] r(1) by blast
qed

lemma bin_delete_law:
  assumes rep: "bin_rep P lim s xs ys" and l: "locked (lstorage s)" and k: "k \<in> fst ` set ys"
    and node: "tref_get P (lstorage s) (tree_ref s) = Inr node"
  shows "\<exists>r. bin_delete P (lstorage s) lim node k = Inr r \<and> bin_rep P lim (s\<lparr>tree_ref := r\<rparr>) xs (kv_del k ys)"
proof (rule bin_repE [OF rep])
  fix h
  assume h: "bst P (lstorage s) h (tree_ref s) ys" "h < lim" "length ys < lim"
  obtain r h' where r: "bin_delete P (lstorage s) lim node k = Inr r" "bst P (lstorage s) h' r (kv_del k ys)"
    using bin_delete_bst [OF h(1,2), of k] node k by auto
  have "length (kv_del k ys) < lim" using h(3) by (auto simp: length_kv_del)
  then show ?thesis using bin_rep_update [OF rep l r(2)] r(1) by blast
qed

lemma bin_delete_missing_law:
  assumes "bin_rep P lim s xs ys" "k \<notin> fst ` set ys" "tref_get P (lstorage s) (tree_ref s) = Inr node"
  shows "bin_delete P (lstorage s) lim node k = Inl KeyError"
proof (rule bin_repE [OF assms(1)])
  fix h
  assume h: "bst P (lstorage s) h (tree_ref s) ys" "h < lim"
  show ?thesis using bin_delete_bst [OF h, of k] assms(2,3) by simp
qed

interpretation binl: logical_engine "binary_class P lim" "bin_rep P lim" lim
  for P :: "'k::linorder pickle" and lim :: nat
proof (unfold_locales, unfold binary_class_simps, goal_cases)
  case 1
  then show ?case by (auto simp: bin_rep_def bin_inv_def)
next
  case 2
  then show ?case by (rule bin_refresh_law)
next
  case 3
  then show ?case by (auto simp: bin_rep_def intro: bin_inv_lock)
next
  case 4
  then show ?case by (rule bin_read_law)
next
  case (5 s xs ys node k v)
  then show ?case using bin_insert_law [OF 5, of k v] by auto
next
  case (6 s xs ys k node)
  then show ?case using bin_delete_law [OF 6] by auto
next
  case 7
  then show ?case using bin_delete_missing_law by blast
qed

lemma bin_length_ok:
  assumes "bin_rep P lim s xs ys"
  obtains s' where "bin_length P s = (Inr (int (length ys)), s')" "bin_rep P lim s' xs ys" "lstorage s' = lstorage s"
proof -
  obtain s' where s': "whenS (\<not> locked (lstorage s)) bin_refresh s = (Inr (), s')"
    "bin_rep P lim s' xs ys" "lstorage s' = lstorage s"
    by (rule binl.refresh_when_unlocked [OF assms, unfolded binary_class_simps])
  obtain h where "bst P (lstorage s') h (tree_ref s') ys" by (rule bin_repE [OF s'(2)])
  then have "ref_length P (lstorage s') (tree_ref s') = Inr (int (length ys))" by (rule ref_length_bst)
  then have "bin_length P s = (Inr (int (length ys)), s')"
    using s'(1) by (auto simp: bin_length_def bindS_def gets_def lift_def ret_def ref_length_def bindR_eq_Inr)
  then show thesis using s' by (intro that)
qed

section \<open>Opening and commit\<close>

lemma bin_open_storage:
  assumes "Storage (SimDisk f) DURABILITY_FULL False = (Inr (), st)" "storage_inv st m" "durability st = DURABILITY_FULL"
    and "committed (bin_tree P) (BinaryNodeRef None) m (live (disk st)) xs" "length xs < lim"
  obtains s where "bin_open f = (Inr (), s)" "bin_rep P lim s xs xs" "lstorage s = st"
proof -
  let ?init = "\<lparr>lstorage = st, tree_ref = BinaryNodeRef None 0\<rparr>"
  let ?s = "?init\<lparr>tree_ref := BinaryNodeRef None (root_address m)\<rparr>"
  have "bin_inv P ?s m xs xs" by (rule bin_inv_at_root) (simp_all add: assms)
  then have "bin_rep P lim ?s xs xs" using assms(5) by (auto simp: bin_rep_def)
  moreover have "bin_open f = (Inr (), ?s)"
    using assms(1,2) bin_refresh_inv [of ?init m] by (simp add: bin_open_def BinaryTree_def)
  ultimately show thesis by (intro that [of ?s]) simp_all
qed

lemma bin_reopen:
  assumes m: "bin_inv P s m xs ys" and r: "recoverable m (lstorage s) st'" and len: "length xs < lim"
  obtains s' where "bin_open (durable_bytes (disk st')) = (Inr (), s')" "bin_rep P lim s' xs xs"
    "crash_at_flush (disk (lstorage s')) = None"
proof -
  have i: "storage_inv (lstorage s) m" "committed (bin_tree P) (BinaryNodeRef None) m (live (disk (lstorage s))) xs"
    "data_length m \<le> length (durable (disk st'))"
    "take (data_length m) (durable (disk st')) = take (data_length m) (live (disk (lstorage s)))"
    using m r by (auto simp: bin_inv_def recoverable_def)
  obtain st2 where st2: "Storage (SimDisk (durable (disk st'))) DURABILITY_FULL False = (Inr (), st2)"
    "storage_inv st2 m" "durability st2 = DURABILITY_FULL" "committed (bin_tree P) (BinaryNodeRef None) m (live (disk st2)) xs"
    and c: "crash_at_flush (disk st2) = None"
    by (rule binv.reopen [OF i])
  obtain s' where "bin_open (durable (disk st')) = (Inr (), s')" "bin_rep P lim s' xs xs" "lstorage s' = st2"
    by (rule bin_open_storage [OF st2 len])
  then show thesis using c by (intro that [of s']) (simp_all add: durable_bytes_def)
qed

lemma bin_commit_eq:
  assumes "tref_store P (tree_ref s) (lstorage s) = (x, r, st1)"
  shows "bin_commit P s =
    (case x of Inl e \<Rightarrow> (Inl e, s\<lparr>lstorage := st1, tree_ref := r\<rparr>)
     | Inr _ \<Rightarrow>
       (case commit_root_address (tref_address r) 0 st1 of
          (Inl e, st2) \<Rightarrow> (Inl e, s\<lparr>tree_ref := r, lstorage := st2\<rparr>)
        | (Inr _, st2) \<Rightarrow> bin_refresh (s\<lparr>tree_ref := r, lstorage := st2\<rparr>)))"
  using assms by (simp add: bin_commit_def bindS_def lift_def gets_def on_storage_def split: prod.splits sum.splits)

lemma bin_commit_ok:
  assumes rep: "bin_rep P lim s xs ys" and P: "pickle_ok P"
  obtains (ok) s' where "bin_commit P s = (Inr (), s')" "bin_rep P lim s' ys ys" "\<not> locked (lstorage s')"
      "crash_at_flush (disk (lstorage s')) = crash_at_flush (disk (lstorage s))"
      "flushed_twice (disk (lstorage s)) (disk (lstorage s'))"
  | (fails) e s' s'' where "bin_commit P s = (Inl e, s')" "e = StructError \<or> e = SimCrash"
      "bin_open (durable_bytes (disk (lstorage s'))) = (Inr (), s'')" "bin_rep P lim s'' xs xs"
      "e = SimCrash \<Longrightarrow> crashes_soon (disk (lstorage s))" "crash_at_flush (disk (lstorage s'')) = None"
proof (rule bin_repE [OF rep])
  fix m
  assume m: "bin_inv P s m xs ys" and len: "length xs < lim" "length ys < lim"
  have inv: "storage_inv (lstorage s) m" "durability (lstorage s) = DURABILITY_FULL" "bin_tree P (lstorage s) (tree_ref s) ys"
    using m by (auto simp: bin_inv_def)
  obtain x r st1 where st: "tref_store P (tree_ref s) (lstorage s) = (x, r, st1)"
    by (cases "tref_store P (tree_ref s) (lstorage s)")
  have again: thesis if A: "bin_commit P s = (Inl e, s')" "e = StructError \<or> e = SimCrash"
      "recoverable m (lstorage s) (lstorage s')"
      "e = SimCrash \<longrightarrow> crashes_soon (disk (lstorage s))" for e s'
  proof -
    obtain s'' where "bin_open (durable_bytes (disk (lstorage s'))) = (Inr (), s'')" "bin_rep P lim s'' xs xs"
      "crash_at_flush (disk (lstorage s'')) = None"
      by (rule bin_reopen [OF m A(3) len(1)])
    then show thesis using fails [OF A(1,2)] A(4) by blast
  qed
  show thesis
    using P inv st
  proof (cases rule: binv.store_and_commit [where n = 0])
    case (ok st2 new)
    let ?s = "s\<lparr>tree_ref := r, lstorage := st2\<rparr>"
    have c: "bin_commit P s = (Inr (), ?s\<lparr>tree_ref := BinaryNodeRef None (root_address new)\<rparr>)"
      using ok bin_refresh_inv [of ?s new] by (simp add: bin_commit_eq [OF st])
    have "bin_inv P (?s\<lparr>tree_ref := BinaryNodeRef None (root_address new)\<rparr>) new ys ys"
      using ok by (intro bin_inv_at_root) simp_all
    then have "bin_rep P lim (?s\<lparr>tree_ref := BinaryNodeRef None (root_address new)\<rparr>) ys ys"
      using len by (auto simp: bin_rep_def)
    then show thesis using ok by (intro that(1) [OF c]) simp_all
  next
    case store_fails
    then show thesis
      by (intro again [of StructError "s\<lparr>lstorage := st1, tree_ref := r\<rparr>"]) (simp_all add: bin_commit_eq [OF st])
  next
    case (commit_fails e st2)
    then show thesis
      by (intro again [of e "s\<lparr>tree_ref := r, lstorage := st2\<rparr>"]) (simp_all add: bin_commit_eq [OF st])
  qed
qed

section \<open>The contract\<close>

definition bin_state :: "'k::linorder pickle \<Rightarrow> nat \<Rightarrow> 'k binary_tree \<Rightarrow> 'k content \<Rightarrow> 'k content \<Rightarrow> bool" where
  "bin_state P lim s xs ys \<longleftrightarrow> pickle_ok P \<and> bin_rep P lim s xs ys"

lemmas bin_ops_simps = bin_state_def binary_ops_def reopened_def flushes_left_None

lemma bin_stateD: "bin_state P lim s xs ys \<Longrightarrow> pickle_ok P" "bin_state P lim s xs ys \<Longrightarrow> bin_rep P lim s xs ys"
  by (simp_all add: bin_state_def)

lemma bin_rep_sorted: "bin_rep P lim s xs ys \<Longrightarrow> kv_sorted xs \<and> kv_sorted ys"
  by (auto simp: bin_rep_def bin_inv_def committed_def bin_tree_def dest: bst_sorted)

lemma bin_rep_reopen:
  assumes "bin_rep P lim s xs ys"
  obtains s' where "bin_open (durable_bytes (disk (lstorage s))) = (Inr (), s')" "bin_rep P lim s' xs xs"
    "crash_at_flush (disk (lstorage s')) = None"
proof -
  obtain m where m: "bin_inv P s m xs ys" "length xs < lim" using assms by (auto simp: bin_rep_def)
  have "recoverable m (lstorage s) (lstorage s)" using m(1) by (intro storage_inv_recoverable) (auto simp: bin_inv_def)
  then show thesis using bin_reopen [OF m(1) _ m(2)] that by blast
qed

lemma bin_rep_arm:
  "bin_rep P lim s xs ys \<Longrightarrow> bin_rep P lim (s\<lparr>lstorage := (lstorage s)\<lparr>disk := arm_crash n (disk (lstorage s))\<rparr>\<rparr>) xs ys"
proof -
  assume "bin_rep P lim s xs ys"
  then obtain m where m: "bin_inv P s m xs ys" "length xs < lim" "length ys < lim" by (auto simp: bin_rep_def)
  let ?st = "(lstorage s)\<lparr>disk := arm_crash n (disk (lstorage s))\<rparr>"
  have "extends (lstorage s) ?st" by (simp add: extends_def arm_crash_def)
  moreover have "storage_inv ?st m" using m(1) by (auto simp: bin_inv_def storage_inv_def read_best_meta_file arm_crash_def)
  ultimately have "bin_inv P (s\<lparr>lstorage := ?st\<rparr>) m xs ys"
    using m(1) binv.later [of "lstorage s" ?st P] by (auto simp: bin_inv_def arm_crash_def)
  then show ?thesis using m by (auto simp: bin_rep_def)
qed

interpretation bin: index_engine "binary_ops P lim" "bin_state P lim" lim lstorage
  for P :: "'k::linorder pickle" and lim :: nat
proof (unfold_locales, goal_cases)
  case (1 s xs ys)
  then show ?case using bin_rep_sorted [of P lim s xs ys] by (simp add: bin_state_def)
next
  case (2 s xs ys k)
  show ?case by (rule binl.get_ok [OF bin_stateD(2) [OF 2], of k]) (use bin_stateD(1) [OF 2] in \<open>auto simp: bin_ops_simps\<close>)
next
  case (3 s xs ys k v)
  show ?case by (rule binl.set_ok [OF bin_stateD(2) [OF 3(1)] 3(2), of k v]) (use bin_stateD(1) [OF 3(1)] in \<open>auto simp: bin_ops_simps\<close>)
next
  case (4 s xs ys k)
  show ?case by (rule binl.delete_ok [OF bin_stateD(2) [OF 4], of k]) (use bin_stateD(1) [OF 4] in \<open>auto simp: bin_ops_simps\<close>)
next
  case (5 s xs ys)
  show ?case by (rule binl.items_ok [OF bin_stateD(2) [OF 5]]) (use bin_stateD(1) [OF 5] in \<open>auto simp: bin_ops_simps\<close>)
next
  case (6 s xs ys a b)
  show ?case by (rule binl.range_ok [OF bin_stateD(2) [OF 6], of a b]) (use bin_stateD(1) [OF 6] in \<open>auto simp: bin_ops_simps\<close>)
next
  case (7 s xs ys)
  show ?case by (rule bin_length_ok [OF bin_stateD(2) [OF 7]]) (use bin_stateD(1) [OF 7] in \<open>auto simp: bin_ops_simps\<close>)
next
  case (8 s xs ys)
  show ?case by (rule bin_commit_ok [OF bin_stateD(2,1) [OF 8]]) (use bin_stateD(1) [OF 8] in \<open>auto simp: bin_ops_simps\<close>)
next
  case (9 s xs ys)
  show ?case by (rule bin_rep_reopen [OF bin_stateD(2) [OF 9]]) (use bin_stateD(1) [OF 9] in \<open>auto simp: bin_ops_simps\<close>)
next
  case (10 s xs ys n)
  then show ?case using bin_rep_arm [of P lim s xs ys n] by (simp add: bin_ops_simps)
qed

lemma bin_open_fresh:
  assumes "length f < SUPERBLOCK_SIZE" "0 < lim"
  obtains s where "bin_open f = (Inr (), s)" "bin_rep P lim s [] []" "crash_at_flush (disk (lstorage s)) = None"
proof -
  obtain st where st: "Storage (SimDisk f) DURABILITY_FULL False = (Inr (), st)" "storage_inv st (empty_meta 0)"
    "durability st = DURABILITY_FULL" and c: "crash_at_flush (disk st) = None"
    by (rule Storage_initialises [OF assms(1)])
  show thesis
    by (rule bin_open_storage [OF st binv.committed_empty]) (use assms(2) c that in auto)
qed

end
