(* ===== verification/BinaryProperties.thy ===== *)
theory BinaryProperties
  imports BinaryEngine BPlusAudit
begin

text \<open>
  The properties of the binary tree: its audit, the refinement of the same specification that
  the B+ tree refines, and with it the agreement of the two engines.
\<close>

section \<open>Audit\<close>

definition loaded :: "nat \<Rightarrow> 'k audit_state \<Rightarrow> 'k audit_state" where
  "loaded n a = a\<lparr>as_values := as_values a + n\<rparr>"

lemma bst_bound_errors_in:
  "lt_bound lo (Some k) \<Longrightarrow> lt_bound (Some k) hi \<Longrightarrow> bst_bound_errors lo hi k = []"
  by (cases lo; cases hi) (auto simp: bst_bound_errors_def)

lemma bst_walk_bst:
  "bst P st h c xs \<Longrightarrow> h < lim \<Longrightarrow> \<forall>k\<in>fst ` set xs. lt_bound lo (Some k) \<and> lt_bound (Some k) hi \<Longrightarrow>
     \<exists>node. tref_get P st c = Inr node
       \<and> bst_walk P st lim node lo hi d a = (Inr (length xs, d - 1 + int h), loaded (length xs) a)"
proof (induction lim arbitrary: h c xs lo hi d a)
  case (Suc lim)
  from Suc.prems(1) show ?case
  proof (cases rule: bst_cases)
    case 1
    then show ?thesis by (simp add: ret_def loaded_def)
  next
    case (2 l k v r n a1 b1 ys zs x)
    have ab: "a1 < lim" "b1 < lim" using 2(2) Suc.prems(2) by auto
    have k: "lt_bound lo (Some k)" "lt_bound (Some k) hi" using Suc.prems(3) unfolding 2(3) by auto
    have ys: "\<forall>z\<in>fst ` set ys. lt_bound lo (Some z) \<and> lt_bound (Some z) (Some k)"
      using Suc.prems(3) 2(9) unfolding 2(3) by auto
    have zs: "\<forall>z\<in>fst ` set zs. lt_bound (Some k) (Some z) \<and> lt_bound (Some z) hi"
      using Suc.prems(3) 2(10) unfolding 2(3) by auto
    let ?a = "a\<lparr>as_values := as_values a + 1\<rparr>"
    obtain nl where nl: "tref_get P st l = Inr nl"
      "bst_walk P st lim nl lo (Some k) (d + 1) ?a = (Inr (length ys, d + int a1), loaded (length ys) ?a)"
      using Suc.IH [OF 2(4) ab(1) ys, of "d + 1" ?a] by auto
    obtain nr where nr: "tref_get P st r = Inr nr"
      "bst_walk P st lim nr (Some k) hi (d + 1) (loaded (length ys) ?a)
        = (Inr (length zs, d + int b1), loaded (length zs) (loaded (length ys) ?a))"
      using Suc.IH [OF 2(5) ab(2) zs, of "d + 1" "loaded (length ys) ?a"] by auto
    have v: "load_values st [(k, v)] a = (Inr (), ?a)"
      using 2(6) by (simp add: value_at_def bindS_def modify_def ret_def)
    have "bst_walk P st (Suc lim) (Some (BinaryNode l k v r n)) lo hi d a
      = (Inr (1 + length ys + length zs, max d (max (d + int a1) (d + int b1))), loaded (length zs) (loaded (length ys) ?a))"
      using v nl nr 2(7) by (simp add: bindS_def lift_def ret_def bst_bound_errors_in [OF k] Let_def)
    then show ?thesis
      using 2(1,2) by (simp add: 2(3) loaded_def add_ac max_def)
  qed
qed simp

lemma bst_audit_ok:
  assumes "bst P st h c xs" "h < lim"
  obtains a where "bst_audit P st lim c = Inr a" "audit_ok a" "ar_keys a = length xs" "ar_values a = length xs"
    "ar_height a = h"
proof -
  let ?a = "\<lparr>as_nodes = 0, as_values = 0, as_leaf_keys = 0, as_errors = []\<rparr>"
  obtain node where n: "tref_get P st c = Inr node"
    "bst_walk P st lim node None None 1 ?a = (Inr (length xs, int h), loaded (length xs) ?a)"
    using bst_walk_bst [OF assms, of None None 1 ?a] by auto
  have "node = None \<Longrightarrow> h = 0" using assms(1) n(1) by (auto elim: bst_cases)
  then show thesis using n by (intro that) (auto simp: bst_audit_def audit_ok_def loaded_def)
qed

text \<open>
  C32. \<open>audit()\<close> accepts what the binary engine builds: on an engine that shows \<open>ys\<close> it returns
  without errors, and every key and every value of \<open>ys\<close> is counted.
\<close>

theorem binary_audit_accepts:
  assumes "bin_rep P lim s xs ys"
  shows "\<exists>s' a. bin_audit_op P lim s = (Inr a, s') \<and> audit_ok a \<and> ar_keys a = length ys \<and> ar_values a = length ys
    \<and> ar_height a \<le> length ys"
proof -
  obtain s' where s': "whenS (\<not> locked (lstorage s)) bin_refresh s = (Inr (), s')" "bin_rep P lim s' xs ys"
    by (rule binl.refresh_when_unlocked [OF assms, unfolded binary_class_simps])
  obtain h where h: "bst P (lstorage s') h (tree_ref s') ys" "h < lim" by (rule bin_repE [OF s'(2)])
  obtain a where a: "bst_audit P (lstorage s') lim (tree_ref s') = Inr a" "audit_ok a" "ar_keys a = length ys"
    "ar_values a = length ys" "ar_height a = h"
    by (rule bst_audit_ok [OF h])
  have "bin_audit_op P lim s = (Inr a, s')"
    using s'(1) a(1) by (simp add: bin_audit_op_def bindS_def gets_def lift_def)
  then show ?thesis using a bst_height_le [OF h(1)] by auto
qed

lemma sample_binary:
  obtains s where "bin_rep nat_pickle 5 s [] [(1, [10])]"
proof -
  have "length [] < SUPERBLOCK_SIZE" by (simp add: layout_defs)
  then obtain s0 where "bin_rep nat_pickle 5 s0 [] []"
    using bin_open_fresh [of "[]" 5 nat_pickle] by auto
  then obtain s where "bin_rep nat_pickle 5 s [] (kv_upd 1 [10] [])"
    using binl.set_ok [of nat_pickle 5 s0 "[]" "[]" 1 "[10]"] by auto
  then show thesis using that by simp
qed

theorem binary_audit_accepts_witness:
  "\<exists>s s' a. bin_rep nat_pickle 5 s [] [(1, [10])] \<and> bin_audit_op nat_pickle 5 s = (Inr a, s') \<and> audit_ok a
    \<and> ar_keys a = 1 \<and> ar_values a = 1"
proof -
  obtain s where s: "bin_rep nat_pickle 5 s [] [(1, [10])]" by (rule sample_binary)
  then show ?thesis using binary_audit_accepts [OF s] by auto
qed

section \<open>Updates\<close>

text \<open>
  C31. Deletion from a search tree raises \<open>KeyError\<close> when the key is absent; otherwise it
  returns a search tree with right subtree sizes that has every other key with its value,
  also when the node has two children and its successor takes its place.
\<close>

theorem binary_delete_correct:
  assumes "bin_tree P st r xs" "length xs < lim"
  shows "\<exists>node. tref_get P st r = Inr node
    \<and> (if key \<in> fst ` set xs
       then \<exists>r'. bin_delete P st lim node key = Inr r' \<and> bin_tree P st r' (kv_del key xs)
       else bin_delete P st lim node key = Inl KeyError)"
proof -
  obtain h where h: "bst P st h r xs" "h < lim" by (rule bin_treeE [OF assms])
  obtain node where "tref_get P st r = Inr node" using bst_get [OF h(1)] by blast
  then show ?thesis
    using bin_delete_bst [OF h, of key] by (cases "key \<in> fst ` set xs") (auto simp: bin_tree_def)
qed

definition sample_bst :: "nat binary_ref" where
  "sample_bst = BinaryNodeRef (Some (BinaryNode
     (BinaryNodeRef (Some (BinaryNode empty_ref 1 (ValueRef (Some [10]) 0) empty_ref 1)) 0) 2 (ValueRef (Some [20]) 0)
     (BinaryNodeRef (Some (BinaryNode empty_ref 3 (ValueRef (Some [30]) 0) empty_ref 1)) 0) 3)) 0"

lemma sample_bst_rep: "bin_tree nat_pickle fresh_storage sample_bst [(1, [10]), (2, [20]), (3, [30])]"
proof -
  have leaf: "bst nat_pickle fresh_storage (Suc (max 0 0))
      (BinaryNodeRef (Some (BinaryNode empty_ref k (ValueRef (Some x) 0) empty_ref 1)) 0) ([] @ (k, x) # [])" for k x
    by (rule bst_node [where v = "ValueRef (Some x) 0" and n = 1, OF _ bst_empty bst_empty])
      (simp_all add: tnode_at_def value_at_def)
  have "bst nat_pickle fresh_storage (Suc (max (Suc (max 0 0)) (Suc (max 0 0)))) sample_bst
      (([] @ (1, [10]) # []) @ (2, [20]) # ([] @ (3, [30]) # []))"
    by (rule bst_node [where v = "ValueRef (Some [20]) 0" and n = 3, OF _ leaf leaf]) (simp_all add: tnode_at_def value_at_def sample_bst_def)
  then show ?thesis unfolding bin_tree_def by auto
qed

theorem binary_delete_correct_witness:
  "\<exists>node. tref_get nat_pickle fresh_storage sample_bst = Inr node
    \<and> (\<exists>r'. bin_delete nat_pickle fresh_storage 5 node 2 = Inr r'
          \<and> bin_tree nat_pickle fresh_storage r' [(1, [10]), (3, [30])])"
  using binary_delete_correct [OF sample_bst_rep, of 5 2] by simp

section \<open>Runs\<close>

lemma binary_run:
  assumes "pickle_ok P" "length f < SUPERBLOCK_SIZE"
    and "bin_open f = (Inr (), s)" "Suc (puts qs) < lim" "engine_run (binary_ops P lim) qs s = (rs, s')"
  obtains xs ys where "spec_run ([], []) qs rs (xs, ys)" "bin_state P lim s' xs ys" "flush_run None qs rs"
proof -
  have "0 < lim" using assms(4) by simp
  then obtain s0 where "bin_open f = (Inr (), s0)" "bin_rep P lim s0 [] []" "crash_at_flush (disk (lstorage s0)) = None"
    by (rule bin_open_fresh [OF assms(2)])
  then have "bin_state P lim s [] []" "bin.left s = None" using assms(1,3) by (simp_all add: bin_state_def flushes_left_None)
  then show thesis
    using bin.run_refines [of P lim s "[]" "[]" qs rs s'] assms(4,5) that by auto
qed

text \<open>
  C26. The binary engine refines the same specification: for every sequence of requests to a
  new database, with power failures and armed crashes of the disk among them, the replies are
  replies of the specification, its commits return unless a crash is armed at one of their
  two flushes or they raise \<open>struct.error\<close>, and the file then holds the last commit that returned.
\<close>

theorem binary_refines_spec:
  assumes "pickle_ok P" "length f < SUPERBLOCK_SIZE"
    and "bin_open f = (Inr (), s)" "Suc (puts qs) < lim" "engine_run (binary_ops P lim) qs s = (rs, s')"
  shows "\<exists>xs ys. spec_run ([], []) qs rs (xs, ys) \<and> flush_run None qs rs
    \<and> (\<exists>s1 s2. bin_open (durable_bytes (disk (lstorage s'))) = (Inr (), s1)
         \<and> logical_items (binary_class P lim) s1 = (Inr (somes xs), s2))"
proof -
  obtain xs ys where r: "spec_run ([], []) qs rs (xs, ys)" "bin_state P lim s' xs ys" "flush_run None qs rs"
    by (rule binary_run [OF assms])
  obtain s1 where s1: "bin_open (durable_bytes (disk (lstorage s'))) = (Inr (), s1)" "bin_state P lim s1 xs xs"
    using bin.reopen_law [OF r(2)] by (auto simp: reopened_def binary_ops_def)
  obtain s2 where "logical_items (binary_class P lim) s1 = (Inr (somes xs), s2)"
    using bin.items_law [OF s1(2)] by (auto simp: binary_ops_def)
  then show ?thesis using r(1,3) s1(1) by blast
qed

theorem binary_refines_spec_witness:
  "\<exists>s rs s'. bin_open [] = (Inr (), s)
    \<and> engine_run (binary_ops nat_pickle 5) [Put 1 [10], Commit, Remove 1, PowerLoss, Get 1] s = (rs, s')
    \<and> (\<exists>xs ys. spec_run ([], []) [Put 1 [10], Commit, Remove 1, PowerLoss, Get 1] rs (xs, ys)
         \<and> (\<exists>s1 s2. bin_open (durable_bytes (disk (lstorage s'))) = (Inr (), s1)
              \<and> logical_items (binary_class nat_pickle 5) s1 = (Inr (somes xs), s2)))"
proof -
  let ?qs = "[Put 1 [10], Commit, Remove 1, PowerLoss, Get 1] :: nat request list"
  have f: "length [] < SUPERBLOCK_SIZE" by (simp add: layout_defs)
  obtain s where s: "bin_open [] = (Inr (), s :: nat binary_tree)"
    by (rule bin_open_fresh [OF f, of 5]) auto
  obtain rs s' where r: "engine_run (binary_ops nat_pickle 5) ?qs s = (rs, s')"
    by (cases "engine_run (binary_ops nat_pickle 5) ?qs s")
  have "\<exists>xs ys. spec_run ([], []) ?qs rs (xs, ys) \<and> flush_run None ?qs rs
         \<and> (\<exists>s1 s2. bin_open (durable_bytes (disk (lstorage s'))) = (Inr (), s1)
              \<and> logical_items (binary_class nat_pickle 5) s1 = (Inr (somes xs), s2))"
    by (rule binary_refines_spec [OF nat_pickle_ok f s _ r]) simp_all
  then show ?thesis using s r by blast
qed

section \<open>Agreement of the engines\<close>

text \<open>The specification is deterministic up to the outcome of a commit.\<close>

lemma spec_step_det:
  assumes "spec_step c q r c'" "spec_step c q r' c''" "q = Commit \<longrightarrow> r = r'"
  shows "r = r' \<and> c' = c''"
  using assms by (cases q) (auto simp: spec_step_simps)

lemma spec_run_det:
  assumes "spec_run c qs rs c'" "spec_run c qs rs' c''" "list_all2 (\<lambda>q (r, r'). q = Commit \<longrightarrow> r = r') qs (zip rs rs')"
  shows "rs = rs' \<and> c' = c''"
  using assms
proof (induction arbitrary: rs' rule: spec_run.induct)
  case (spec_run_Nil c)
  then show ?case by (auto elim: spec_run.cases)
next
  case (spec_run_Cons c q r c1 qs rs c2)
  obtain r1 rs1 c3 where r: "rs' = r1 # rs1" "spec_step c q r1 c3" "spec_run c3 qs rs1 c''"
    using spec_run_Cons.prems(1) by (auto elim: spec_run_ConsE)
  have "r = r1 \<and> c1 = c3" using spec_step_det [OF spec_run_Cons.hyps(1) r(2)] spec_run_Cons.prems(2) r(1) by simp
  then show ?case using spec_run_Cons.IH [of rs1] r spec_run_Cons.prems(2) by simp
qed

lemma no_commits:
  "list_all (\<lambda>q. q \<noteq> Commit) qs \<Longrightarrow> length ps = length qs \<Longrightarrow> list_all2 (\<lambda>q (r, r'). q = Commit \<longrightarrow> r = r') qs ps"
  by (auto simp: list_all2_conv_all_nth list_all_length)

text \<open>
  C7. The two index classes are interchangeable: sent the same requests, starting from new
  databases, they give the same replies to all of them, as long as the commits among the
  requests have the same outcome (a commit may fail in one and not in the other, as their
  records differ). In particular two runs whose commits all return agree.
\<close>

theorem engines_agree:
  assumes "pickle_ok P" "3 \<le> ord" "length f < SUPERBLOCK_SIZE" "Suc (puts qs) < lim"
    and "bp_open ord f = (Inr (), s)" "engine_run (bplus_ops P ord lim) qs s = (rs, s')"
    and "bin_open f = (Inr (), t)" "engine_run (binary_ops P lim) qs t = (rs', t')"
    and "list_all2 (\<lambda>q (r, r'). q = Commit \<longrightarrow> r = r') qs (zip rs rs')"
  shows "rs = rs'"
proof -
  have lim: "0 < lim" "lim < 2 ^ lim" using assms(4) by auto
  obtain s0 where "bp_open ord f = (Inr (), s0)" "bp_rep P ord lim s0 [] []"
    by (rule bp_open_fresh [OF assms(3,2) lim(1)])
  then have "bp_state P ord lim s [] []" using assms(1,5) by (simp add: bp_state_def)
  then obtain c where c: "spec_run ([], []) qs rs c"
    using bp.run_refines [of P ord lim s "[]" "[]" qs rs s'] assms(4,6) lim(2) by auto
  obtain xs ys where "spec_run ([], []) qs rs' (xs, ys)"
    by (rule binary_run [OF assms(1,3,7,4,8)])
  then show ?thesis using spec_run_det [OF c _ assms(9)] by blast
qed

theorem engines_agree_witness:
  "\<exists>s t s' t' rs. bp_open 3 [] = (Inr (), s) \<and> bin_open [] = (Inr (), t)
    \<and> engine_run (bplus_ops nat_pickle 3 9) [Put 2 [20], Put 1 [10], Put 2 [30], Remove 7, Items, PowerLoss, Length] s = (rs, s')
    \<and> engine_run (binary_ops nat_pickle 9) [Put 2 [20], Put 1 [10], Put 2 [30], Remove 7, Items, PowerLoss, Length] t = (rs, t')"
proof -
  let ?qs = "[Put 2 [20], Put 1 [10], Put 2 [30], Remove 7, Items, PowerLoss, Length] :: nat request list"
  have f: "length [] < SUPERBLOCK_SIZE" by (simp add: layout_defs)
  obtain s where s: "bp_open 3 [] = (Inr (), s :: nat bplus_tree)" by (rule bp_open_fresh [OF f, of 3 9]) auto
  obtain t where t: "bin_open [] = (Inr (), t :: nat binary_tree)" by (rule bin_open_fresh [OF f, of 9]) auto
  obtain rs s' where r: "engine_run (bplus_ops nat_pickle 3 9) ?qs s = (rs, s')"
    by (cases "engine_run (bplus_ops nat_pickle 3 9) ?qs s")
  obtain rs' t' where r': "engine_run (binary_ops nat_pickle 9) ?qs t = (rs', t')"
    by (cases "engine_run (binary_ops nat_pickle 9) ?qs t")
  have len: "length (zip rs rs') = length ?qs"
    using engine_run_length [OF r] engine_run_length [OF r'] by simp
  have same: "list_all2 (\<lambda>q (r, r'). q = Commit \<longrightarrow> r = r') ?qs (zip rs rs')"
    by (rule no_commits [OF _ len]) simp
  have "rs = rs'"
    by (rule engines_agree [OF nat_pickle_ok _ f _ s r t r' same]) simp_all
  then have "engine_run (binary_ops nat_pickle 9) ?qs t = (rs, t')" using r' by (simp only:)
  with s t r show ?thesis by (intro exI conjI)
qed

end
