(* ===== verification/RaftLog.thy ===== *)
theory RaftLog
  imports Prelude
begin

text \<open>
  \<open>raft/messages.py\<close> and \<open>raft/log.py\<close>: the messages of the Raft nodes and the persistent
  state of a node, the log with the term and the vote saved beside it. Log positions start
  at 1; position 0 is the one before the first entry. The file of a log is what
  \<open>json.dump\<close> was given last: replacing it is atomic.
\<close>

section \<open>Messages\<close>

text \<open>The dictionaries \<open>{"op": "set" | "del" | "noop", ...}\<close>.\<close>

datatype 'v command = SetOp string 'v | DelOp string | NoOp

datatype 'v log_entry = LogEntry (eterm: nat) (ecommand: "'v command")

datatype ('i, 'v) body =
    RequestVote nat 'i nat nat
  | RequestVoteReply nat bool
  | AppendEntries nat 'i nat int "'v log_entry list" nat
  | AppendEntriesReply nat bool nat

datatype ('i, 'v) envelope = Envelope (src: 'i) (dst: 'i) (ebody: "('i, 'v) body")

section \<open>The log\<close>

text \<open>What \<open>save\<close> writes and \<open>_load\<close> reads.\<close>

record ('i, 'v) raft_file =
  file_term :: nat
  file_voted_for :: "'i option"
  file_entries :: "'v log_entry list"

text \<open>\<open>path\<close> tells whether the log has a file, \<open>saved\<close> is its content once it exists.\<close>

record ('i, 'v) raft_log =
  path :: bool
  saved :: "('i, 'v) raft_file option"
  entries :: "'v log_entry list"
  log_term :: nat
  log_voted_for :: "'i option"

definition log_load :: "('i, 'v) raft_file \<Rightarrow> ('i, 'v) raft_log \<Rightarrow> ('i, 'v) raft_log" where
  "log_load f l = l\<lparr>log_term := file_term f, log_voted_for := file_voted_for f, entries := file_entries f\<rparr>"

definition RaftLog :: "bool \<Rightarrow> ('i, 'v) raft_file option \<Rightarrow> ('i, 'v) raft_log" where
  "RaftLog has_path f =
     (let l = \<lparr>path = has_path, saved = f, entries = [], log_term = 0, log_voted_for = None\<rparr> in
      case f of None \<Rightarrow> l | Some c \<Rightarrow> if has_path then log_load c l else l)"

definition last_index :: "('i, 'v) raft_log \<Rightarrow> nat" where
  "last_index l = length (entries l)"

definition last_term :: "('i, 'v) raft_log \<Rightarrow> nat" where
  "last_term l = (if entries l = [] then 0 else eterm (last (entries l)))"

definition term_at :: "('i, 'v) raft_log \<Rightarrow> nat \<Rightarrow> int" where
  "term_at l index =
     (if index \<le> 0 then 0
      else if index > length (entries l) then -1
      else int (eterm (entries l ! (index - 1))))"

text \<open>\<open>entries[index - 1]\<close>: at index 0 Python takes the last entry.\<close>

definition log_get :: "('i, 'v) raft_log \<Rightarrow> nat \<Rightarrow> 'v log_entry result" where
  "log_get l index = (if index = 0 then py_last (entries l) else py_nth (entries l) (index - 1))"

definition entries_from :: "('i, 'v) raft_log \<Rightarrow> nat \<Rightarrow> 'v log_entry list" where
  "entries_from l index = drop (index - 1) (entries l)"

definition append_new :: "'v log_entry \<Rightarrow> ('i, 'v) raft_log \<Rightarrow> ('i, 'v) raft_log" where
  "append_new e l = l\<lparr>entries := entries l @ [e]\<rparr>"

fun splice_from :: "nat \<Rightarrow> 'v log_entry list \<Rightarrow> 'v log_entry list \<Rightarrow> 'v log_entry list" where
  "splice_from index [] es = es"
| "splice_from index (e # new) es =
     splice_from (index + 1) new
       (if index + 1 \<le> length es
        then (if eterm (es ! index) \<noteq> eterm e then take index es @ [e] else es)
        else es @ [e])"

definition append_from :: "nat \<Rightarrow> 'v log_entry list \<Rightarrow> ('i, 'v) raft_log \<Rightarrow> ('i, 'v) raft_log" where
  "append_from prev_index new_entries l = l\<lparr>entries := splice_from prev_index new_entries (entries l)\<rparr>"

definition save :: "nat \<Rightarrow> 'i option \<Rightarrow> ('i, 'v) raft_log \<Rightarrow> ('i, 'v) raft_log" where
  "save current_term voted_for l =
     (let l' = l\<lparr>log_term := current_term, log_voted_for := voted_for\<rparr> in
      if path l'
      then l'\<lparr>saved := Some \<lparr>file_term = log_term l', file_voted_for = log_voted_for l', file_entries = entries l'\<rparr>\<rparr>
      else l')"

lemma entries_save [simp]: "entries (save t v l) = entries l"
  by (simp add: save_def Let_def)

lemma log_term_save [simp]: "log_term (save t v l) = t"
  by (simp add: save_def Let_def)

lemma log_voted_for_save [simp]: "log_voted_for (save t v l) = v"
  by (simp add: save_def Let_def)

text \<open>
  A restarted node finds what it promised: loading the log from the file that \<open>save\<close>
  wrote gives the same entries, term and vote.
\<close>

lemma log_save_load:
  assumes "path l"
  shows "RaftLog True (saved (save t v l)) = save t v l"
  using assms by (simp add: RaftLog_def log_load_def save_def Let_def)

section \<open>Terms of a log\<close>

definition tm :: "'v log_entry list \<Rightarrow> nat \<Rightarrow> nat" where
  "tm L k = (if k = 0 then 0 else eterm (L ! (k - 1)))"

definition lastt :: "'v log_entry list \<Rightarrow> nat" where
  "lastt L = tm L (length L)"

lemma last_term_lastt: "last_term l = lastt (entries l)"
  by (simp add: last_term_def lastt_def tm_def last_conv_nth)

lemma term_at_tm: "k \<le> length (entries l) \<Longrightarrow> term_at l k = int (tm (entries l) k)"
  by (simp add: term_at_def tm_def)

lemma tm_0 [simp]: "tm L 0 = 0"
  by (simp add: tm_def)

lemma lastt_Nil [simp]: "lastt [] = 0"
  by (simp add: lastt_def)

lemma lastt_snoc [simp]: "lastt (L @ [e]) = eterm e"
  by (simp add: lastt_def tm_def)

lemma tm_append: "k \<le> length L \<Longrightarrow> tm (L @ D) k = tm L k"
  by (auto simp: tm_def nth_append)

lemma tm_take: "k \<le> n \<Longrightarrow> tm (take n L) k = tm L k"
  by (auto simp: tm_def)

lemma tm_cong_take: "take n L = take n L' \<Longrightarrow> k \<le> n \<Longrightarrow> tm L k = tm L' k"
  by (metis tm_take)

lemma take_cong_le: "take n L = take n L' \<Longrightarrow> k \<le> n \<Longrightarrow> take k L = take k L'"
  by (metis min.absorb1 take_take)

lemma take_eq_length: "take n L = take n L' \<Longrightarrow> n \<le> length L' \<Longrightarrow> n \<le> length L"
  by (metis length_take min.absorb2 min.cobounded1)

lemma splice_prefix: "k + n \<le> length L \<Longrightarrow> splice_from k (take n (drop k L)) (take k L) = take (k + n) L"
proof (induction n arbitrary: k)
  case (Suc n)
  then have k: "k < length L" by simp
  have "take (Suc n) (drop k L) = L ! k # take n (drop (Suc k) L)"
    using k by (metis Cons_nth_drop_Suc take_Suc_Cons)
  moreover have "take (Suc k) L = take k L @ [L ! k]" by (rule take_Suc_conv_app_nth [OF k])
  ultimately show ?case using Suc.IH [of "Suc k"] Suc.prems k by simp
qed simp

text \<open>
  Splicing a part of \<open>L\<close> into a log that agrees with \<open>L\<close> up to \<open>p\<close> either leaves a log that
  agrees beyond the part as it is, or makes it the part of \<open>L\<close> up to the end of the new
  entries; then it did not agree with \<open>L\<close> any further before.
\<close>

lemma splice_cases:
  assumes "p \<le> length es" "take p es = take p L" "p + n \<le> length L"
    and "\<And>k. p < k \<Longrightarrow> k \<le> p + n \<Longrightarrow> k \<le> length es \<Longrightarrow> tm es k = tm L k \<Longrightarrow> take k es = take k L"
  shows "splice_from p (take n (drop p L)) es = es \<and> p + n \<le> length es \<and> take (p + n) es = take (p + n) L
    \<or> splice_from p (take n (drop p L)) es = take (p + n) L
      \<and> (\<forall>m \<le> length es. m \<le> length L \<longrightarrow> take m es = take m L \<longrightarrow> m \<le> p + n)"
  using assms
proof (induction n arbitrary: p es)
  case 0
  then show ?case by simp
next
  case (Suc n)
  have p: "p < length L" using Suc.prems(3) by simp
  then have d: "take (Suc n) (drop p L) = L ! p # take n (drop (Suc p) L)"
    by (metis Cons_nth_drop_Suc take_Suc_Cons)
  have Lp: "take (Suc p) L = take p L @ [L ! p]" by (rule take_Suc_conv_app_nth [OF p])
  have restart: "splice_from (Suc p) (take n (drop (Suc p) L)) (take (Suc p) L) = take (p + Suc n) L"
    using splice_prefix [of "Suc p" n L] Suc.prems(3) by simp
  show ?case
  proof (cases "Suc p \<le> length es \<and> eterm (es ! p) = eterm (L ! p)")
    case True
    then have "take (Suc p) es = take (Suc p) L" using Suc.prems(4) [of "Suc p"] by (simp add: tm_def)
    then show ?thesis
      using Suc.IH [of "Suc p" es] True Suc.prems(3,4) by (simp add: d)
  next
    case False
    have "m \<le> p" if m: "m \<le> length es" "take m es = take m L" for m
    proof (rule ccontr)
      assume "\<not> m \<le> p"
      then have "Suc p \<le> m" by simp
      then have "tm es (Suc p) = tm L (Suc p)" using m(2) tm_cong_take by blast
      then show False using False m(1) \<open>Suc p \<le> m\<close> by (simp add: tm_def)
    qed
    moreover have "splice_from p (take (Suc n) (drop p L)) es = take (p + Suc n) L"
    proof (cases "Suc p \<le> length es")
      case le: True
      then show ?thesis using False restart Suc.prems(2) by (simp add: d Lp)
    next
      case gt: False
      then have "es = take p L" using Suc.prems(1,2) by simp
      then show ?thesis using gt restart by (simp add: d Lp)
    qed
    ultimately show ?thesis by (metis trans_le_add1)
  qed
qed

end
