(* ===== verification/RaftSpec.thy ===== *)
theory RaftSpec
  imports RaftLog
begin

text \<open>
  The Raft protocol as an abstract transition system, and its safety. A state has the term,
  vote, role, log and commit position of every node, and the history of the run: the logs of
  the candidates when they stood for election, the votes granted with the log of the voter,
  the leader of each term with its log, and what the nodes acknowledged in each term. The
  history only grows. Messages need no place of their own: what a message says is a fact of
  the history that stays true, so that it can be lost, delayed and delivered twice.

  The theory shows that terms have at most one leader, that logs with an entry of the same
  term at a position agree up to it, that a leader has every entry chosen in an earlier
  term, and that the committed parts of the logs of any two nodes agree.
\<close>

datatype role = FOLLOWER | CANDIDATE | LEADER

type_synonym 'v rlog = "'v log_entry list"

record ('i, 'v) rstate =
  aterm :: "'i \<Rightarrow> nat"
  avote :: "'i \<Rightarrow> 'i option"
  arole :: "'i \<Rightarrow> role"
  alog :: "'i \<Rightarrow> 'v rlog"
  acommit :: "'i \<Rightarrow> nat"
  cands :: "nat \<Rightarrow> 'i \<Rightarrow> 'v rlog option"
  grants :: "(nat \<times> 'i \<times> 'i \<times> 'v rlog) set"
  lead :: "nat \<Rightarrow> 'i option"
  llog :: "nat \<Rightarrow> 'v rlog"
  acks :: "(nat \<times> 'i \<times> nat) set"

definition up_to_date :: "'v rlog \<Rightarrow> 'v rlog \<Rightarrow> bool" where
  "up_to_date L M \<longleftrightarrow> lastt L > lastt M \<or> (lastt L = lastt M \<and> length L \<ge> length M)"

text \<open>Entry \<open>k\<close> of the leader of term \<open>t\<close> is of that term and a quorum has acknowledged it.\<close>

definition chosen :: "('i set \<Rightarrow> bool) \<Rightarrow> ('i, 'v) rstate \<Rightarrow> nat \<Rightarrow> nat \<Rightarrow> bool" where
  "chosen quorum s t k \<longleftrightarrow> lead s t \<noteq> None \<and> 1 \<le> k \<and> k \<le> length (llog s t) \<and> tm (llog s t) k = t
     \<and> (\<exists>Q. quorum Q \<and> (\<forall>q\<in>Q. \<exists>m\<ge>k. (t, q, m) \<in> acks s))"

definition rinit :: "('i, 'v) rstate" where
  "rinit = \<lparr>aterm = \<lambda>_. 0, avote = \<lambda>_. None, arole = \<lambda>_. FOLLOWER, alog = \<lambda>_. [], acommit = \<lambda>_. 0,
     cands = \<lambda>_ _. None, grants = {}, lead = \<lambda>_. None, llog = \<lambda>_. [], acks = {}\<rparr>"

text \<open>The log of node \<open>i\<close>, the leader of its term, becomes \<open>L\<close>.\<close>

definition lead_with :: "'i \<Rightarrow> 'v rlog \<Rightarrow> ('i, 'v) rstate \<Rightarrow> ('i, 'v) rstate" where
  "lead_with i L s = s\<lparr>arole := (arole s)(i := LEADER), alog := (alog s)(i := L),
     lead := (lead s)(aterm s i := Some i), llog := (llog s)(aterm s i := L),
     acks := insert (aterm s i, i, length L) (acks s)\<rparr>"

inductive rstep :: "('i set \<Rightarrow> bool) \<Rightarrow> ('i, 'v) rstate \<Rightarrow> ('i, 'v) rstate \<Rightarrow> bool"
  for quorum :: "'i set \<Rightarrow> bool" where
  r_stand: "t = Suc (aterm s i) \<Longrightarrow>
    rstep quorum s (s\<lparr>aterm := (aterm s)(i := t), avote := (avote s)(i := Some i), arole := (arole s)(i := CANDIDATE),
      cands := (cands s)(t := (cands s t)(i := Some (alog s i))),
      grants := insert (t, i, i, alog s i) (grants s)\<rparr>)"
| r_term: "aterm s i < t \<Longrightarrow>
    rstep quorum s (s\<lparr>aterm := (aterm s)(i := t), avote := (avote s)(i := None), arole := (arole s)(i := FOLLOWER)\<rparr>)"
| r_follow: "rstep quorum s (s\<lparr>arole := (arole s)(i := FOLLOWER)\<rparr>)"
| r_grant: "cands s (aterm s i) c = Some L \<Longrightarrow> avote s i = None \<or> avote s i = Some c \<Longrightarrow> up_to_date L (alog s i) \<Longrightarrow>
    rstep quorum s (s\<lparr>avote := (avote s)(i := Some c), grants := insert (aterm s i, i, c, alog s i) (grants s)\<rparr>)"
| r_elect: "arole s i = CANDIDATE \<Longrightarrow> quorum V \<Longrightarrow> \<forall>v\<in>V. \<exists>L. (aterm s i, v, i, L) \<in> grants s \<Longrightarrow> eterm e = aterm s i \<Longrightarrow>
    rstep quorum s (lead_with i (alog s i @ [e]) s)"
| r_append: "arole s i = LEADER \<Longrightarrow> eterm e = aterm s i \<Longrightarrow> rstep quorum s (lead_with i (alog s i @ [e]) s)"
| r_accept: "t = aterm s i \<Longrightarrow> lead s t = Some c \<Longrightarrow> c \<noteq> i \<Longrightarrow> p + n \<le> length (llog s t) \<Longrightarrow> tm (llog s t) (p + n) = t
    \<Longrightarrow> p \<le> length (alog s i) \<Longrightarrow> tm (alog s i) p = tm (llog s t) p \<Longrightarrow>
    rstep quorum s (s\<lparr>arole := (arole s)(i := FOLLOWER),
      alog := (alog s)(i := splice_from p (take n (drop p (llog s t))) (alog s i)),
      acks := insert (t, i, p + n) (acks s)\<rparr>)"
| r_learn: "chosen quorum s t k \<Longrightarrow> t \<le> aterm s i \<Longrightarrow> n \<le> k \<Longrightarrow> n \<le> length (alog s i)
    \<Longrightarrow> take n (alog s i) = take n (llog s t) \<Longrightarrow>
    rstep quorum s (s\<lparr>acommit := (acommit s)(i := n)\<rparr>)"
| r_forget: "rstep quorum s (s\<lparr>acommit := (acommit s)(i := 0)\<rparr>)"

inductive rreach :: "('i set \<Rightarrow> bool) \<Rightarrow> ('i, 'v) rstate \<Rightarrow> bool" for quorum :: "'i set \<Rightarrow> bool" where
  rreach_init: "rreach quorum rinit"
| rreach_step: "rreach quorum s \<Longrightarrow> rstep quorum s s' \<Longrightarrow> rreach quorum s'"

section \<open>The invariant\<close>

text \<open>Every entry of \<open>L\<close> was put there by the leader of its term, together with what is before it.\<close>

definition coherent :: "('i, 'v) rstate \<Rightarrow> 'v rlog \<Rightarrow> bool" where
  "coherent s L \<longleftrightarrow> sorted (map eterm L)
     \<and> (\<forall>k. 1 \<le> k \<and> k \<le> length L \<longrightarrow> lead s (tm L k) \<noteq> None \<and> take k L = take k (llog s (tm L k)))"

text \<open>The leader of term \<open>u\<close> started without the first \<open>k\<close> entries of the leader of term \<open>t\<close>.\<close>

definition lost :: "('i, 'v) rstate \<Rightarrow> nat \<Rightarrow> nat \<Rightarrow> nat \<Rightarrow> bool" where
  "lost s t k u \<longleftrightarrow> (\<exists>c L. lead s u = Some c \<and> cands s u c = Some L \<and> take k L \<noteq> take k (llog s t))"

definition vote_inv :: "('i, 'v) rstate \<Rightarrow> bool" where
  "vote_inv s \<longleftrightarrow> (\<forall>t v c L. (t, v, c, L) \<in> grants s \<longrightarrow>
      t \<le> aterm s v \<and> (t = aterm s v \<longrightarrow> avote s v = Some c) \<and> coherent s L
      \<and> (\<exists>M. cands s t c = Some M \<and> up_to_date M L)
      \<and> (\<forall>c' L'. (t, v, c', L') \<in> grants s \<longrightarrow> c' = c))"

definition cand_inv :: "('i, 'v) rstate \<Rightarrow> bool" where
  "cand_inv s \<longleftrightarrow>
     (\<forall>t c L. cands s t c = Some L \<longrightarrow> 1 \<le> t \<and> t \<le> aterm s c \<and> coherent s L \<and> (\<forall>e\<in>set L. eterm e < t))
     \<and> (\<forall>i. arole s i = CANDIDATE \<longrightarrow> cands s (aterm s i) i = Some (alog s i) \<and> lead s (aterm s i) \<noteq> Some i)"

definition lead_inv :: "('i set \<Rightarrow> bool) \<Rightarrow> ('i, 'v) rstate \<Rightarrow> bool" where
  "lead_inv quorum s \<longleftrightarrow>
     (\<forall>t c. lead s t = Some c \<longrightarrow>
        (\<exists>V. quorum V \<and> (\<forall>v\<in>V. \<exists>L. (t, v, c, L) \<in> grants s))
        \<and> (\<exists>L D. cands s t c = Some L \<and> llog s t = L @ D \<and> D \<noteq> [] \<and> (\<forall>e\<in>set D. eterm e = t))
        \<and> coherent s (llog s t))
     \<and> (\<forall>i. arole s i = LEADER \<longrightarrow> lead s (aterm s i) = Some i \<and> llog s (aterm s i) = alog s i)"

definition log_inv :: "('i, 'v) rstate \<Rightarrow> bool" where
  "log_inv s \<longleftrightarrow> (\<forall>i. coherent s (alog s i) \<and> (\<forall>e\<in>set (alog s i). eterm e \<le> aterm s i))"

text \<open>
  What node \<open>v\<close> acknowledged in term \<open>t\<close> is still in its log, or was in the log that it
  had when it voted in term \<open>w\<close>, unless a later leader was without it.
\<close>

definition log_keeps :: "('i, 'v) rstate \<Rightarrow> nat \<Rightarrow> 'i \<Rightarrow> nat \<Rightarrow> bool" where
  "log_keeps s t v k \<longleftrightarrow> take k (alog s v) = take k (llog s t)
     \<or> (\<exists>u>t. u \<le> aterm s v \<and> lost s t k u \<and> (u = aterm s v \<longrightarrow> lastt (alog s v) = u))"

definition vote_keeps :: "('i, 'v) rstate \<Rightarrow> nat \<Rightarrow> nat \<Rightarrow> nat \<Rightarrow> 'v rlog \<Rightarrow> bool" where
  "vote_keeps s t k w L \<longleftrightarrow> take k L = take k (llog s t) \<or> (\<exists>u>t. u < w \<and> lost s t k u)"

definition ack_inv :: "('i, 'v) rstate \<Rightarrow> bool" where
  "ack_inv s \<longleftrightarrow> (\<forall>t v m. (t, v, m) \<in> acks s \<longrightarrow>
      t \<le> aterm s v \<and> lead s t \<noteq> None \<and> m \<le> length (llog s t) \<and> (\<forall>k\<le>m. log_keeps s t v k)
      \<and> (\<forall>w c L. (w, v, c, L) \<in> grants s \<longrightarrow> t < w \<longrightarrow> (\<forall>k\<le>m. vote_keeps s t k w L)))"

definition commit_inv :: "('i set \<Rightarrow> bool) \<Rightarrow> ('i, 'v) rstate \<Rightarrow> bool" where
  "commit_inv quorum s \<longleftrightarrow> (\<forall>i. acommit s i = 0 \<or> (\<exists>t k. chosen quorum s t k \<and> t \<le> aterm s i \<and> acommit s i \<le> k
      \<and> acommit s i \<le> length (alog s i) \<and> take (acommit s i) (alog s i) = take (acommit s i) (llog s t)))"

definition raft_inv :: "('i set \<Rightarrow> bool) \<Rightarrow> ('i, 'v) rstate \<Rightarrow> bool" where
  "raft_inv quorum s \<longleftrightarrow>
     vote_inv s \<and> cand_inv s \<and> lead_inv quorum s \<and> log_inv s \<and> ack_inv s \<and> commit_inv quorum s"

lemma raft_invD:
  assumes "raft_inv quorum s"
  shows "vote_inv s" "cand_inv s" "lead_inv quorum s" "log_inv s" "ack_inv s" "commit_inv quorum s"
  using assms by (simp_all add: raft_inv_def)

lemma commit_invD:
  assumes "commit_inv quorum s" "acommit s i \<noteq> 0"
  obtains t k where "chosen quorum s t k" "t \<le> aterm s i" "acommit s i \<le> k" "acommit s i \<le> length (alog s i)"
    "take (acommit s i) (alog s i) = take (acommit s i) (llog s t)"
  using assms(1) [unfolded commit_inv_def, rule_format, of i] assms(2) by auto

lemma raft_inv_init: "raft_inv quorum rinit"
  by (simp add: raft_inv_def rinit_def vote_inv_def cand_inv_def lead_inv_def log_inv_def ack_inv_def commit_inv_def coherent_def)

section \<open>History grows\<close>

definition grows :: "('i, 'v) rstate \<Rightarrow> ('i, 'v) rstate \<Rightarrow> bool" where
  "grows s s' \<longleftrightarrow> (\<forall>i. aterm s i \<le> aterm s' i)
     \<and> (\<forall>t c L. cands s t c = Some L \<longrightarrow> cands s' t c = Some L)
     \<and> grants s \<subseteq> grants s' \<and> acks s \<subseteq> acks s'
     \<and> (\<forall>t c. lead s t = Some c \<longrightarrow> lead s' t = Some c \<and> (\<exists>D. llog s' t = llog s t @ D))"

lemma growsD:
  assumes "grows s s'"
  shows "aterm s i \<le> aterm s' i" "cands s t c = Some L \<Longrightarrow> cands s' t c = Some L"
    "grants s \<subseteq> grants s'" "acks s \<subseteq> acks s'" "lead s t = Some c \<Longrightarrow> lead s' t = Some c"
  using assms by (auto simp: grows_def)

lemma grows_llog:
  assumes "grows s s'" "lead s t \<noteq> None" "k \<le> length (llog s t)"
  shows "take k (llog s' t) = take k (llog s t)" "lead s' t \<noteq> None" "k \<le> length (llog s' t)"
    "tm (llog s' t) k = tm (llog s t) k"
proof -
  obtain c where "lead s t = Some c" using assms(2) by blast
  then obtain D where D: "llog s' t = llog s t @ D" "lead s' t \<noteq> None" using assms(1) unfolding grows_def by fastforce
  show "take k (llog s' t) = take k (llog s t)" "lead s' t \<noteq> None" "k \<le> length (llog s' t)"
    "tm (llog s' t) k = tm (llog s t) k"
    using D assms(3) by (simp_all add: tm_append)
qed

lemma coherentD:
  assumes "coherent s L" "1 \<le> k" "k \<le> length L"
  shows "lead s (tm L k) \<noteq> None" "take k L = take k (llog s (tm L k))" "k \<le> length (llog s (tm L k))"
proof -
  show 1: "lead s (tm L k) \<noteq> None" and 2: "take k L = take k (llog s (tm L k))"
    using assms by (auto simp: coherent_def)
  show "k \<le> length (llog s (tm L k))" using take_eq_length [OF 2 [symmetric] assms(3)] .
qed

lemma coherent_grows: "coherent s L \<Longrightarrow> grows s s' \<Longrightarrow> coherent s' L"
  unfolding coherent_def
  using coherentD [of s L] grows_llog [of s s'] by (metis coherent_def)

lemma lost_grows:
  assumes "lost s t k u" "grows s s'" "lead s t \<noteq> None" "k \<le> length (llog s t)"
  shows "lost s' t k u"
proof -
  have "take k (llog s' t) = take k (llog s t)" by (rule grows_llog [OF assms(2-4)])
  then show ?thesis using assms(1) growsD(2,5) [OF assms(2)] unfolding lost_def by metis
qed

lemma chosen_grows:
  assumes "chosen quorum s t k" "grows s s'"
  shows "chosen quorum s' t k"
proof -
  have c: "lead s t \<noteq> None" "1 \<le> k" "k \<le> length (llog s t)" "tm (llog s t) k = t"
    "\<exists>Q. quorum Q \<and> (\<forall>q\<in>Q. \<exists>m\<ge>k. (t, q, m) \<in> acks s)"
    using assms(1) by (auto simp: chosen_def)
  note g = grows_llog [OF assms(2) c(1,3)]
  have "\<exists>Q. quorum Q \<and> (\<forall>q\<in>Q. \<exists>m\<ge>k. (t, q, m) \<in> acks s')" using c(5) growsD(4) [OF assms(2)] by blast
  then show ?thesis using g c(2,4) by (simp add: chosen_def)
qed

text \<open>The parts of the invariant that speak of the history, when a step leaves their nodes alone.\<close>

lemma vote_inv_grows:
  assumes inv: "vote_inv s" and g: "grows s s'"
    and v: "\<And>v. aterm s' v = aterm s v \<Longrightarrow> avote s v \<noteq> None \<Longrightarrow> avote s' v = avote s v"
    and new: "\<And>t v c L. (t, v, c, L) \<in> grants s' - grants s \<Longrightarrow> t = aterm s' v \<and> avote s' v = Some c \<and> coherent s' L
      \<and> (\<exists>M. cands s' t c = Some M \<and> up_to_date M L) \<and> (\<forall>c' L'. (t, v, c', L') \<in> grants s \<longrightarrow> c' = c)"
  shows "vote_inv s'"
proof -
  have main: "t \<le> aterm s' i \<and> (t = aterm s' i \<longrightarrow> avote s' i = Some c) \<and> coherent s' L
      \<and> (\<exists>M. cands s' t c = Some M \<and> up_to_date M L) \<and> (\<forall>c' L'. (t, i, c', L') \<in> grants s \<longrightarrow> c' = c)"
    if "(t, i, c, L) \<in> grants s'" for t i c L
  proof (cases "(t, i, c, L) \<in> grants s")
    case True
    then have h: "t \<le> aterm s i" "t = aterm s i \<longrightarrow> avote s i = Some c" "coherent s L"
      "\<exists>M. cands s t c = Some M \<and> up_to_date M L" "\<forall>c' L'. (t, i, c', L') \<in> grants s \<longrightarrow> c' = c"
      using inv unfolding vote_inv_def by blast+
    have "t \<le> aterm s' i" using h(1) growsD(1) [OF g, of i] by simp
    moreover have "avote s' i = Some c" if "t = aterm s' i"
    proof -
      have "aterm s' i = aterm s i" using that h(1) growsD(1) [OF g, of i] by simp
      then show ?thesis using v [of i] h(2) that by simp
    qed
    moreover have "\<exists>M. cands s' t c = Some M \<and> up_to_date M L" using h(4) growsD(2) [OF g] by blast
    ultimately show ?thesis using h(5) coherent_grows [OF h(3) g] by blast
  next
    case False
    then show ?thesis using new that by blast
  qed
  have "c' = c" if "(t, i, c, L) \<in> grants s'" "(t, i, c', L') \<in> grants s'" for t i c c' L L'
  proof (cases "(t, i, c, L) \<in> grants s \<or> (t, i, c', L') \<in> grants s")
    case True
    then show ?thesis using main [OF that(1)] main [OF that(2)] by blast
  next
    case False
    then have "avote s' i = Some c" "avote s' i = Some c'" using new that by blast+
    then show ?thesis by simp
  qed
  then show ?thesis using main unfolding vote_inv_def by blast
qed

lemma cand_inv_grows:
  assumes inv: "cand_inv s" and g: "grows s s'" and same: "cands s' = cands s"
    and r: "\<And>i. arole s' i = CANDIDATE \<Longrightarrow>
      arole s i = CANDIDATE \<and> aterm s' i = aterm s i \<and> alog s' i = alog s i \<and> lead s' (aterm s i) \<noteq> Some i"
  shows "cand_inv s'"
proof -
  have "1 \<le> t \<and> t \<le> aterm s' c \<and> coherent s' L \<and> (\<forall>e\<in>set L. eterm e < t)" if "cands s t c = Some L" for t c L
  proof -
    have "1 \<le> t \<and> t \<le> aterm s c \<and> coherent s L \<and> (\<forall>e\<in>set L. eterm e < t)"
      using that inv unfolding cand_inv_def by blast
    then show ?thesis using coherent_grows [OF _ g] growsD(1) [OF g, of c] by auto
  qed
  moreover have "cands s (aterm s' i) i = Some (alog s' i) \<and> lead s' (aterm s' i) \<noteq> Some i" if "arole s' i = CANDIDATE" for i
    using r [OF that] inv unfolding cand_inv_def by auto
  ultimately show ?thesis unfolding cand_inv_def same by blast
qed

lemma lead_inv_grows:
  assumes inv: "lead_inv quorum s" and g: "grows s s'" and same: "lead s' = lead s" "llog s' = llog s"
    and r: "\<And>i. arole s' i = LEADER \<Longrightarrow> arole s i = LEADER \<and> aterm s' i = aterm s i \<and> alog s' i = alog s i"
  shows "lead_inv quorum s'"
proof -
  have "(\<exists>V. quorum V \<and> (\<forall>v\<in>V. \<exists>L. (t, v, c, L) \<in> grants s'))
      \<and> (\<exists>L D. cands s' t c = Some L \<and> llog s t = L @ D \<and> D \<noteq> [] \<and> (\<forall>e\<in>set D. eterm e = t)) \<and> coherent s' (llog s t)"
    if t: "lead s t = Some c" for t c
  proof -
    have h: "\<exists>V. quorum V \<and> (\<forall>v\<in>V. \<exists>L. (t, v, c, L) \<in> grants s)"
      "\<exists>L D. cands s t c = Some L \<and> llog s t = L @ D \<and> D \<noteq> [] \<and> (\<forall>e\<in>set D. eterm e = t)" "coherent s (llog s t)"
      using t inv unfolding lead_inv_def by blast+
    show ?thesis using h(1) growsD(3) [OF g] h(2) growsD(2) [OF g] coherent_grows [OF h(3) g] by blast
  qed
  moreover have "lead s (aterm s' i) = Some i \<and> llog s (aterm s' i) = alog s' i" if "arole s' i = LEADER" for i
    using r [OF that] inv unfolding lead_inv_def by auto
  ultimately show ?thesis unfolding lead_inv_def same by blast
qed

lemma commit_inv_grows:
  assumes inv: "commit_inv quorum s" and g: "grows s s'"
    and r: "\<And>i. acommit s' i = acommit s i \<and> take (acommit s i) (alog s' i) = take (acommit s i) (alog s i)
      \<or> acommit s' i = 0"
  shows "commit_inv quorum s'"
  unfolding commit_inv_def
proof
  fix i
  show "acommit s' i = 0 \<or> (\<exists>t k. chosen quorum s' t k \<and> t \<le> aterm s' i \<and> acommit s' i \<le> k
      \<and> acommit s' i \<le> length (alog s' i) \<and> take (acommit s' i) (alog s' i) = take (acommit s' i) (llog s' t))"
  proof (cases "acommit s' i = 0")
    case False
    then have same: "acommit s' i = acommit s i" "take (acommit s i) (alog s' i) = take (acommit s i) (alog s i)"
      using r [of i] by auto
    obtain t k where c: "chosen quorum s t k" "t \<le> aterm s i" "acommit s i \<le> k" "acommit s i \<le> length (alog s i)"
      "take (acommit s i) (alog s i) = take (acommit s i) (llog s t)"
      using inv False same(1) unfolding commit_inv_def by metis
    have l: "lead s t \<noteq> None" "acommit s i \<le> length (llog s t)" using c(1,3) by (auto simp: chosen_def)
    have "take (acommit s i) (alog s' i) = take (acommit s i) (llog s' t)"
      using same(2) c(5) grows_llog(1) [OF g l] by simp
    moreover have "acommit s i \<le> length (alog s' i)" using take_eq_length [OF same(2) c(4)] .
    ultimately show ?thesis
      using chosen_grows [OF c(1) g] c(2,3) same(1) growsD(1) [OF g, of i] by (metis le_trans)
  qed simp
qed

lemma vote_keeps_grows:
  assumes "vote_keeps s t k w L" "grows s s'" "lead s t \<noteq> None" "k \<le> length (llog s t)"
  shows "vote_keeps s' t k w L"
  using assms(1) lost_grows [OF _ assms(2-4)] grows_llog(1) [OF assms(2-4)] unfolding vote_keeps_def by metis

lemma log_keeps_grows:
  assumes "log_keeps s t v k" "grows s s'" "lead s t \<noteq> None" "k \<le> length (llog s t)"
    and "alog s' v = alog s v \<or> (take k (alog s v) = take k (llog s t) \<longrightarrow> take k (alog s' v) = take k (alog s v)) \<and>
      (\<forall>u. u = aterm s' v \<longrightarrow> lastt (alog s' v) = u)"
  shows "log_keeps s' t v k"
proof -
  have l: "take k (llog s' t) = take k (llog s t)" by (rule grows_llog(1) [OF assms(2-4)])
  show ?thesis
  proof (cases "take k (alog s v) = take k (llog s t)")
    case True
    then show ?thesis using assms(5) l unfolding log_keeps_def by auto
  next
    case False
    then obtain u where u: "u > t" "u \<le> aterm s v" "lost s t k u" "u = aterm s v \<longrightarrow> lastt (alog s v) = u"
      using assms(1) unfolding log_keeps_def by blast
    have "u \<le> aterm s' v" using u(2) growsD(1) [OF assms(2), of v] by simp
    moreover have "lastt (alog s' v) = u" if "u = aterm s' v"
      using that assms(5) u(2,4) growsD(1) [OF assms(2), of v] by auto
    ultimately show ?thesis
      using u(1) lost_grows [OF u(3) assms(2-4)] unfolding log_keeps_def by blast
  qed
qed

text \<open>What a step has to show of the acknowledgements and votes it adds and of the logs it changes.\<close>

lemma ack_inv_grows:
  assumes inv: "ack_inv s" and g: "grows s s'"
    and logs: "\<And>t v m k. (t, v, m) \<in> acks s \<Longrightarrow> k \<le> m \<Longrightarrow> log_keeps s' t v k"
    and grants: "\<And>w v c L t m k. (w, v, c, L) \<in> grants s' - grants s \<Longrightarrow> (t, v, m) \<in> acks s \<Longrightarrow> t < w \<Longrightarrow> k \<le> m \<Longrightarrow>
      vote_keeps s' t k w L"
    and acks: "\<And>t v m. (t, v, m) \<in> acks s' - acks s \<Longrightarrow> t = aterm s' v \<and> lead s' t \<noteq> None \<and> m \<le> length (llog s' t)
      \<and> take m (alog s' v) = take m (llog s' t)"
    and votes: "\<And>w v c L. (w, v, c, L) \<in> grants s' \<Longrightarrow> w \<le> aterm s' v"
  shows "ack_inv s'"
  unfolding ack_inv_def
proof (intro allI impI)
  fix t v m
  assume a: "(t, v, m) \<in> acks s'"
  show "t \<le> aterm s' v \<and> lead s' t \<noteq> None \<and> m \<le> length (llog s' t) \<and> (\<forall>k\<le>m. log_keeps s' t v k)
      \<and> (\<forall>w c L. (w, v, c, L) \<in> grants s' \<longrightarrow> t < w \<longrightarrow> (\<forall>k\<le>m. vote_keeps s' t k w L))"
  proof (cases "(t, v, m) \<in> acks s")
    case True
    then have h: "t \<le> aterm s v" "lead s t \<noteq> None" "m \<le> length (llog s t)"
      "\<And>w c L k. (w, v, c, L) \<in> grants s \<Longrightarrow> t < w \<Longrightarrow> k \<le> m \<Longrightarrow> vote_keeps s t k w L"
      using inv unfolding ack_inv_def by blast+
    have "vote_keeps s' t k w L" if "(w, v, c, L) \<in> grants s'" "t < w" "k \<le> m" for w c L k
    proof (cases "(w, v, c, L) \<in> grants s")
      case old: True
      show ?thesis by (rule vote_keeps_grows [OF h(4) [OF old that(2,3)] g h(2)]) (use that h in simp)
    next
      case False
      then show ?thesis using grants that True by blast
    qed
    then show ?thesis
      using h(1) growsD(1) [OF g, of v] grows_llog(2,3) [OF g h(2,3)] logs [OF True] by auto
  next
    case False
    then have n: "t = aterm s' v" "lead s' t \<noteq> None" "m \<le> length (llog s' t)" "take m (alog s' v) = take m (llog s' t)"
      using acks a by blast+
    have "log_keeps s' t v k" if "k \<le> m" for k
      using take_cong_le [OF n(4) that] unfolding log_keeps_def by simp
    moreover have "\<not> t < w" if "(w, v, c, L) \<in> grants s'" for w c L using votes [OF that] n(1) by simp
    ultimately show ?thesis using n by blast
  qed
qed

section \<open>Facts of a state\<close>

lemma coherent_mono:
  assumes "coherent s L" "i \<le> j" "j \<le> length L"
  shows "tm L i \<le> tm L j"
  using assms by (cases i) (auto simp: coherent_def tm_def sorted_iff_nth_mono)

lemma coherent_take:
  assumes "coherent s L"
  shows "coherent s (take n L)"
  unfolding coherent_def
proof (intro conjI allI impI)
  show "sorted (map eterm (take n L))" using assms by (simp add: coherent_def take_map [symmetric] sorted_wrt_take)
next
  fix k
  assume "1 \<le> k \<and> k \<le> length (take n L)"
  then have k: "1 \<le> k" "k \<le> length L" "k \<le> n" by auto
  show "lead s (tm (take n L) k) \<noteq> None" using coherentD(1) [OF assms k(1,2)] by (simp add: tm_take [OF k(3)])
  show "take k (take n L) = take k (llog s (tm (take n L) k))"
    using coherentD(2) [OF assms k(1,2)] k(3) by (simp add: tm_take [OF k(3)] min_def)
qed

lemma coherent_match:
  assumes "coherent s L" "coherent s M" "k \<le> length L" "k \<le> length M" "tm L k = tm M k"
  shows "take k L = take k M"
proof (cases "k = 0")
  case False
  then show ?thesis using coherentD(2) [OF assms(1), of k] coherentD(2) [OF assms(2), of k] assms(3-5) by simp
qed simp

lemma lead_invD:
  assumes "lead_inv quorum s" "lead s t = Some c"
  obtains L D where "cands s t c = Some L" "llog s t = L @ D" "D \<noteq> []" "\<forall>e\<in>set D. eterm e = t" "coherent s (llog s t)"
  using assms unfolding lead_inv_def by blast

lemma lead_terms:
  assumes "lead_inv quorum s" "cand_inv s" "lead s t = Some c"
  shows "1 \<le> t" "\<forall>e\<in>set (llog s t). eterm e \<le> t"
proof -
  obtain L D where l: "cands s t c = Some L" "llog s t = L @ D" "\<forall>e\<in>set D. eterm e = t"
    by (rule lead_invD [OF assms(1,3)])
  then have "1 \<le> t \<and> (\<forall>e\<in>set L. eterm e < t)" using assms(2) unfolding cand_inv_def by blast
  then show "1 \<le> t" "\<forall>e\<in>set (llog s t). eterm e \<le> t" using l by auto
qed

lemma lastt_in: "L \<noteq> [] \<Longrightarrow> \<exists>e\<in>set L. lastt L = eterm e"
  by (auto simp: lastt_def tm_def)

section \<open>Quorums\<close>

locale quorums =
  fixes quorum :: "'i set \<Rightarrow> bool"
  assumes meet: "quorum V \<Longrightarrow> quorum W \<Longrightarrow> V \<inter> W \<noteq> {}"
begin

lemma one_leader:
  assumes "vote_inv s" "quorum V" "\<forall>v\<in>V. \<exists>L. (t, v, c, L) \<in> grants s" "quorum W" "\<forall>v\<in>W. \<exists>L. (t, v, c', L) \<in> grants s"
  shows "c = c'"
proof -
  obtain v where "v \<in> V" "v \<in> W" using meet [OF assms(2,4)] by blast
  then obtain L L' where "(t, v, c, L) \<in> grants s" "(t, v, c', L') \<in> grants s" using assms(3,5) by blast
  then show ?thesis using assms(1) unfolding vote_inv_def by blast
qed

text \<open>Leader completeness: a leader stood for election with every entry chosen in an earlier term.\<close>

lemma leader_has_chosen:
  assumes inv: "vote_inv s" "cand_inv s" "lead_inv quorum s" "ack_inv s"
    and ch: "chosen quorum s t k"
  shows "lead s u = Some c \<Longrightarrow> cands s u c = Some L \<Longrightarrow> t < u \<Longrightarrow> take k L = take k (llog s t)"
proof (induction u arbitrary: c L rule: less_induct)
  case (less u)
  obtain b where b: "lead s t = Some b" using ch by (auto simp: chosen_def)
  have k: "1 \<le> k" "k \<le> length (llog s t)" "tm (llog s t) k = t" using ch by (auto simp: chosen_def)
  have coh_t: "coherent s (llog s t)" using inv(3) b unfolding lead_inv_def by blast
  obtain Q where Q: "quorum Q" "\<forall>q\<in>Q. \<exists>m\<ge>k. (t, q, m) \<in> acks s" using ch by (auto simp: chosen_def)
  obtain V where V: "quorum V" "\<forall>v\<in>V. \<exists>L. (u, v, c, L) \<in> grants s" using inv(3) less.prems(1) unfolding lead_inv_def by blast
  obtain q where "q \<in> Q" "q \<in> V" using meet [OF Q(1) V(1)] by blast
  then obtain m M where m: "(t, q, m) \<in> acks s" "k \<le> m" and M: "(u, q, c, M) \<in> grants s" using Q(2) V(2) by blast
  have before: "take k L' = take k (llog s t)" if "lead s x = Some c'" "cands s x c' = Some L'" "t < x" "x < u" for x c' L'
    using less.IH [OF that(4,1,2,3)] .
  have "vote_keeps s t k u M" using inv(4) m M less.prems(3) unfolding ack_inv_def by blast
  then have kM: "take k M = take k (llog s t)" using before unfolding vote_keeps_def lost_def by blast
  have M': "coherent s M" "up_to_date L M" using inv(1) M less.prems(2) unfolding vote_inv_def by fastforce+
  have lenM: "k \<le> length M" using take_eq_length [OF kM k(2)] .
  have "tm M k = t" using tm_cong_take [OF kM, of k] k(3) by simp
  then have tM: "t \<le> lastt M" using coherent_mono [OF M'(1) lenM] by (simp add: lastt_def)
  have L: "coherent s L" "\<forall>e\<in>set L. eterm e < u" using inv(2) less.prems(2) unfolding cand_inv_def by blast+
  have tL: "t \<le> lastt L" using M'(2) tM by (auto simp: up_to_date_def)
  have t1: "1 \<le> t" by (rule lead_terms(1) [OF inv(3,2) b])
  then have ne: "L \<noteq> []" using tL by auto
  define x where "x = lastt L"
  have xu: "x < u" using lastt_in [OF ne] L(2) x_def by auto
  have x: "lead s x \<noteq> None" "L = take (length L) (llog s x)" "length L \<le> length (llog s x)"
    using coherentD [OF L(1), of "length L"] ne x_def by (simp_all add: lastt_def Suc_le_eq)
  show ?case
  proof (cases "x = t")
    case True
    then have "length M \<le> length L" using M'(2) tM x_def by (auto simp: up_to_date_def)
    then have "take k L = take k (take (length L) (llog s t))" using x(2) True by simp
    then show ?thesis using lenM \<open>length M \<le> length L\<close> by (simp add: min_def)
  next
    case False
    then have tx: "t < x" using tL x_def by simp
    obtain a where a: "lead s x = Some a" using x(1) by blast
    obtain N D where N: "cands s x a = Some N" "llog s x = N @ D" by (rule lead_invD [OF inv(3) a])
    have kN: "take k N = take k (llog s t)" by (rule before [OF a N(1) tx xu])
    then have kx: "take k (llog s x) = take k (llog s t)" using take_eq_length [OF kN k(2)] N(2) by simp
    have "k \<le> length L"
    proof (rule ccontr)
      assume short: "\<not> k \<le> length L"
      have "x = tm (llog s x) (length L)" using x(2) x_def tm_take [of "length L" "length L" "llog s x"] by (simp add: lastt_def)
      also have "\<dots> = tm (llog s t) (length L)" using tm_cong_take [OF kx] short by simp
      also have "\<dots> \<le> t" using coherent_mono [OF coh_t, of "length L" k] k(2,3) short by simp
      finally show False using tx by simp
    qed
    then have "take k L = take k (llog s x)" using x(2) by (metis min.absorb1 take_take)
    then show ?thesis using kx by simp
  qed
qed

end

end
