(* ===== verification/RaftSafety.thy ===== *)
theory RaftSafety
  imports RaftSpec
begin

text \<open>
  Every step of the protocol keeps the invariant of \<open>RaftSpec\<close>, and what follows for the
  states that can be reached.
\<close>

context quorums
begin

section \<open>Steps of a node that leave the logs alone\<close>

lemma step_stand:
  assumes "raft_inv quorum s" "t = Suc (aterm s i)"
  shows "raft_inv quorum (s\<lparr>aterm := (aterm s)(i := t), avote := (avote s)(i := Some i), arole := (arole s)(i := CANDIDATE),
      cands := (cands s)(t := (cands s t)(i := Some (alog s i))), grants := insert (t, i, i, alog s i) (grants s)\<rparr>)"
    (is "raft_inv quorum ?s")
proof -
  note inv = raft_invD [OF assms(1)]
  have none: "cands s t i = None"
    using inv(2) assms(2) unfolding cand_inv_def by (metis not_less_eq_eq option.exhaust order_refl)
  have g: "grows s ?s" using none by (auto simp: grows_def assms(2))
  have log: "coherent s (alog s i)" "\<forall>e\<in>set (alog s i). eterm e < t"
    using inv(4) unfolding log_inv_def by (auto simp: assms(2) less_Suc_eq_le)
  have noleader: "lead s t \<noteq> Some i" using inv(3) none unfolding lead_inv_def by fastforce
  have old: "w \<le> aterm s v" if "(w, v, c, L) \<in> grants s" for w v c L using inv(1) that unfolding vote_inv_def by blast
  have "vote_inv ?s"
  proof (rule vote_inv_grows [OF inv(1) g])
    fix w v c L
    assume "(w, v, c, L) \<in> grants ?s - grants s"
    then have n: "w = t" "v = i" "c = i" "L = alog s i" by auto
    have "c' = i" if "(t, i, c', L') \<in> grants s" for c' L' using old [OF that] assms(2) by simp
    then show "w = aterm ?s v \<and> avote ?s v = Some c \<and> coherent ?s L
      \<and> (\<exists>M. cands ?s w c = Some M \<and> up_to_date M L) \<and> (\<forall>c' L'. (w, v, c', L') \<in> grants s \<longrightarrow> c' = c)"
      using coherent_grows [OF log(1) g] n by (simp add: up_to_date_def)
  qed (use assms(2) in \<open>auto split: if_splits\<close>)
  moreover have "cand_inv ?s"
  proof -
    have "1 \<le> w \<and> w \<le> aterm ?s c \<and> coherent ?s L \<and> (\<forall>e\<in>set L. eterm e < w)" if "cands ?s w c = Some L" for w c L
    proof (cases "w = t \<and> c = i")
      case True
      then show ?thesis using that log coherent_grows [OF log(1) g] assms(2) by auto
    next
      case False
      then have "cands s w c = Some L" using that by (auto split: if_splits)
      then have "1 \<le> w \<and> w \<le> aterm s c \<and> coherent s L \<and> (\<forall>e\<in>set L. eterm e < w)"
        using inv(2) unfolding cand_inv_def by blast
      then show ?thesis using coherent_grows [OF _ g] growsD(1) [OF g, of c] by auto
    qed
    moreover have "cands ?s (aterm ?s j) j = Some (alog ?s j) \<and> lead ?s (aterm ?s j) \<noteq> Some j" if "arole ?s j = CANDIDATE" for j
      using that noleader inv(2) unfolding cand_inv_def by (auto split: if_splits)
    ultimately show ?thesis unfolding cand_inv_def by blast
  qed
  moreover have "lead_inv quorum ?s"
    by (rule lead_inv_grows [OF inv(3) g]) (auto split: if_splits)
  moreover have "log_inv ?s"
    using inv(4) coherent_grows [OF _ g] assms(2) unfolding log_inv_def by (auto split: if_splits intro: le_SucI)
  moreover have "ack_inv ?s"
  proof (rule ack_inv_grows [OF inv(5) g])
    fix w v m k
    assume "(w, v, m) \<in> acks s" "k \<le> m"
    then have h: "log_keeps s w v k" "lead s w \<noteq> None" "k \<le> length (llog s w)" using inv(5) unfolding ack_inv_def by fastforce+
    show "log_keeps ?s w v k" by (rule log_keeps_grows [OF h(1) g h(2,3)]) simp
  next
    fix w v c L u m k
    assume "(w, v, c, L) \<in> grants ?s - grants s" and a: "(u, v, m) \<in> acks s" "u < w" "k \<le> m"
    then have n: "w = t" "v = i" "L = alog s i" by auto
    have h: "log_keeps s u i k" "lead s u \<noteq> None" "k \<le> length (llog s u)" using inv(5) a n(2) unfolding ack_inv_def by fastforce+
    have "vote_keeps s u k w L" using h(1) n assms(2) unfolding log_keeps_def vote_keeps_def by auto
    then show "vote_keeps ?s u k w L" by (rule vote_keeps_grows [OF _ g h(2,3)])
  qed (use old assms(2) in \<open>auto split: if_splits intro: le_SucI\<close>)
  moreover have "commit_inv quorum ?s" by (rule commit_inv_grows [OF inv(6) g]) auto
  ultimately show ?thesis by (simp add: raft_inv_def)
qed

lemma step_term:
  assumes "raft_inv quorum s" "aterm s i \<le> t" "aterm s i = t \<longrightarrow> v = avote s i"
  shows "raft_inv quorum (s\<lparr>aterm := (aterm s)(i := t), avote := (avote s)(i := v), arole := (arole s)(i := FOLLOWER)\<rparr>)"
    (is "raft_inv quorum ?s")
proof -
  note inv = raft_invD [OF assms(1)]
  have g: "grows s ?s" using assms(2) by (auto simp: grows_def)
  have "vote_inv ?s" by (rule vote_inv_grows [OF inv(1) g]) (use assms(2,3) in \<open>auto split: if_splits\<close>)
  moreover have "cand_inv ?s" by (rule cand_inv_grows [OF inv(2) g]) (use inv(2) in \<open>auto simp: cand_inv_def split: if_splits\<close>)
  moreover have "lead_inv quorum ?s" by (rule lead_inv_grows [OF inv(3) g]) (auto split: if_splits)
  moreover have "log_inv ?s" using inv(4) coherent_grows [OF _ g] assms(2) unfolding log_inv_def by fastforce
  moreover have "ack_inv ?s"
  proof (rule ack_inv_grows [OF inv(5) g])
    fix w j m k
    assume "(w, j, m) \<in> acks s" "k \<le> m"
    then have h: "log_keeps s w j k" "lead s w \<noteq> None" "k \<le> length (llog s w)" using inv(5) unfolding ack_inv_def by fastforce+
    show "log_keeps ?s w j k" by (rule log_keeps_grows [OF h(1) g h(2,3)]) simp
  next
    fix w j c L
    assume "(w, j, c, L) \<in> grants ?s"
    then have "(w, j, c, L) \<in> grants s" by simp
    then have "w \<le> aterm s j" using inv(1) unfolding vote_inv_def by blast
    then show "w \<le> aterm ?s j" using growsD(1) [OF g, of j] by simp
  qed auto
  moreover have "commit_inv quorum ?s" by (rule commit_inv_grows [OF inv(6) g]) auto
  ultimately show ?thesis by (simp add: raft_inv_def)
qed

lemma step_grant:
  assumes "raft_inv quorum s" "cands s (aterm s i) c = Some L" "avote s i = None \<or> avote s i = Some c"
    and "up_to_date L (alog s i)"
  shows "raft_inv quorum (s\<lparr>avote := (avote s)(i := Some c), grants := insert (aterm s i, i, c, alog s i) (grants s)\<rparr>)"
    (is "raft_inv quorum ?s")
proof -
  note inv = raft_invD [OF assms(1)]
  have g: "grows s ?s" by (auto simp: grows_def)
  have log: "coherent ?s (alog s i)" using inv(4) coherent_grows [OF _ g] unfolding log_inv_def by blast
  have old: "w \<le> aterm s v" "w = aterm s v \<Longrightarrow> avote s v = Some b" if "(w, v, b, M) \<in> grants s" for w v b M
    using inv(1) that unfolding vote_inv_def by blast+
  have L: "1 \<le> aterm s i" "\<forall>e\<in>set L. eterm e < aterm s i" using inv(2) assms(2) unfolding cand_inv_def by blast+
  have "vote_inv ?s"
  proof (rule vote_inv_grows [OF inv(1) g])
    fix w v b M
    assume "(w, v, b, M) \<in> grants ?s - grants s"
    then have n: "w = aterm s i" "v = i" "b = c" "M = alog s i" by auto
    have "c' = c" if "(aterm s i, i, c', L') \<in> grants s" for c' L' using old(2) [OF that] assms(3) by auto
    then show "w = aterm ?s v \<and> avote ?s v = Some b \<and> coherent ?s M
      \<and> (\<exists>N. cands ?s w b = Some N \<and> up_to_date N M) \<and> (\<forall>c' L'. (w, v, c', L') \<in> grants s \<longrightarrow> c' = b)"
      using log n assms(2,4) by simp
  qed (use assms(3) in \<open>auto split: if_splits\<close>)
  moreover have "cand_inv ?s" by (rule cand_inv_grows [OF inv(2) g]) (use inv(2) in \<open>auto simp: cand_inv_def\<close>)
  moreover have "lead_inv quorum ?s" by (rule lead_inv_grows [OF inv(3) g]) auto
  moreover have "log_inv ?s" using inv(4) coherent_grows [OF _ g] unfolding log_inv_def by auto
  moreover have "ack_inv ?s"
  proof (rule ack_inv_grows [OF inv(5) g])
    fix w v m k
    assume "(w, v, m) \<in> acks s" "k \<le> m"
    then have h: "log_keeps s w v k" "lead s w \<noteq> None" "k \<le> length (llog s w)" using inv(5) unfolding ack_inv_def by fastforce+
    show "log_keeps ?s w v k" by (rule log_keeps_grows [OF h(1) g h(2,3)]) simp
  next
    fix w v b M u m k
    assume "(w, v, b, M) \<in> grants ?s - grants s" and a: "(u, v, m) \<in> acks s" "u < w" "k \<le> m"
    then have n: "w = aterm s i" "v = i" "M = alog s i" by auto
    have h: "log_keeps s u i k" "lead s u \<noteq> None" "k \<le> length (llog s u)" using inv(5) a n(2) unfolding ack_inv_def by fastforce+
    have "lastt L < aterm s i" using lastt_in [of L] L by (cases "L = []") auto
    then have "lastt (alog s i) < aterm s i" using assms(4) by (auto simp: up_to_date_def)
    then have "vote_keeps s u k w M" using h(1) n unfolding log_keeps_def vote_keeps_def by (metis le_neq_implies_less less_irrefl)
    then show "vote_keeps ?s u k w M" by (rule vote_keeps_grows [OF _ g h(2,3)])
  qed (use old in auto)
  moreover have "commit_inv quorum ?s" by (rule commit_inv_grows [OF inv(6) g]) auto
  ultimately show ?thesis by (simp add: raft_inv_def)
qed

lemma step_commit:
  assumes "raft_inv quorum s"
    and "n = 0 \<or> (\<exists>t k. chosen quorum s t k \<and> t \<le> aterm s i \<and> n \<le> k \<and> n \<le> length (alog s i)
      \<and> take n (alog s i) = take n (llog s t))"
  shows "raft_inv quorum (s\<lparr>acommit := (acommit s)(i := n)\<rparr>)" (is "raft_inv quorum ?s")
proof -
  note inv = raft_invD [OF assms(1)]
  have same: "coherent ?s = coherent s" "lost ?s = lost s" "chosen quorum ?s = chosen quorum s"
    by (auto simp: fun_eq_iff coherent_def lost_def chosen_def)
  then have "log_keeps ?s = log_keeps s" "vote_keeps ?s = vote_keeps s"
    by (auto simp: fun_eq_iff log_keeps_def vote_keeps_def)
  then have "vote_inv ?s" "cand_inv ?s" "lead_inv quorum ?s" "log_inv ?s" "ack_inv ?s"
    using inv(1-5) same by (simp_all add: vote_inv_def cand_inv_def lead_inv_def log_inv_def ack_inv_def)
  moreover have "commit_inv quorum ?s"
    using inv(6) assms(2) unfolding commit_inv_def same by auto
  ultimately show ?thesis by (simp add: raft_inv_def)
qed

section \<open>Steps that extend a log\<close>

lemma coherent_snoc:
  assumes "coherent s L" "\<forall>e\<in>set L. eterm e \<le> t" "eterm e = t" "lead s t \<noteq> None" "llog s t = L @ [e]"
  shows "coherent s (L @ [e])"
  unfolding coherent_def
proof (intro conjI allI impI)
  show "sorted (map eterm (L @ [e]))" using assms(1-3) by (auto simp: coherent_def sorted_append)
next
  fix k
  assume k: "1 \<le> k \<and> k \<le> length (L @ [e])"
  have "tm (L @ [e]) (Suc (length L)) = t" using assms(3) by (simp add: tm_def)
  then show "lead s (tm (L @ [e]) k) \<noteq> None" "take k (L @ [e]) = take k (llog s (tm (L @ [e]) k))"
    using assms(4,5) coherentD(1,2) [OF assms(1), of k] k
    by (cases "k = Suc (length L)"; simp add: tm_append)+
qed

lemma step_lead:
  assumes "raft_inv quorum s" and e: "eterm e = aterm s i"
    and V: "quorum V" "\<forall>v\<in>V. \<exists>L. (aterm s i, v, i, L) \<in> grants s"
    and L: "cands s (aterm s i) i = Some L" "alog s i = L @ D" "\<forall>e\<in>set D. eterm e = aterm s i"
    and lead: "lead s (aterm s i) = None \<or> lead s (aterm s i) = Some i \<and> llog s (aterm s i) = alog s i"
  shows "raft_inv quorum (lead_with i (alog s i @ [e]) s)" (is "raft_inv quorum ?s")
proof -
  note inv = raft_invD [OF assms(1)]
  let ?t = "aterm s i"
  note [simp] = lead_with_def
  have log: "coherent s (alog s i)" "\<forall>e\<in>set (alog s i). eterm e \<le> ?t" using inv(4) unfolding log_inv_def by blast+
  have g: "grows s ?s" using lead by (auto simp: grows_def)
  have coh: "coherent ?s (alog s i @ [e])"
    by (rule coherent_snoc [OF coherent_grows [OF log(1) g] log(2)]) (use e in auto)
  have "vote_inv ?s" by (rule vote_inv_grows [OF inv(1) g]) auto
  moreover have "cand_inv ?s"
    by (rule cand_inv_grows [OF inv(2) g]) (use inv(2) in \<open>auto simp: cand_inv_def split: if_splits\<close>)
  moreover have "lead_inv quorum ?s"
  proof -
    have "(\<exists>V. quorum V \<and> (\<forall>v\<in>V. \<exists>L. (u, v, c, L) \<in> grants ?s))
        \<and> (\<exists>L D. cands ?s u c = Some L \<and> llog ?s u = L @ D \<and> D \<noteq> [] \<and> (\<forall>e\<in>set D. eterm e = u)) \<and> coherent ?s (llog ?s u)"
      if u: "lead ?s u = Some c" for u c
    proof (cases "u = ?t")
      case True
      have "\<exists>L D. cands ?s ?t i = Some L \<and> llog ?s ?t = L @ D \<and> D \<noteq> [] \<and> (\<forall>e\<in>set D. eterm e = ?t)"
        using L e by (intro exI [of _ L] exI [of _ "D @ [e]"]) auto
      then show ?thesis using True u V coh by auto
    next
      case False
      then have "lead s u = Some c" "llog ?s u = llog s u" using u by simp_all
      then have h: "\<exists>V. quorum V \<and> (\<forall>v\<in>V. \<exists>L. (u, v, c, L) \<in> grants s)"
        "\<exists>L D. cands s u c = Some L \<and> llog s u = L @ D \<and> D \<noteq> [] \<and> (\<forall>e\<in>set D. eterm e = u)" "coherent s (llog s u)"
        using inv(3) unfolding lead_inv_def by blast+
      show ?thesis using h(1,2) coherent_grows [OF h(3) g] \<open>llog ?s u = llog s u\<close> by simp
    qed
    moreover have "lead ?s (aterm ?s j) = Some j \<and> llog ?s (aterm ?s j) = alog ?s j" if "arole ?s j = LEADER" for j
    proof (cases "j = i")
      case False
      then have "lead s (aterm s j) = Some j" "llog s (aterm s j) = alog s j" using that inv(3) unfolding lead_inv_def by auto
      then show ?thesis using False lead by auto
    qed simp
    ultimately show ?thesis unfolding lead_inv_def by blast
  qed
  moreover have "log_inv ?s" using inv(4) coherent_grows [OF _ g] coh log(2) e unfolding log_inv_def by auto
  moreover have "ack_inv ?s"
  proof (rule ack_inv_grows [OF inv(5) g])
    fix w v m k
    assume "(w, v, m) \<in> acks s" "k \<le> m"
    then have h: "log_keeps s w v k" "lead s w \<noteq> None" "k \<le> length (llog s w)" using inv(5) unfolding ack_inv_def by fastforce+
    have "take k (alog ?s v) = take k (alog s v)" if "take k (alog s v) = take k (llog s w)"
      using take_eq_length [OF that h(3)] by auto
    then show "log_keeps ?s w v k"
      using e by (intro log_keeps_grows [OF h(1) g h(2,3)]) (cases "v = i"; simp)
  next
    fix w v c M
    assume "(w, v, c, M) \<in> grants ?s"
    then show "w \<le> aterm ?s v" using inv(1) unfolding vote_inv_def by simp
  qed auto
  moreover have "commit_inv quorum ?s"
  proof (rule commit_inv_grows [OF inv(6) g])
    fix j
    show "acommit ?s j = acommit s j \<and> take (acommit s j) (alog ?s j) = take (acommit s j) (alog s j) \<or> acommit ?s j = 0"
      using inv(6) unfolding commit_inv_def by (cases "j = i") (auto, force)
  qed
  ultimately show ?thesis by (simp add: raft_inv_def)
qed

section \<open>Accepting entries\<close>

text \<open>What the leader of term \<open>t\<close> has of an earlier leader's chosen entries is still in its log.\<close>

lemma leader_log_has:
  assumes inv: "raft_inv quorum s" and ch: "chosen quorum s t k" and u: "lead s u = Some c" "t \<le> u" and n: "n \<le> k"
  shows "take n (llog s u) = take n (llog s t)"
proof (cases "t = u")
  case False
  note i = raft_invD [OF inv]
  obtain L D where L: "cands s u c = Some L" "llog s u = L @ D" by (rule lead_invD [OF i(3) u(1)])
  have eq: "take k L = take k (llog s t)"
    by (rule leader_has_chosen [OF i(1,2,3,5) ch u(1) L(1)]) (use False u(2) in simp)
  have "k \<le> length L" using take_eq_length [OF eq] ch by (simp add: chosen_def)
  then show ?thesis using take_cong_le [OF eq n] n L(2) by simp
qed simp

text \<open>A follower that accepts entries keeps its log, or has the beginning of the leader's log, which holds all they shared.\<close>

lemma accept_log:
  assumes "raft_inv quorum s" and t: "lead s t = Some c" and m: "p + n \<le> length (llog s t)"
    and prev: "p \<le> length (alog s i)" "tm (alog s i) p = tm (llog s t) p"
  shows "splice_from p (take n (drop p (llog s t))) (alog s i) = alog s i \<and> take (p + n) (alog s i) = take (p + n) (llog s t)
    \<or> splice_from p (take n (drop p (llog s t))) (alog s i) = take (p + n) (llog s t)
      \<and> (\<forall>k \<le> length (alog s i). k \<le> length (llog s t) \<longrightarrow> take k (alog s i) = take k (llog s t) \<longrightarrow> k \<le> p + n)"
proof -
  note inv = raft_invD [OF assms(1)]
  have log: "coherent s (alog s i)" using inv(4) unfolding log_inv_def by blast
  obtain L D where L: "coherent s (llog s t)" by (rule lead_invD [OF inv(3) t])
  have match: "take k (alog s i) = take k (llog s t)" if "k \<le> length (alog s i)" "k \<le> length (llog s t)" "tm (alog s i) k = tm (llog s t) k" for k
    by (rule coherent_match [OF log L that])
  have base: "take p (alog s i) = take p (llog s t)" by (rule match [OF prev(1) _ prev(2)]) (use m in simp)
  have further: "take k (alog s i) = take k (llog s t)"
    if "p < k" "k \<le> p + n" "k \<le> length (alog s i)" "tm (alog s i) k = tm (llog s t) k" for k
    by (rule match) (use that m in simp_all)
  show ?thesis using splice_cases [OF prev(1) base m further] by blast
qed

lemma step_accept:
  assumes "raft_inv quorum s" and t: "t = aterm s i" "lead s t = Some c" "c \<noteq> i"
    and m: "p + n \<le> length (llog s t)" "tm (llog s t) (p + n) = t"
    and prev: "p \<le> length (alog s i)" "tm (alog s i) p = tm (llog s t) p"
  shows "raft_inv quorum (s\<lparr>arole := (arole s)(i := FOLLOWER),
      alog := (alog s)(i := splice_from p (take n (drop p (llog s t))) (alog s i)), acks := insert (t, i, p + n) (acks s)\<rparr>)"
    (is "raft_inv quorum ?s")
proof -
  note inv = raft_invD [OF assms(1)]
  define R where "R = splice_from p (take n (drop p (llog s t))) (alog s i)"
  have g: "grows s ?s" by (auto simp: grows_def)
  have log: "coherent s (alog s i)" "\<forall>e\<in>set (alog s i). eterm e \<le> t" using inv(4) t(1) unfolding log_inv_def by blast+
  obtain L D where L: "cands s t c = Some L" "llog s t = L @ D" "coherent s (llog s t)" by (rule lead_invD [OF inv(3) t(2)])
  note lt = lead_terms [OF inv(3,2) t(2)]
  have R: "R = alog s i \<and> take (p + n) (alog s i) = take (p + n) (llog s t)
    \<or> R = take (p + n) (llog s t) \<and> (\<forall>k \<le> length (alog s i). k \<le> length (llog s t) \<longrightarrow> take k (alog s i) = take k (llog s t) \<longrightarrow> k \<le> p + n)"
    unfolding R_def by (rule accept_log [OF assms(1) t(2) m(1) prev])
  have lastR: "lastt (take (p + n) (llog s t)) = t" using m by (simp add: lastt_def tm_take)
  have keep: "take k R = take k (alog s i)"
    if "k \<le> length (alog s i)" "k \<le> length (llog s t)" "take k (alog s i) = take k (llog s t)" for k
    using R that by (auto simp: min_def)
  have "vote_inv ?s" by (rule vote_inv_grows [OF inv(1) g]) auto
  moreover have "cand_inv ?s" by (rule cand_inv_grows [OF inv(2) g]) (use inv(2) in \<open>auto simp: cand_inv_def split: if_splits\<close>)
  moreover have "lead_inv quorum ?s" by (rule lead_inv_grows [OF inv(3) g]) (auto split: if_splits)
  moreover have "log_inv ?s"
  proof -
    have "coherent s R \<and> (\<forall>e\<in>set R. eterm e \<le> t)" using R log coherent_take [OF L(3)] lt(2) by (auto dest: in_set_takeD)
    then show ?thesis using inv(4) coherent_grows [OF _ g] t(1) unfolding log_inv_def R_def by auto
  qed
  moreover have "ack_inv ?s"
  proof (rule ack_inv_grows [OF inv(5) g])
    fix w v x k
    assume a: "(w, v, x) \<in> acks s" "k \<le> x"
    then have h: "log_keeps s w v k" "lead s w \<noteq> None" "k \<le> length (llog s w)" "w \<le> aterm s v" using inv(5) unfolding ack_inv_def by fastforce+
    show "log_keeps ?s w v k"
    proof (cases "v = i \<and> R \<noteq> alog s i")
      case False
      then show ?thesis by (intro log_keeps_grows [OF h(1) g h(2,3)]) (auto simp: R_def)
    next
      case True
      then have last: "lastt R = t" using R lastR by auto
      have "take k R = take k (alog s i) \<or> lost s w k t \<and> w < t" if k: "take k (alog s i) = take k (llog s w)"
      proof (cases "w = t \<or> take k L = take k (llog s w)")
        case same: True
        then have "take k (llog s t) = take k (llog s w)" using take_eq_length [OF _ h(3), of L] L(2) by auto
        then show ?thesis
          using keep take_eq_length [OF k h(3)] take_eq_length [of k "llog s t" "llog s w"] h(3) k by simp
      next
        case False
        then show ?thesis using h(4) True t(1,2) L(1) unfolding lost_def by auto
      qed
      then consider "take k (alog s i) \<noteq> take k (llog s w) \<or> take k R = take k (alog s i)" | "lost s w k t" "w < t" by blast
      then show ?thesis
      proof cases
        case 1
        then show ?thesis using True last t(1) by (intro log_keeps_grows [OF h(1) g h(2,3)]) (auto simp: R_def)
      next
        case 2
        have "lost ?s w k t" by (rule lost_grows [OF 2(1) g h(2,3)])
        then show ?thesis using 2(2) True t(1) last unfolding log_keeps_def by (auto simp: R_def)
      qed
    qed
  next
    fix w v b M
    assume "(w, v, b, M) \<in> grants ?s"
    then show "w \<le> aterm ?s v" using inv(1) unfolding vote_inv_def by simp
  next
    fix w v x
    assume "(w, v, x) \<in> acks ?s - acks s"
    then have "w = t" "v = i" "x = p + n" by auto
    moreover have "take (p + n) R = take (p + n) (llog s t)" using R by auto
    ultimately show "w = aterm ?s v \<and> lead ?s w \<noteq> None \<and> x \<le> length (llog ?s w) \<and> take x (alog ?s v) = take x (llog ?s w)"
      using t m(1) by (simp add: R_def)
  qed auto
  moreover have "commit_inv quorum ?s"
  proof (rule commit_inv_grows [OF inv(6) g])
    fix j
    have "take (acommit s i) R = take (acommit s i) (alog s i)" if nz: "acommit s i \<noteq> 0"
    proof -
      obtain w k where w: "chosen quorum s w k" "w \<le> t" "acommit s i \<le> k" "acommit s i \<le> length (alog s i)"
        "take (acommit s i) (alog s i) = take (acommit s i) (llog s w)"
        unfolding t(1) by (rule commit_invD [OF inv(6) nz])
      have "take (acommit s i) (llog s t) = take (acommit s i) (llog s w)"
        by (rule leader_log_has [OF assms(1) w(1) t(2) w(2,3)])
      then show ?thesis using keep w(4,5) take_eq_length [of "acommit s i" "llog s t" "alog s i"] by simp
    qed
    then show "acommit ?s j = acommit s j \<and> take (acommit s j) (alog ?s j) = take (acommit s j) (alog s j) \<or> acommit ?s j = 0"
      by (auto simp: R_def)
  qed
  ultimately show ?thesis by (simp add: raft_inv_def)
qed

section \<open>Reachable states\<close>

lemma elect_fresh:
  assumes "raft_inv quorum s" "arole s i = CANDIDATE" "quorum V" "\<forall>v\<in>V. \<exists>L. (aterm s i, v, i, L) \<in> grants s"
  shows "cands s (aterm s i) i = Some (alog s i)" "lead s (aterm s i) = None"
proof -
  note inv = raft_invD [OF assms(1)]
  show c: "cands s (aterm s i) i = Some (alog s i)" using inv(2) assms(2) unfolding cand_inv_def by blast
  show "lead s (aterm s i) = None"
  proof (rule ccontr)
    assume "lead s (aterm s i) \<noteq> None"
    then obtain b where b: "lead s (aterm s i) = Some b" by blast
    then obtain W where "quorum W" "\<forall>v\<in>W. \<exists>L. (aterm s i, v, b, L) \<in> grants s" using inv(3) unfolding lead_inv_def by blast
    then have "b = i" using one_leader [OF inv(1)] assms(3,4) by blast
    then show False using b inv(2) assms(2) unfolding cand_inv_def by blast
  qed
qed

lemma step_inv: "rstep quorum s s' \<Longrightarrow> raft_inv quorum s \<Longrightarrow> raft_inv quorum s'"
proof (induction rule: rstep.induct)
  case (r_stand t s i)
  then show ?case by (intro step_stand)
next
  case (r_term s i t)
  then show ?case by (intro step_term) auto
next
  case (r_follow s i)
  then show ?case using step_term [of s i "aterm s i" "avote s i"] by simp
next
  case (r_grant s i c L)
  then show ?case by (intro step_grant)
next
  case (r_elect s i V e)
  then show ?case
    using step_lead [OF r_elect(5,4,2,3) elect_fresh(1) [OF r_elect(5,1-3)], of "[]"] elect_fresh(2) [OF r_elect(5,1-3)] by simp
next
  case (r_append s i e)
  note inv = raft_invD [OF r_append(3)]
  have l: "lead s (aterm s i) = Some i" "llog s (aterm s i) = alog s i" using inv(3) r_append(1) unfolding lead_inv_def by auto
  obtain V where V: "quorum V" "\<forall>v\<in>V. \<exists>L. (aterm s i, v, i, L) \<in> grants s" using inv(3) l(1) unfolding lead_inv_def by blast
  obtain L D where "cands s (aterm s i) i = Some L" "llog s (aterm s i) = L @ D" "\<forall>e\<in>set D. eterm e = aterm s i"
    by (rule lead_invD [OF inv(3) l(1)])
  then show ?case using step_lead [OF r_append(3,2) V, of L D] l by simp
next
  case (r_accept t s i c p n)
  then show ?case by (intro step_accept)
next
  case (r_learn s t k i n)
  then show ?case by (intro step_commit) auto
next
  case (r_forget s i)
  then show ?case by (intro step_commit) auto
qed

lemma step_grows: "rstep quorum s s' \<Longrightarrow> raft_inv quorum s \<Longrightarrow> grows s s'"
proof (induction rule: rstep.induct)
  case (r_stand t s i)
  have "cands s t i = None"
    using raft_invD(2) [OF r_stand(2)] r_stand(1) unfolding cand_inv_def by (metis not_less_eq_eq option.exhaust order_refl)
  then show ?case using r_stand(1) by (auto simp: grows_def)
next
  case (r_elect s i V e)
  then show ?case using elect_fresh(2) [OF r_elect(5,1-3)] by (auto simp: grows_def lead_with_def)
next
  case (r_append s i e)
  then have "lead s (aterm s i) = Some i" "llog s (aterm s i) = alog s i"
    using raft_invD(3) [OF r_append(3)] unfolding lead_inv_def by auto
  then show ?case by (auto simp: grows_def lead_with_def)
qed (auto simp: grows_def)

text \<open>No step changes the part of a node's log that was chosen.\<close>

lemma step_keeps_chosen:
  assumes "rstep quorum s s'" "raft_inv quorum s" "chosen quorum s t k" "t \<le> aterm s j" "n \<le> k" "n \<le> length (alog s j)"
    and "take n (alog s j) = take n (llog s t)"
  shows "take n (alog s' j) = take n (alog s j)"
  using assms
proof (induction rule: rstep.induct)
  case (r_accept u s i c p m)
  show ?case
  proof (cases "j = i")
    case True
    have eq: "take n (alog s i) = take n (llog s u)"
      using leader_log_has [OF r_accept(8,9) r_accept(2)] r_accept(1,10,11,13) True by simp
    then have len: "n \<le> length (llog s u)" by (rule take_eq_length [OF sym]) (use r_accept(12) True in simp)
    from accept_log [OF r_accept(8,2,4,6,7)] show ?thesis
    proof
      assume "splice_from p (take m (drop p (llog s u))) (alog s i) = take (p + m) (llog s u)
        \<and> (\<forall>k \<le> length (alog s i). k \<le> length (llog s u) \<longrightarrow> take k (alog s i) = take k (llog s u) \<longrightarrow> k \<le> p + m)"
      then show ?thesis using eq len r_accept(12) True by (simp add: min_def)
    qed (use True in simp)
  qed simp
qed (auto simp: lead_with_def)

lemma reach_inv: "rreach quorum s \<Longrightarrow> raft_inv quorum s"
  by (induction rule: rreach.induct) (auto intro: step_inv raft_inv_init)

lemma election_safety:
  assumes "raft_inv quorum s" "arole s i = LEADER" "arole s j = LEADER" "aterm s i = aterm s j"
  shows "i = j"
  using raft_invD(3) [OF assms(1)] assms(2-4) unfolding lead_inv_def by (metis option.inject)

lemma log_matching:
  assumes "raft_inv quorum s" "k \<le> length (alog s i)" "k \<le> length (alog s j)" "tm (alog s i) k = tm (alog s j) k"
  shows "take k (alog s i) = take k (alog s j)"
  using raft_invD(4) [OF assms(1)] coherent_match [OF _ _ assms(2-4)] unfolding log_inv_def by blast

text \<open>The committed parts of two logs agree: one is a part of the other.\<close>

lemma commit_agrees:
  assumes inv: "raft_inv quorum s" and n: "n \<le> acommit s i" "n \<le> acommit s j"
  shows "take n (alog s i) = take n (alog s j)"
proof (cases "n = 0")
  case False
  have *: "\<exists>t k. chosen quorum s t k \<and> n \<le> k \<and> take n (alog s i) = take n (llog s t)" if "n \<le> acommit s i" for i
  proof -
    have "acommit s i \<noteq> 0" using that False by simp
    then obtain t k where "chosen quorum s t k" "acommit s i \<le> k" "take (acommit s i) (alog s i) = take (acommit s i) (llog s t)"
      by (rule commit_invD [OF raft_invD(6) [OF inv]])
    then show ?thesis using that take_cong_le [of "acommit s i" "alog s i" "llog s t" n] by fastforce
  qed
  obtain t k where t: "chosen quorum s t k" "n \<le> k" "take n (alog s i) = take n (llog s t)" using * [OF n(1)] by blast
  obtain u h where u: "chosen quorum s u h" "n \<le> h" "take n (alog s j) = take n (llog s u)" using * [OF n(2)] by blast
  obtain c d where "lead s t = Some c" "lead s u = Some d" using t(1) u(1) by (auto simp: chosen_def)
  then have "take n (llog s t) = take n (llog s u)"
    using leader_log_has [OF inv t(1) _ _ t(2)] leader_log_has [OF inv u(1) _ _ u(2)] by (metis nle_le)
  then show ?thesis using t(3) u(3) by simp
qed simp

end

end
