(* ===== verification/RaftNode.thy ===== *)
theory RaftNode
  imports RaftSpec
begin

text \<open>
  \<open>raft/node.py\<close>: the consensus node. A node is driven by \<open>tick\<close>, \<open>step\<close> and \<open>propose\<close>; each
  returns the messages to send. The injected random generator and the callback that applies
  committed commands are parameters (\<open>raft_env\<close>). Log positions and terms are natural
  numbers: a position that is decreased, the next index of a peer, is at least 1.
\<close>

record raft_config =
  election_timeout_min :: nat
  election_timeout_max :: nat
  heartbeat_interval :: nat

definition RaftConfig :: raft_config where
  "RaftConfig = \<lparr>election_timeout_min = 10, election_timeout_max = 20, heartbeat_interval = 3\<rparr>"

text \<open>\<open>rng.randint(a, b)\<close> and \<open>apply(index, command)\<close>, on the state of the generator and of the state machine.\<close>

record ('v, 'm, 'g) raft_env =
  randint :: "nat \<Rightarrow> nat \<Rightarrow> 'g \<Rightarrow> nat \<times> 'g"
  apply_fn :: "nat \<Rightarrow> 'v command \<Rightarrow> ('m, unit) act"

record ('i, 'v, 'm, 'g) raft_node =
  node_id :: 'i
  peers :: "'i list"
  cluster_size :: nat
  nlog :: "('i, 'v) raft_log"
  rng :: 'g
  config :: raft_config
  current_term :: nat
  voted_for :: "'i option"
  role :: role
  leader_id :: "'i option"
  commit_index :: nat
  last_applied :: nat
  votes :: "'i set"
  next_index :: "'i \<rightharpoonup> nat"
  match_index :: "'i \<rightharpoonup> nat"
  election_elapsed :: nat
  heartbeat_elapsed :: nat
  election_timeout :: nat
  outbox :: "('i, 'v) envelope list"
  machine :: 'm

section \<open>Helpers\<close>

definition has_majority :: "nat \<Rightarrow> ('i, 'v, 'm, 'g) raft_node \<Rightarrow> bool" where
  "has_majority n s \<longleftrightarrow> n \<ge> cluster_size s div 2 + 1"

definition reset_election_timer :: "('v, 'm, 'g) raft_env \<Rightarrow> (('i, 'v, 'm, 'g) raft_node, unit) act" where
  "reset_election_timer E =
     modify (\<lambda>s. case randint E (election_timeout_min (config s)) (election_timeout_max (config s)) (rng s) of
       (n, g) \<Rightarrow> s\<lparr>election_elapsed := 0, election_timeout := n, rng := g\<rparr>)"

definition persist :: "(('i, 'v, 'm, 'g) raft_node, unit) act" where
  "persist = modify (\<lambda>s. s\<lparr>nlog := save (current_term s) (voted_for s) (nlog s)\<rparr>)"

definition send :: "'i \<Rightarrow> ('i, 'v) body \<Rightarrow> (('i, 'v, 'm, 'g) raft_node, unit) act" where
  "send d b = modify (\<lambda>s. s\<lparr>outbox := outbox s @ [Envelope (node_id s) d b]\<rparr>)"

definition drain :: "(('i, 'v, 'm, 'g) raft_node, ('i, 'v) envelope list) act" where
  "drain s = (Inr (outbox s), s\<lparr>outbox := []\<rparr>)"

fun for_each :: "('a \<Rightarrow> ('s, unit) act) \<Rightarrow> 'a list \<Rightarrow> ('s, unit) act" where
  "for_each f [] = ret ()"
| "for_each f (x # xs) = bindS (f x) (\<lambda>_. for_each f xs)"

definition on_machine :: "('m, unit) act \<Rightarrow> (('i, 'v, 'm, 'g) raft_node, unit) act" where
  "on_machine f s = (case f (machine s) of (x, m) \<Rightarrow> (x, s\<lparr>machine := m\<rparr>))"

definition py_get :: "('k \<rightharpoonup> 'a) \<Rightarrow> 'k \<Rightarrow> 'a result" where
  "py_get m k = (case m k of None \<Rightarrow> Inl KeyError | Some v \<Rightarrow> Inr v)"

section \<open>Replication\<close>

text \<open>\<open>_apply\<close>: the loop runs \<open>commit_index - last_applied\<close> times.\<close>

fun apply_times :: "('v, 'm, 'g) raft_env \<Rightarrow> nat \<Rightarrow> (('i, 'v, 'm, 'g) raft_node, unit) act" where
  "apply_times E 0 = ret ()"
| "apply_times E (Suc n) =
     bindS (modify (\<lambda>s. s\<lparr>last_applied := last_applied s + 1\<rparr>)) (\<lambda>_.
     bindS (lift (\<lambda>s. log_get (nlog s) (last_applied s))) (\<lambda>e.
     bindS (gets last_applied) (\<lambda>index.
     bindS (on_machine (apply_fn E index (ecommand e))) (\<lambda>_.
       apply_times E n))))"

definition apply_committed :: "('v, 'm, 'g) raft_env \<Rightarrow> (('i, 'v, 'm, 'g) raft_node, unit) act" where
  "apply_committed E s = apply_times E (commit_index s - last_applied s) s"

definition replicas :: "nat \<Rightarrow> ('i, 'v, 'm, 'g) raft_node \<Rightarrow> nat" where
  "replicas index s =
     1 + length (filter (\<lambda>peer. (case match_index s peer of None \<Rightarrow> 0 | Some m \<Rightarrow> m) \<ge> index) (peers s))"

fun advance_commit :: "('v, 'm, 'g) raft_env \<Rightarrow> nat list \<Rightarrow> (('i, 'v, 'm, 'g) raft_node, unit) act" where
  "advance_commit E [] = ret ()"
| "advance_commit E (index # is) =
     bindS (gets (\<lambda>s. term_at (nlog s) index \<noteq> int (current_term s))) (\<lambda>other_term.
       if other_term then advance_commit E is
       else
         bindS (gets (\<lambda>s. has_majority (replicas index s) s)) (\<lambda>b.
           if b
           then bindS (modify (\<lambda>s. s\<lparr>commit_index := index\<rparr>)) (\<lambda>_. apply_committed E)
           else advance_commit E is))"

text \<open>\<open>for index in range(last_index, commit_index, -1)\<close>\<close>

definition maybe_advance_commit :: "('v, 'm, 'g) raft_env \<Rightarrow> (('i, 'v, 'm, 'g) raft_node, unit) act" where
  "maybe_advance_commit E s = advance_commit E (rev [commit_index s + 1..<last_index (nlog s) + 1]) s"

definition send_append_to :: "'i \<Rightarrow> (('i, 'v, 'm, 'g) raft_node, unit) act" where
  "send_append_to peer =
     bindS (lift (\<lambda>s. py_get (next_index s) peer)) (\<lambda>next.
     bindS (gets (\<lambda>s. AppendEntries (current_term s) (node_id s) (next - 1) (term_at (nlog s) (next - 1))
                        (entries_from (nlog s) (next - 1 + 1)) (commit_index s))) (\<lambda>b.
       send peer b))"

definition broadcast_append :: "(('i, 'v, 'm, 'g) raft_node, unit) act" where
  "broadcast_append s = for_each send_append_to (peers s) s"

section \<open>Elections\<close>

definition become_leader :: "('v, 'm, 'g) raft_env \<Rightarrow> (('i, 'v, 'm, 'g) raft_node, unit) act" where
  "become_leader E =
     bindS (modify (\<lambda>s. s\<lparr>role := LEADER, leader_id := Some (node_id s),
       next_index := (\<lambda>p. if p \<in> set (peers s) then Some (last_index (nlog s) + 1) else None),
       match_index := (\<lambda>p. if p \<in> set (peers s) then Some 0 else None),
       heartbeat_elapsed := 0,
       nlog := append_new (LogEntry (current_term s) NoOp) (nlog s)\<rparr>)) (\<lambda>_.
     bindS persist (\<lambda>_.
     bindS broadcast_append (\<lambda>_.
       maybe_advance_commit E)))"

definition become_follower :: "('v, 'm, 'g) raft_env \<Rightarrow> nat \<Rightarrow> (('i, 'v, 'm, 'g) raft_node, unit) act" where
  "become_follower E t =
     bindS (modify (\<lambda>s. s\<lparr>role := FOLLOWER\<rparr>)) (\<lambda>_.
     bindS (modify (\<lambda>s. if t > current_term s then s\<lparr>current_term := t, voted_for := None\<rparr> else s)) (\<lambda>_.
     bindS (modify (\<lambda>s. s\<lparr>leader_id := None\<rparr>)) (\<lambda>_.
     bindS (reset_election_timer E) (\<lambda>_.
       persist))))"

definition become_candidate :: "('v, 'm, 'g) raft_env \<Rightarrow> (('i, 'v, 'm, 'g) raft_node, unit) act" where
  "become_candidate E =
     bindS (modify (\<lambda>s. s\<lparr>role := CANDIDATE, current_term := current_term s + 1, voted_for := Some (node_id s),
       leader_id := None, votes := {node_id s}\<rparr>)) (\<lambda>_.
     bindS (reset_election_timer E) (\<lambda>_.
     bindS persist (\<lambda>_.
     bindS (gets (\<lambda>s. has_majority (card (votes s)) s)) (\<lambda>b.
       if b then become_leader E
       else (\<lambda>s. for_each (\<lambda>peer. send peer (RequestVote (current_term s) (node_id s) (last_index (nlog s)) (last_term (nlog s))))
                   (peers s) s)))))"

definition handle_request_vote ::
  "('v, 'm, 'g) raft_env \<Rightarrow> 'i \<Rightarrow> nat \<Rightarrow> 'i \<Rightarrow> nat \<Rightarrow> nat \<Rightarrow> (('i, 'v, 'm, 'g) raft_node, unit) act" where
  "handle_request_vote E sender t candidate_id last_log_index last_log_term =
     bindS (gets current_term) (\<lambda>cur.
       if t < cur then send sender (RequestVoteReply cur False)
       else
         bindS (whenS (t > cur) (become_follower E t)) (\<lambda>_.
         bindS (gets (\<lambda>s. (voted_for s = None \<or> voted_for s = Some candidate_id)
             \<and> (last_log_term > last_term (nlog s)
                \<or> (last_log_term = last_term (nlog s) \<and> last_log_index \<ge> last_index (nlog s))))) (\<lambda>ok.
           if ok
           then
             bindS (modify (\<lambda>s. s\<lparr>voted_for := Some candidate_id\<rparr>)) (\<lambda>_.
             bindS (reset_election_timer E) (\<lambda>_.
             bindS persist (\<lambda>_.
             bindS (gets current_term) (\<lambda>c. send sender (RequestVoteReply c True)))))
           else bindS (gets current_term) (\<lambda>c. send sender (RequestVoteReply c False)))))"

definition handle_request_vote_reply ::
  "('v, 'm, 'g) raft_env \<Rightarrow> 'i \<Rightarrow> nat \<Rightarrow> bool \<Rightarrow> (('i, 'v, 'm, 'g) raft_node, unit) act" where
  "handle_request_vote_reply E sender t vote_granted =
     bindS (gets (\<lambda>s. t > current_term s)) (\<lambda>newer.
       if newer then become_follower E t
       else
         bindS (gets (\<lambda>s. role s \<noteq> CANDIDATE \<or> t < current_term s)) (\<lambda>stale.
           if stale then ret ()
           else if vote_granted then
             bindS (modify (\<lambda>s. s\<lparr>votes := insert sender (votes s)\<rparr>)) (\<lambda>_.
             bindS (gets (\<lambda>s. has_majority (card (votes s)) s)) (\<lambda>b.
               whenS b (become_leader E)))
           else ret ()))"

section \<open>Entries\<close>

definition handle_append_entries ::
  "('v, 'm, 'g) raft_env \<Rightarrow> 'i \<Rightarrow> nat \<Rightarrow> 'i \<Rightarrow> nat \<Rightarrow> int \<Rightarrow> 'v log_entry list \<Rightarrow> nat
     \<Rightarrow> (('i, 'v, 'm, 'g) raft_node, unit) act" where
  "handle_append_entries E sender t leader prev_log_index prev_log_term es leader_commit =
     bindS (gets current_term) (\<lambda>cur.
       if t < cur
       then bindS (gets (\<lambda>s. last_index (nlog s))) (\<lambda>l. send sender (AppendEntriesReply cur False l))
       else
         bindS (whenS (t > cur) (become_follower E t)) (\<lambda>_.
         bindS (modify (\<lambda>s. s\<lparr>role := FOLLOWER, leader_id := Some leader\<rparr>)) (\<lambda>_.
         bindS (reset_election_timer E) (\<lambda>_.
         bindS (gets (\<lambda>s. prev_log_index > last_index (nlog s) \<or> term_at (nlog s) prev_log_index \<noteq> prev_log_term)) (\<lambda>bad.
           if bad
           then bindS (gets (\<lambda>s. AppendEntriesReply (current_term s) False (last_index (nlog s)))) (send sender)
           else
             bindS (modify (\<lambda>s. s\<lparr>nlog := append_from prev_log_index es (nlog s)\<rparr>)) (\<lambda>_.
             let new_last = prev_log_index + length es in
             bindS (gets (\<lambda>s. leader_commit > commit_index s)) (\<lambda>more.
             bindS (whenS more
               (bindS (modify (\<lambda>s. s\<lparr>commit_index := min leader_commit new_last\<rparr>)) (\<lambda>_. apply_committed E))) (\<lambda>_.
             bindS persist (\<lambda>_.
             bindS (gets current_term) (\<lambda>c. send sender (AppendEntriesReply c True new_last)))))))))))"

definition handle_append_entries_reply ::
  "('v, 'm, 'g) raft_env \<Rightarrow> 'i \<Rightarrow> nat \<Rightarrow> bool \<Rightarrow> nat \<Rightarrow> (('i, 'v, 'm, 'g) raft_node, unit) act" where
  "handle_append_entries_reply E sender t success match =
     bindS (gets (\<lambda>s. t > current_term s)) (\<lambda>newer.
       if newer then become_follower E t
       else
         bindS (gets (\<lambda>s. role s \<noteq> LEADER \<or> t < current_term s)) (\<lambda>stale.
           if stale then ret ()
           else if success then
             bindS (modify (\<lambda>s. s\<lparr>match_index := (match_index s)(sender \<mapsto> match),
                                  next_index := (next_index s)(sender \<mapsto> match + 1)\<rparr>)) (\<lambda>_.
               maybe_advance_commit E)
           else
             bindS (lift (\<lambda>s. py_get (next_index s) sender)) (\<lambda>next.
             bindS (modify (\<lambda>s. s\<lparr>next_index := (next_index s)(sender \<mapsto> max 1 (min (next - 1) (match + 1)))\<rparr>)) (\<lambda>_.
               send_append_to sender))))"

section \<open>Driving a node\<close>

definition node_tick :: "('v, 'm, 'g) raft_env \<Rightarrow> (('i, 'v, 'm, 'g) raft_node, ('i, 'v) envelope list) act" where
  "node_tick E =
     bindS (modify (\<lambda>s. s\<lparr>outbox := []\<rparr>)) (\<lambda>_.
     bindS (gets (\<lambda>s. role s = LEADER)) (\<lambda>leading.
     bindS
       (if leading then
          bindS (modify (\<lambda>s. s\<lparr>heartbeat_elapsed := heartbeat_elapsed s + 1\<rparr>)) (\<lambda>_.
          bindS (gets (\<lambda>s. heartbeat_elapsed s \<ge> heartbeat_interval (config s))) (\<lambda>due.
            whenS due (bindS (modify (\<lambda>s. s\<lparr>heartbeat_elapsed := 0\<rparr>)) (\<lambda>_. broadcast_append))))
        else
          bindS (modify (\<lambda>s. s\<lparr>election_elapsed := election_elapsed s + 1\<rparr>)) (\<lambda>_.
          bindS (gets (\<lambda>s. election_elapsed s \<ge> election_timeout s)) (\<lambda>due.
            whenS due (become_candidate E)))) (\<lambda>_.
       drain)))"

fun dispatch :: "('v, 'm, 'g) raft_env \<Rightarrow> ('i, 'v) envelope \<Rightarrow> (('i, 'v, 'm, 'g) raft_node, unit) act" where
  "dispatch E (Envelope a b (RequestVote t c li lt)) = handle_request_vote E a t c li lt"
| "dispatch E (Envelope a b (RequestVoteReply t g)) = handle_request_vote_reply E a t g"
| "dispatch E (Envelope a b (AppendEntries t l pi pt es lc)) = handle_append_entries E a t l pi pt es lc"
| "dispatch E (Envelope a b (AppendEntriesReply t ok m)) = handle_append_entries_reply E a t ok m"

definition node_step ::
  "('v, 'm, 'g) raft_env \<Rightarrow> ('i, 'v) envelope \<Rightarrow> (('i, 'v, 'm, 'g) raft_node, ('i, 'v) envelope list) act" where
  "node_step E env =
     bindS (modify (\<lambda>s. s\<lparr>outbox := []\<rparr>)) (\<lambda>_.
     bindS (dispatch E env) (\<lambda>_.
       drain))"

definition propose ::
  "('v, 'm, 'g) raft_env \<Rightarrow> 'v command \<Rightarrow> (('i, 'v, 'm, 'g) raft_node, nat \<times> ('i, 'v) envelope list) act" where
  "propose E c =
     bindS (gets role) (\<lambda>r.
       if r \<noteq> LEADER then raise NotLeaderError
       else
         bindS (modify (\<lambda>s. s\<lparr>outbox := [], nlog := append_new (LogEntry (current_term s) c) (nlog s)\<rparr>)) (\<lambda>_.
         bindS (gets (\<lambda>s. last_index (nlog s))) (\<lambda>index.
         bindS persist (\<lambda>_.
         bindS broadcast_append (\<lambda>_.
         bindS (maybe_advance_commit E) (\<lambda>_.
         bindS drain (\<lambda>out. ret (index, out))))))))"

definition is_leader :: "('i, 'v, 'm, 'g) raft_node \<Rightarrow> bool" where
  "is_leader s \<longleftrightarrow> role s = LEADER"

text \<open>The constructor: term and vote come from the log.\<close>

definition RaftNode ::
  "('v, 'm, 'g) raft_env \<Rightarrow> 'i \<Rightarrow> 'i list \<Rightarrow> 'm \<Rightarrow> ('i, 'v) raft_log \<Rightarrow> 'g \<Rightarrow> raft_config \<Rightarrow> nat
     \<Rightarrow> ('i, 'v, 'm, 'g) raft_node" where
  "RaftNode E i ps m l g cfg applied =
     (let s = \<lparr>node_id = i, peers = ps, cluster_size = length ps + 1, nlog = l, rng = g, config = cfg,
        current_term = log_term l, voted_for = log_voted_for l, role = FOLLOWER, leader_id = None,
        commit_index = 0, last_applied = applied, votes = {}, next_index = Map.empty, match_index = Map.empty,
        election_elapsed = 0, heartbeat_elapsed = 0, election_timeout = 0, outbox = [], machine = m\<rparr>
      in snd (reset_election_timer E s))"

end
