(* ===== verification/RaftCluster.thy ===== *)
theory RaftCluster
  imports RaftNode
begin

text \<open>
  The recording state machine of \<open>raft/statemachine.py\<close>, the simulated cluster of
  \<open>raft/simulation.py\<close>, and the network that the nodes have to be safe in: there every node
  may tick, be sent a command or be restarted at any time, and every message that was ever
  sent may be delivered at any time, any number of times or never.

  A node of \<open>SimCluster\<close> shares its log and its state machine with the cluster, which keeps
  them over a restart; here they are fields of the node.
\<close>

section \<open>The recorder\<close>

record 'v recorder =
  applied :: "(nat \<times> 'v command) list"
  applied_index :: nat

definition Recorder :: "'v recorder" where
  "Recorder = \<lparr>applied = [], applied_index = 0\<rparr>"

definition recorder_apply :: "nat \<Rightarrow> 'v command \<Rightarrow> ('v recorder, unit) act" where
  "recorder_apply index c = modify (\<lambda>m. m\<lparr>applied := applied m @ [(index, c)], applied_index := index\<rparr>)"

fun kv_step :: "(string \<rightharpoonup> 'v) \<Rightarrow> 'v command \<Rightarrow> (string \<rightharpoonup> 'v)" where
  "kv_step m (SetOp k v) = m(k \<mapsto> v)"
| "kv_step m (DelOp k) = m(k := None)"
| "kv_step m NoOp = m"

definition recorder_kv :: "'v recorder \<Rightarrow> (string \<rightharpoonup> 'v)" where
  "recorder_kv m = foldl (\<lambda>state (i, c). kv_step state c) Map.empty (applied m)"

definition recorder_env :: "(nat \<Rightarrow> nat \<Rightarrow> 'g \<Rightarrow> nat \<times> 'g) \<Rightarrow> ('v, 'v recorder, 'g) raft_env" where
  "recorder_env ri = \<lparr>randint = ri, apply_fn = recorder_apply\<rparr>"

type_synonym ('v, 'g) rnode = "(nat, 'v, 'v recorder, 'g) raft_node"

section \<open>The simulated cluster\<close>

text \<open>\<open>Random s\<close> is \<open>random.Random(s)\<close>.\<close>

record ('v, 'g) sim_cluster =
  sim_env :: "('v, 'v recorder, 'g) raft_env"
  Random :: "nat \<Rightarrow> 'g"
  ids :: "nat list"
  sim_config :: raft_config
  seed :: nat
  latency :: nat
  nodes :: "nat \<Rightarrow> ('v, 'g) rnode"
  down :: "nat set"
  partition_groups :: "nat set list option"
  inflight :: "(nat \<times> (nat, 'v) envelope) list"
  tick_no :: nat

text \<open>\<open>_create_node\<close> and, with the log and the state machine that node \<open>i\<close> had, \<open>restart\<close>.\<close>

definition create_node ::
  "('v, 'g) sim_cluster \<Rightarrow> nat \<Rightarrow> (nat, 'v) raft_log \<Rightarrow> 'v recorder \<Rightarrow> nat \<Rightarrow> ('v, 'g) rnode" where
  "create_node c i l m n =
     RaftNode (sim_env c) i (filter (\<lambda>j. j \<noteq> i) (ids c)) m l (Random c (1000 + i + 7 * seed c)) (sim_config c) n"

definition SimCluster ::
  "('v, 'v recorder, 'g) raft_env \<Rightarrow> (nat \<Rightarrow> 'g) \<Rightarrow> nat \<Rightarrow> nat \<Rightarrow> raft_config \<Rightarrow> nat \<Rightarrow> ('v, 'g) sim_cluster" where
  "SimCluster E R num sd cfg lat =
     (let c = \<lparr>sim_env = E, Random = R, ids = [0..<num], sim_config = cfg, seed = sd, latency = lat,
        nodes = \<lambda>i. RaftNode E i [] Recorder (RaftLog False None) (R 0) cfg 0,
        down = {}, partition_groups = None, inflight = [], tick_no = 0\<rparr>
      in c\<lparr>nodes := (\<lambda>i. create_node c i (RaftLog False None) Recorder 0)\<rparr>)"

definition deliverable :: "('v, 'g) sim_cluster \<Rightarrow> (nat, 'v) envelope \<Rightarrow> bool" where
  "deliverable c env \<longleftrightarrow>
     \<not> (src env \<in> down c \<or> dst env \<in> down c)
     \<and> (case partition_groups c of
          None \<Rightarrow> True
        | Some gs \<Rightarrow> dst env \<in> (case find (\<lambda>g. src env \<in> g) gs of None \<Rightarrow> {} | Some g \<Rightarrow> g))"

definition enqueue :: "(nat, 'v) envelope list \<Rightarrow> ('v, 'g) sim_cluster \<Rightarrow> ('v, 'g) sim_cluster" where
  "enqueue envs c = c\<lparr>inflight := inflight c @ map (\<lambda>env. (tick_no c + latency c, env)) envs\<rparr>"

definition on_node :: "nat \<Rightarrow> (('v, 'g) rnode, 'a) act \<Rightarrow> (('v, 'g) sim_cluster, 'a) act" where
  "on_node i m c = (case m (nodes c i) of (x, n) \<Rightarrow> (x, c\<lparr>nodes := (nodes c)(i := n)\<rparr>))"

fun deliver_all :: "(nat, 'v) envelope list \<Rightarrow> (('v, 'g) sim_cluster, (nat, 'v) envelope list) act" where
  "deliver_all [] = ret []"
| "deliver_all (env # envs) =
     bindS (gets (\<lambda>c. deliverable c env)) (\<lambda>ok.
     bindS (if ok then (\<lambda>c. on_node (dst env) (node_step (sim_env c) env) c) else ret []) (\<lambda>out.
     bindS (deliver_all envs) (\<lambda>outs. ret (out @ outs))))"

fun tick_all :: "nat list \<Rightarrow> (('v, 'g) sim_cluster, (nat, 'v) envelope list) act" where
  "tick_all [] = ret []"
| "tick_all (i # is) =
     bindS (gets (\<lambda>c. i \<notin> down c)) (\<lambda>up.
     bindS (if up then (\<lambda>c. on_node i (node_tick (sim_env c)) c) else ret []) (\<lambda>out.
     bindS (tick_all is) (\<lambda>outs. ret (out @ outs))))"

text \<open>One round of \<open>step\<close>.\<close>

definition sim_step :: "(('v, 'g) sim_cluster, unit) act" where
  "sim_step =
     bindS (modify (\<lambda>c. c\<lparr>tick_no := tick_no c + 1\<rparr>)) (\<lambda>_.
     bindS (gets (\<lambda>c. map snd (filter (\<lambda>(due, env). due \<le> tick_no c) (inflight c)))) (\<lambda>ready.
     bindS (modify (\<lambda>c. c\<lparr>inflight := filter (\<lambda>(due, env). due > tick_no c) (inflight c)\<rparr>)) (\<lambda>_.
     bindS (deliver_all ready) (\<lambda>produced.
     bindS (gets ids) (\<lambda>is.
     bindS (tick_all is) (\<lambda>ticked.
       modify (enqueue (produced @ ticked))))))))"

fun sim_steps :: "nat \<Rightarrow> (('v, 'g) sim_cluster, unit) act" where
  "sim_steps 0 = ret ()"
| "sim_steps (Suc k) = bindS sim_step (\<lambda>_. sim_steps k)"

fun run_until :: "(('v, 'g) sim_cluster \<Rightarrow> bool) \<Rightarrow> nat \<Rightarrow> (('v, 'g) sim_cluster, bool) act" where
  "run_until predicate 0 = gets predicate"
| "run_until predicate (Suc max_steps) =
     bindS (gets predicate) (\<lambda>b. if b then ret True else bindS sim_step (\<lambda>_. run_until predicate max_steps))"

definition crash :: "nat \<Rightarrow> ('v, 'g) sim_cluster \<Rightarrow> ('v, 'g) sim_cluster" where
  "crash i c = c\<lparr>down := insert i (down c)\<rparr>"

definition restart :: "nat \<Rightarrow> ('v, 'g) sim_cluster \<Rightarrow> ('v, 'g) sim_cluster" where
  "restart i c =
     (let n = nodes c i in
      c\<lparr>down := down c - {i},
        nodes := (nodes c)(i := create_node c i (nlog n) (machine n) (applied_index (machine n)))\<rparr>)"

definition make_partition :: "nat set list \<Rightarrow> ('v, 'g) sim_cluster \<Rightarrow> ('v, 'g) sim_cluster" where
  "make_partition gs c = c\<lparr>partition_groups := Some gs\<rparr>"

definition heal :: "('v, 'g) sim_cluster \<Rightarrow> ('v, 'g) sim_cluster" where
  "heal c = c\<lparr>partition_groups := None\<rparr>"

definition leaders :: "('v, 'g) sim_cluster \<Rightarrow> nat list" where
  "leaders c = filter (\<lambda>i. is_leader (nodes c i) \<and> i \<notin> down c) (ids c)"

text \<open>\<open>leader\<close>: the first after a stable sort by descending term.\<close>

definition leader :: "('v, 'g) sim_cluster \<Rightarrow> nat option" where
  "leader c =
     (case sort_key (\<lambda>i. - int (current_term (nodes c i))) (leaders c) of [] \<Rightarrow> None | i # _ \<Rightarrow> Some i)"

definition client_write :: "'v command \<Rightarrow> (('v, 'g) sim_cluster, nat) act" where
  "client_write cmd =
     bindS (gets leader) (\<lambda>l.
       case l of
         None \<Rightarrow> raise NoLeaderError
       | Some i \<Rightarrow>
           bindS (\<lambda>c. on_node i (propose (sim_env c) cmd) c) (\<lambda>(index, produced).
           bindS (modify (enqueue produced)) (\<lambda>_. ret index)))"

definition committed_commands :: "('v, 'g) sim_cluster \<Rightarrow> nat \<Rightarrow> 'v command list result" where
  "committed_commands c i =
     (let n = nodes c i in
      bindR (mapR (log_get (nlog n)) [1..<commit_index n + 1]) (\<lambda>es. Inr (map ecommand es)))"

section \<open>The network\<close>

text \<open>
  The state of the network: the nodes and every message sent so far. The nodes of the
  cluster are \<open>I\<close>. A restarted node has the log it had in memory, as in \<open>SimCluster\<close>, or the
  one loaded from its file, as in \<open>raft/server.py\<close>. A \<open>RaftServer\<close> that was given no path for its log
  comes back with an empty log and term 0; such restarts are not steps of this network. The state machine
  is the recorder, whose \<open>apply\<close> cannot raise; \<open>RaftMachine\<close> relates a node with another one to it.
\<close>

record ('v, 'g) net =
  nnodes :: "nat \<Rightarrow> ('v, 'g) rnode"
  sent :: "(nat, 'v) envelope set"

definition fresh_node :: "(nat \<Rightarrow> nat \<Rightarrow> 'g \<Rightarrow> nat \<times> 'g) \<Rightarrow> nat set \<Rightarrow> nat \<Rightarrow> ('v, 'g) rnode \<Rightarrow> bool" where
  "fresh_node ri I i n \<longleftrightarrow> (\<exists>ps g cfg b. set ps = I - {i} \<and> distinct ps
     \<and> n = RaftNode (recorder_env ri) i ps Recorder (RaftLog b None) g cfg 0)"

definition restarted_node :: "(nat \<Rightarrow> nat \<Rightarrow> 'g \<Rightarrow> nat \<times> 'g) \<Rightarrow> ('v, 'g) rnode \<Rightarrow> ('v, 'g) rnode \<Rightarrow> bool" where
  "restarted_node ri n n' \<longleftrightarrow> (\<exists>l ps g cfg. (l = nlog n \<or> path (nlog n) \<and> l = RaftLog True (saved (nlog n)))
     \<and> set ps = set (peers n) \<and> distinct ps
     \<and> n' = RaftNode (recorder_env ri) (node_id n) ps (machine n) l g cfg (applied_index (machine n)))"

inductive net_step ::
  "(nat \<Rightarrow> nat \<Rightarrow> 'g \<Rightarrow> nat \<times> 'g) \<Rightarrow> nat set \<Rightarrow> ('v, 'g) net \<Rightarrow> ('v, 'g) net \<Rightarrow> bool"
  for ri :: "nat \<Rightarrow> nat \<Rightarrow> 'g \<Rightarrow> nat \<times> 'g" and I :: "nat set" where
  net_tick: "i \<in> I \<Longrightarrow> node_tick (recorder_env ri) (nnodes c i) = (Inr out, n)
    \<Longrightarrow> net_step ri I c (c\<lparr>nnodes := (nnodes c)(i := n), sent := sent c \<union> set out\<rparr>)"
| net_deliver: "env \<in> sent c \<Longrightarrow> node_step (recorder_env ri) env (nnodes c (dst env)) = (Inr out, n)
    \<Longrightarrow> net_step ri I c (c\<lparr>nnodes := (nnodes c)(dst env := n), sent := sent c \<union> set out\<rparr>)"
| net_propose: "i \<in> I \<Longrightarrow> propose (recorder_env ri) cmd (nnodes c i) = (Inr (index, out), n)
    \<Longrightarrow> net_step ri I c (c\<lparr>nnodes := (nnodes c)(i := n), sent := sent c \<union> set out\<rparr>)"
| net_restart: "i \<in> I \<Longrightarrow> restarted_node ri (nnodes c i) n
    \<Longrightarrow> net_step ri I c (c\<lparr>nnodes := (nnodes c)(i := n)\<rparr>)"

inductive net_reach :: "(nat \<Rightarrow> nat \<Rightarrow> 'g \<Rightarrow> nat \<times> 'g) \<Rightarrow> nat set \<Rightarrow> ('v, 'g) net \<Rightarrow> bool"
  for ri :: "nat \<Rightarrow> nat \<Rightarrow> 'g \<Rightarrow> nat \<times> 'g" and I :: "nat set" where
  net_init: "(\<And>i. i \<in> I \<Longrightarrow> fresh_node ri I i (nnodes c i)) \<Longrightarrow> sent c = {} \<Longrightarrow> net_reach ri I c"
| net_next: "net_reach ri I c \<Longrightarrow> net_step ri I c c' \<Longrightarrow> net_reach ri I c'"

end
