(* ===== verification/RaftRefine.thy ===== *)
theory RaftRefine
  imports RaftSafety RaftCluster
begin

text \<open>
  The nodes refine the protocol. \<open>node_ok\<close> relates a node to its place in an abstract state
  and \<open>body_ok\<close> says what a message stands for in the history. \<open>runs\<close> is a triple: from a state
  related by its precondition an operation of node \<open>i\<close> returns without raising, and steps of
  the protocol at \<open>i\<close> lead to a state related by its postcondition. The rules of the triple
  follow the combinators, so that the proof of a handler has its structure.
\<close>

section \<open>Majorities\<close>

definition majority :: "nat set \<Rightarrow> nat set \<Rightarrow> bool" where
  "majority I V \<longleftrightarrow> finite I \<and> V \<subseteq> I \<and> card V \<ge> card I div 2 + 1"

interpretation maj: quorums "majority I" for I
proof
  fix V W
  assume a: "majority I V" "majority I W"
  then have f: "finite V" "finite W" "finite I" using finite_subset by (auto simp: majority_def)
  show "V \<inter> W \<noteq> {}"
  proof
    assume "V \<inter> W = {}"
    then have "card V + card W = card (V \<union> W)" using f by (simp add: card_Un_disjoint)
    also have "\<dots> \<le> card I" using a f(3) by (intro card_mono) (auto simp: majority_def)
    finally show False using a unfolding majority_def by linarith
  qed
qed

section \<open>What messages stand for\<close>

definition committed_to :: "nat set \<Rightarrow> (nat, 'v) rstate \<Rightarrow> nat \<Rightarrow> nat \<Rightarrow> 'v rlog \<Rightarrow> bool" where
  "committed_to I s t n L \<longleftrightarrow>
     n = 0 \<or> (\<exists>u k. chosen (majority I) s u k \<and> u \<le> t \<and> n \<le> k \<and> n \<le> length L \<and> take n L = take n (llog s u))"

fun body_ok :: "nat set \<Rightarrow> (nat, 'v) rstate \<Rightarrow> nat \<Rightarrow> nat \<Rightarrow> (nat, 'v) body \<Rightarrow> bool" where
  "body_ok I s a b (RequestVote t c li lt) \<longleftrightarrow> c = a \<and> (\<exists>L. cands s t c = Some L \<and> li = length L \<and> lt = lastt L)"
| "body_ok I s a b (RequestVoteReply t g) \<longleftrightarrow> (g \<longrightarrow> (\<exists>L. (t, a, b, L) \<in> grants s))"
| "body_ok I s a b (AppendEntries t l p pt es lc) \<longleftrightarrow>
     lead s t = Some a \<and> p + length es \<le> length (llog s t) \<and> es = take (length es) (drop p (llog s t))
     \<and> tm (llog s t) (p + length es) = t \<and> pt = int (tm (llog s t) p) \<and> committed_to I s t lc (llog s t)"
| "body_ok I s a b (AppendEntriesReply t ok m) \<longleftrightarrow> (ok \<longrightarrow> (t, a, m) \<in> acks s)"

definition msg_ok :: "nat set \<Rightarrow> (nat, 'v) rstate \<Rightarrow> (nat, 'v) envelope \<Rightarrow> bool" where
  "msg_ok I s env \<longleftrightarrow> src env \<in> I \<and> dst env \<in> I \<and> src env \<noteq> dst env \<and> body_ok I s (src env) (dst env) (ebody env)"

lemma committed_to_grows:
  assumes "committed_to I s t n L" "grows s s'" "t \<le> t'" "take n L' = take n L"
  shows "committed_to I s' t' n L'"
proof (cases "n = 0")
  case False
  then obtain u k where c: "chosen (majority I) s u k" "u \<le> t" "n \<le> k" "n \<le> length L" "take n L = take n (llog s u)"
    using assms(1) by (auto simp: committed_to_def)
  have l: "lead s u \<noteq> None" "n \<le> length (llog s u)" using c(1,3) by (auto simp: chosen_def)
  have "take n L' = take n (llog s' u)" using assms(4) c(5) grows_llog(1) [OF assms(2) l] by simp
  moreover have "n \<le> length L'" using take_eq_length [OF assms(4) c(4)] .
  ultimately show ?thesis
    using chosen_grows [OF c(1) assms(2)] c(2,3) assms(3) le_trans unfolding committed_to_def by blast
qed (simp add: committed_to_def)

lemma committed_to_len: "committed_to I s t n L \<Longrightarrow> n \<le> length L"
  by (auto simp: committed_to_def)

lemma body_ok_grows:
  assumes "body_ok I s a b m" "grows s s'"
  shows "body_ok I s' a b m"
proof (cases m)
  case (RequestVote t c li lt)
  then show ?thesis using assms growsD(2) [OF assms(2)] by fastforce
next
  case (RequestVoteReply t g)
  then show ?thesis using assms growsD(3) [OF assms(2)] by auto
next
  case (AppendEntries t l p pt es lc)
  have h: "lead s t = Some a" "p + length es \<le> length (llog s t)" "es = take (length es) (drop p (llog s t))"
    "tm (llog s t) (p + length es) = t" "pt = int (tm (llog s t) p)" "committed_to I s t lc (llog s t)"
    using assms(1) AppendEntries by simp_all
  obtain D where D: "llog s' t = llog s t @ D" "lead s' t = Some a" using h(1) assms(2) unfolding grows_def by blast
  have "committed_to I s' t lc (llog s' t)"
    by (rule committed_to_grows [OF h(6) assms(2) order_refl]) (use committed_to_len [OF h(6)] D in simp)
  then show ?thesis using h(1-5) D AppendEntries by (simp add: tm_append)
next
  case (AppendEntriesReply t ok n)
  then show ?thesis using assms growsD(4) [OF assms(2)] by auto
qed

lemma msg_ok_grows: "msg_ok I s env \<Longrightarrow> grows s s' \<Longrightarrow> msg_ok I s' env"
  using body_ok_grows unfolding msg_ok_def by blast

section \<open>Nodes\<close>

definition leads_ok :: "nat set \<Rightarrow> (nat, 'v) rstate \<Rightarrow> nat \<Rightarrow> ('v, 'g) rnode \<Rightarrow> bool" where
  "leads_ok I s i n \<longleftrightarrow> (aterm s i, i, length (alog s i)) \<in> acks s
     \<and> (\<forall>p\<in>I - {i}. \<exists>x m. next_index n p = Some x \<and> 1 \<le> x \<and> x \<le> length (alog s i) + 1
          \<and> match_index n p = Some m \<and> (m = 0 \<or> (aterm s i, p, m) \<in> acks s))"

text \<open>
  The recorder has applied the commands of the first entries of the log, in order, each once, and
  these entries are committed.
\<close>

definition recorder_ok :: "nat set \<Rightarrow> (nat, 'v) rstate \<Rightarrow> nat \<Rightarrow> ('v, 'g) rnode \<Rightarrow> bool" where
  "recorder_ok I s i n \<longleftrightarrow> (\<exists>P. committed_to I s (aterm s i) (length P) P
     \<and> take (length P) (alog s i) = P
     \<and> applied (machine n) = zip [1..<Suc (length P)] (map ecommand P)
     \<and> applied_index (machine n) = length P \<and> last_applied n = length P)"

definition node_ok :: "nat set \<Rightarrow> (nat, 'v) rstate \<Rightarrow> nat \<Rightarrow> ('v, 'g) rnode \<Rightarrow> bool" where
  "node_ok I s i n \<longleftrightarrow>
     i \<in> I \<and> node_id n = i \<and> set (peers n) = I - {i} \<and> distinct (peers n) \<and> cluster_size n = card I
     \<and> current_term n = aterm s i \<and> voted_for n = avote s i \<and> role n = arole s i
     \<and> entries (nlog n) = alog s i \<and> commit_index n = acommit s i
     \<and> (role n = CANDIDATE \<longrightarrow> votes n \<subseteq> I \<and> (\<forall>v\<in>votes n. \<exists>L. (aterm s i, v, i, L) \<in> grants s))
     \<and> (role n = LEADER \<longrightarrow> leads_ok I s i n)
     \<and> recorder_ok I s i n
     \<and> (\<forall>env\<in>set (outbox n). msg_ok I s env \<and> src env = i)"

text \<open>The saved term and vote are those of the node, and a log with a file is what loading the file gives.\<close>

definition persisted :: "('i, 'v, 'm, 'g) raft_node \<Rightarrow> bool" where
  "persisted n \<longleftrightarrow> log_term (nlog n) = current_term n \<and> log_voted_for (nlog n) = voted_for n
     \<and> (path (nlog n) \<longrightarrow> RaftLog True (saved (nlog n)) = nlog n)"

lemma node_okD:
  assumes "node_ok I s i n"
  shows "i \<in> I" "node_id n = i" "set (peers n) = I - {i}" "distinct (peers n)" "cluster_size n = card I"
    "current_term n = aterm s i" "voted_for n = avote s i" "role n = arole s i" "entries (nlog n) = alog s i"
    "commit_index n = acommit s i" "role n = LEADER \<Longrightarrow> leads_ok I s i n" "recorder_ok I s i n"
    "role n = CANDIDATE \<Longrightarrow> votes n \<subseteq> I" "role n = CANDIDATE \<Longrightarrow> v \<in> votes n \<Longrightarrow> \<exists>L. (aterm s i, v, i, L) \<in> grants s"
    "env \<in> set (outbox n) \<Longrightarrow> msg_ok I s env \<and> src env = i"
  using assms unfolding node_ok_def by blast+

lemma finite_cluster: "node_ok I s i n \<Longrightarrow> finite I"
  by (metis List.finite_set finite_Diff2 finite.emptyI finite_insert node_ok_def)

section \<open>Moves of a node\<close>

text \<open>
  Steps of the protocol that change nothing of another node but the history, and nothing of the
  committed part of a log.
\<close>

definition moves :: "nat set \<Rightarrow> nat \<Rightarrow> (nat, 'v) rstate \<Rightarrow> (nat, 'v) rstate \<Rightarrow> bool" where
  "moves I i s s' \<longleftrightarrow> (rstep (majority I))\<^sup>*\<^sup>* s s' \<and> grows s s'
     \<and> (\<forall>j. j \<noteq> i \<longrightarrow> aterm s' j = aterm s j \<and> avote s' j = avote s j \<and> arole s' j = arole s j
           \<and> alog s' j = alog s j \<and> acommit s' j = acommit s j)
     \<and> (\<forall>j n. committed_to I s (aterm s j) n (alog s j) \<longrightarrow> take n (alog s' j) = take n (alog s j))"

lemma grows_refl [simp]: "grows s s"
  by (simp add: grows_def)

lemma grows_trans: "grows s s' \<Longrightarrow> grows s' s'' \<Longrightarrow> grows s s''"
  unfolding grows_def by (intro conjI allI impI) (blast intro: le_trans, blast, blast, blast, fastforce+)

lemma moves_refl [simp]: "moves I i s s"
  by (simp add: moves_def)

lemma moves_trans:
  assumes "moves I i s s'" "moves I i s' s''"
  shows "moves I i s s''"
proof -
  have "take n (alog s'' j) = take n (alog s j)" if c: "committed_to I s (aterm s j) n (alog s j)" for j n
  proof -
    have 1: "grows s s'" "take n (alog s' j) = take n (alog s j)" using assms(1) c by (auto simp: moves_def)
    have "committed_to I s' (aterm s' j) n (alog s' j)"
      by (rule committed_to_grows [OF c 1(1) growsD(1) [OF 1(1)] 1(2)])
    then show ?thesis using assms(2) 1(2) by (simp add: moves_def)
  qed
  then show ?thesis
    using assms grows_trans unfolding moves_def by (auto intro: rtranclp_trans)
qed

lemma moves_grows: "moves I i s s' \<Longrightarrow> grows s s'"
  by (simp add: moves_def)

lemma move_step:
  assumes "raft_inv (majority I) s" "rstep (majority I) s s'"
    and "\<And>j. j \<noteq> i \<Longrightarrow> aterm s' j = aterm s j \<and> avote s' j = avote s j \<and> arole s' j = arole s j
      \<and> alog s' j = alog s j \<and> acommit s' j = acommit s j"
  shows "moves I i s s' \<and> raft_inv (majority I) s'"
proof -
  have "take n (alog s' j) = take n (alog s j)" if "committed_to I s (aterm s j) n (alog s j)" for j n
    using that maj.step_keeps_chosen [OF assms(2,1)] unfolding committed_to_def by force
  then show ?thesis
    using assms maj.step_grows [OF assms(2,1)] maj.step_inv [OF assms(2,1)] by (auto simp: moves_def)
qed

lemma leads_ok_grows:
  assumes "leads_ok I s i n" "grows s s'" "aterm s' i = aterm s i" "alog s' i = alog s i"
  shows "leads_ok I s' i n"
  unfolding leads_ok_def assms(3,4)
proof (intro conjI ballI)
  show "(aterm s i, i, length (alog s i)) \<in> acks s'" using assms(1) growsD(4) [OF assms(2)] by (auto simp: leads_ok_def)
next
  fix p
  assume "p \<in> I - {i}"
  then obtain x m where "next_index n p = Some x" "1 \<le> x" "x \<le> length (alog s i) + 1" "match_index n p = Some m"
    "m = 0 \<or> (aterm s i, p, m) \<in> acks s"
    using assms(1) unfolding leads_ok_def by blast
  then show "\<exists>x m. next_index n p = Some x \<and> 1 \<le> x \<and> x \<le> length (alog s i) + 1 \<and> match_index n p = Some m
      \<and> (m = 0 \<or> (aterm s i, p, m) \<in> acks s')"
    using growsD(4) [OF assms(2)] by auto
qed

lemma recorder_ok_moves:
  assumes "recorder_ok I s j n" "moves I i s s'"
  shows "recorder_ok I s' j n"
proof -
  have g: "grows s s'" by (rule moves_grows [OF assms(2)])
  obtain P where P: "committed_to I s (aterm s j) (length P) P" "take (length P) (alog s j) = P"
    "applied (machine n) = zip [1..<Suc (length P)] (map ecommand P)" "applied_index (machine n) = length P"
    "last_applied n = length P"
    using assms(1) unfolding recorder_ok_def by blast
  have "committed_to I s (aterm s j) (length P) (alog s j)"
    by (rule committed_to_grows [OF P(1) grows_refl order_refl]) (use P(2) in simp)
  then have "take (length P) (alog s' j) = P" using assms(2) P(2) by (simp add: moves_def)
  moreover have "committed_to I s' (aterm s' j) (length P) P"
    by (rule committed_to_grows [OF P(1) g growsD(1) [OF g] refl])
  ultimately show ?thesis using P(3-5) unfolding recorder_ok_def by blast
qed

lemma node_ok_other:
  assumes "node_ok I s j n" "moves I i s s'" "j \<noteq> i"
  shows "node_ok I s' j n"
proof -
  have same: "aterm s' j = aterm s j" "avote s' j = avote s j" "arole s' j = arole s j" "alog s' j = alog s j"
    "acommit s' j = acommit s j" and g: "grows s s'"
    using assms(2,3) by (auto simp: moves_def)
  have "leads_ok I s' j n" if "role n = LEADER"
    by (rule leads_ok_grows [OF _ g same(1,4)]) (use assms(1) that in \<open>simp add: node_ok_def\<close>)
  moreover have "recorder_ok I s' j n" by (rule recorder_ok_moves [OF _ assms(2)]) (use assms(1) in \<open>simp add: node_ok_def\<close>)
  moreover have "\<exists>L. (aterm s j, v, j, L) \<in> grants s'" if "\<exists>L. (aterm s j, v, j, L) \<in> grants s" for v
    using that growsD(3) [OF g] by blast
  ultimately show ?thesis
    using assms(1) msg_ok_grows [OF _ g] same by (auto simp: node_ok_def)
qed

section \<open>Triples\<close>

definition runs ::
  "nat set \<Rightarrow> nat \<Rightarrow> ((nat, 'v) rstate \<Rightarrow> ('v, 'g) rnode \<Rightarrow> bool) \<Rightarrow> (('v, 'g) rnode, 'a) act
     \<Rightarrow> ('a \<Rightarrow> (nat, 'v) rstate \<Rightarrow> ('v, 'g) rnode \<Rightarrow> bool) \<Rightarrow> bool" where
  "runs I i P m Q \<longleftrightarrow> (\<forall>s n. raft_inv (majority I) s \<longrightarrow> P s n \<longrightarrow>
     (\<exists>x s' n'. m n = (Inr x, n') \<and> moves I i s s' \<and> raft_inv (majority I) s' \<and> Q x s' n'))"

lemma runsI:
  assumes "\<And>s n. raft_inv (majority I) s \<Longrightarrow> P s n \<Longrightarrow>
    \<exists>x s' n'. m n = (Inr x, n') \<and> moves I i s s' \<and> raft_inv (majority I) s' \<and> Q x s' n'"
  shows "runs I i P m Q"
  using assms by (simp add: runs_def)

lemma runsI_same:
  assumes "\<And>s n. raft_inv (majority I) s \<Longrightarrow> P s n \<Longrightarrow> \<exists>x n'. m n = (Inr x, n') \<and> Q x s n'"
  shows "runs I i P m Q"
  by (rule runsI) (use assms moves_refl in blast)

lemma runsE:
  assumes "runs I i P m Q" "raft_inv (majority I) s" "P s n"
  obtains x s' n' where "m n = (Inr x, n')" "moves I i s s'" "raft_inv (majority I) s'" "Q x s' n'"
  using assms unfolding runs_def by blast

lemma runs_pre: "(\<And>s n. raft_inv (majority I) s \<Longrightarrow> P s n \<Longrightarrow> P' s n) \<Longrightarrow> runs I i P' m Q \<Longrightarrow> runs I i P m Q"
  unfolding runs_def by blast

lemma runs_post: "runs I i P m Q' \<Longrightarrow> (\<And>x s n. raft_inv (majority I) s \<Longrightarrow> Q' x s n \<Longrightarrow> Q x s n) \<Longrightarrow> runs I i P m Q"
  unfolding runs_def by blast

lemma runs_bind:
  assumes "runs I i P m R" "\<And>x. runs I i (R x) (f x) Q"
  shows "runs I i P (bindS m f) Q"
proof (rule runsI)
  fix s n
  assume s: "raft_inv (majority I) s" "P s n"
  obtain x s1 n1 where 1: "m n = (Inr x, n1)" "moves I i s s1" "raft_inv (majority I) s1" "R x s1 n1"
    by (rule runsE [OF assms(1) s])
  obtain y s2 n2 where 2: "f x n1 = (Inr y, n2)" "moves I i s1 s2" "raft_inv (majority I) s2" "Q y s2 n2"
    by (rule runsE [OF assms(2) 1(3,4)])
  show "\<exists>x s' n'. bindS m f n = (Inr x, n') \<and> moves I i s s' \<and> raft_inv (majority I) s' \<and> Q x s' n'"
    using 1(1) 2(1,3,4) moves_trans [OF 1(2) 2(2)] by (intro exI [of _ y] exI [of _ s2] exI [of _ n2]) simp
qed

lemma runs_ret: "runs I i (Q x) (ret x) Q"
  by (rule runsI_same) (simp add: ret_def)

lemma runs_ret': "(\<And>s n. raft_inv (majority I) s \<Longrightarrow> P s n \<Longrightarrow> Q () s n) \<Longrightarrow> runs I i P (ret ()) Q"
  by (rule runs_pre [OF _ runs_ret])

lemma runs_gets: "runs I i P (gets f) (\<lambda>x s n. P s n \<and> x = f n)"
  by (rule runsI_same) (simp add: gets_def)

lemma runs_lift: "(\<And>s n. raft_inv (majority I) s \<Longrightarrow> P s n \<Longrightarrow> \<exists>x. f n = Inr x \<and> Q x s n) \<Longrightarrow> runs I i P (lift f) Q"
  by (rule runsI_same) (simp add: lift_def)

text \<open>A change of the node that corresponds to no step, or to one step, of the protocol.\<close>

lemma runs_modify: "(\<And>s n. raft_inv (majority I) s \<Longrightarrow> P s n \<Longrightarrow> Q () s (f n)) \<Longrightarrow> runs I i P (modify f) Q"
  by (rule runsI_same) (simp add: modify_def)

lemma runs_modify_step:
  assumes "\<And>s n. raft_inv (majority I) s \<Longrightarrow> P s n \<Longrightarrow> \<exists>s'. moves I i s s' \<and> raft_inv (majority I) s' \<and> Q () s' (f n)"
  shows "runs I i P (modify f) Q"
  by (rule runsI) (use assms in \<open>fastforce simp: modify_def\<close>)

lemma runs_if: "(b \<Longrightarrow> runs I i P m Q) \<Longrightarrow> (\<not> b \<Longrightarrow> runs I i P m' Q) \<Longrightarrow> runs I i P (if b then m else m') Q"
  by simp

lemma runs_whenS:
  "(b \<Longrightarrow> runs I i P m Q) \<Longrightarrow> (\<And>s n. \<not> b \<Longrightarrow> raft_inv (majority I) s \<Longrightarrow> P s n \<Longrightarrow> Q () s n) \<Longrightarrow> runs I i P (whenS b m) Q"
  unfolding whenS_def by (auto intro: runs_ret')

text \<open>What the history says stays true.\<close>

lemma runs_frame:
  assumes "runs I i P m Q" "\<And>s s'. grows s s' \<Longrightarrow> F s \<Longrightarrow> F s'"
  shows "runs I i (\<lambda>s n. P s n \<and> F s) m (\<lambda>x s n. Q x s n \<and> F s)"
proof (rule runsI)
  fix s n
  assume a: "raft_inv (majority I) s" "P s n \<and> F s"
  obtain x s' n' where r: "m n = (Inr x, n')" "moves I i s s'" "raft_inv (majority I) s'" "Q x s' n'"
    by (rule runsE [OF assms(1) a(1)]) (use a in auto)
  have "F s'" using assms(2) [OF moves_grows [OF r(2)]] a(2) by blast
  then show "\<exists>x s' n'. m n = (Inr x, n') \<and> moves I i s s' \<and> raft_inv (majority I) s' \<and> Q x s' n' \<and> F s'"
    using r by blast
qed

lemma runs_for_each:
  assumes "\<And>x. x \<in> set xs \<Longrightarrow> runs I i P (f x) (\<lambda>_. P)"
  shows "runs I i P (for_each f xs) (\<lambda>_. P)"
  using assms
proof (induction xs)
  case Nil
  then show ?case by (simp add: runs_ret')
next
  case (Cons x xs)
  then show ?case by (auto intro: runs_bind)
qed

section \<open>Steps of a node without a step of the protocol\<close>

lemma node_ok_send:
  assumes "node_ok I s i n" "d \<in> I" "d \<noteq> i" "body_ok I s i d b"
  shows "node_ok I s i (n\<lparr>outbox := outbox n @ [Envelope (node_id n) d b]\<rparr>)"
  using assms by (auto simp: node_ok_def msg_ok_def leads_ok_def recorder_ok_def)

lemma runs_send:
  assumes "\<And>s n. raft_inv (majority I) s \<Longrightarrow> P s n \<Longrightarrow> node_ok I s i n \<and> body_ok I s i d b \<and> R s n"
    and "d \<in> I" "d \<noteq> i" and "\<And>s n x. R s n \<Longrightarrow> R s (n\<lparr>outbox := x\<rparr>)"
  shows "runs I i P (send d b) (\<lambda>_ s n. node_ok I s i n \<and> R s n)"
  unfolding send_def by (rule runs_modify) (use assms node_ok_send in blast)

lemma reset_timer_eq:
  "\<exists>x g. reset_election_timer E n = (Inr (), n\<lparr>election_elapsed := 0, election_timeout := x, rng := g\<rparr>)"
  by (simp add: reset_election_timer_def modify_def split: prod.splits) blast

lemma runs_reset:
  assumes "\<And>s n x g. raft_inv (majority I) s \<Longrightarrow> P s n \<Longrightarrow> Q s (n\<lparr>election_elapsed := 0, election_timeout := x, rng := g\<rparr>)"
  shows "runs I i P (reset_election_timer E) (\<lambda>_. Q)"
proof (rule runsI_same)
  fix s n
  assume "raft_inv (majority I) s" "P s n"
  then show "\<exists>x n'. reset_election_timer E n = (Inr x, n') \<and> Q s n'"
    using reset_timer_eq [of E n] assms by metis
qed

lemma node_ok_timers [simp]:
  "node_ok I s i (n\<lparr>election_elapsed := a, election_timeout := x, rng := g\<rparr>) \<longleftrightarrow> node_ok I s i n"
  "node_ok I s i (n\<lparr>election_elapsed := a\<rparr>) \<longleftrightarrow> node_ok I s i n"
  "node_ok I s i (n\<lparr>heartbeat_elapsed := a\<rparr>) \<longleftrightarrow> node_ok I s i n"
  "node_ok I s i (n\<lparr>leader_id := l\<rparr>) \<longleftrightarrow> node_ok I s i n"
  by (simp_all add: node_ok_def leads_ok_def recorder_ok_def)

lemma persisted_timers [simp]:
  "persisted (n\<lparr>election_elapsed := a, election_timeout := x, rng := g\<rparr>) \<longleftrightarrow> persisted n"
  "persisted (n\<lparr>election_elapsed := a\<rparr>) \<longleftrightarrow> persisted n"
  "persisted (n\<lparr>heartbeat_elapsed := a\<rparr>) \<longleftrightarrow> persisted n"
  "persisted (n\<lparr>leader_id := l\<rparr>) \<longleftrightarrow> persisted n"
  "persisted (n\<lparr>outbox := out\<rparr>) \<longleftrightarrow> persisted n"
  by (simp_all add: persisted_def)

lemma persisted_persist: "persisted (n\<lparr>nlog := save (current_term n) (voted_for n) (nlog n)\<rparr>)"
  by (auto simp: persisted_def RaftLog_def log_load_def save_def Let_def)

lemma node_ok_save: "node_ok I s i n \<Longrightarrow> node_ok I s i (n\<lparr>nlog := save t v (nlog n)\<rparr>)"
  by (auto simp: node_ok_def leads_ok_def recorder_ok_def)

lemma runs_persist:
  assumes "\<And>s n. P s n \<Longrightarrow> node_ok I s i n \<and> R s n"
    and "\<And>s n t v. R s n \<Longrightarrow> R s (n\<lparr>nlog := save t v (nlog n)\<rparr>)"
  shows "runs I i P persist (\<lambda>_ s n. node_ok I s i n \<and> persisted n \<and> R s n)"
  unfolding persist_def by (rule runs_modify) (use assms node_ok_save persisted_persist in blast)

end
