(* ===== verification/RaftHandlers.thy ===== *)
theory RaftHandlers
  imports RaftRefine
begin

text \<open>
  The handlers of a node as triples: each returns, keeps the relation to the protocol and
  leaves the node persisted, and what it puts into the outbox is true of the history.
\<close>

abbreviation ok :: "nat set \<Rightarrow> nat \<Rightarrow> (nat, 'v) rstate \<Rightarrow> ('v, 'g) rnode \<Rightarrow> bool" where
  "ok I i s n \<equiv> node_ok I s i n \<and> persisted n"

section \<open>Applying\<close>

lemma committed_agree:
  assumes inv: "raft_inv (majority I) s" and c: "committed_to I s t m L" "committed_to I s u n M" and le: "m \<le> n"
  shows "take m L = take m M"
proof (cases "m = 0")
  case False
  then obtain t1 k1 t2 k2 where 1: "chosen (majority I) s t1 k1" "m \<le> k1" "take m L = take m (llog s t1)"
    and 2: "chosen (majority I) s t2 k2" "n \<le> k2" "take n M = take n (llog s t2)"
    using c le unfolding committed_to_def by auto
  obtain a b where ab: "lead s t1 = Some a" "lead s t2 = Some b" using 1(1) 2(1) by (auto simp: chosen_def)
  have "take m (llog s t1) = take m (llog s t2)"
  proof (cases "t1 \<le> t2")
    case True
    then show ?thesis using maj.leader_log_has [OF inv 1(1) ab(2) _ 1(2)] by simp
  next
    case False
    have "m \<le> k2" using le 2(2) by simp
    then show ?thesis using maj.leader_log_has [OF inv 2(1) ab(1)] False by simp
  qed
  then show ?thesis using 1(3) take_cong_le [OF 2(3) le] by simp
qed simp

lemma node_committed:
  assumes "raft_inv (majority I) s" "node_ok I s i n"
  shows "committed_to I s (aterm s i) (commit_index n) (alog s i)"
  using raft_invD(6) [OF assms(1)] assms(2) unfolding commit_inv_def committed_to_def node_ok_def by metis

lemma apply_times_eq:
  "last_applied n + k \<le> length (entries (nlog n)) \<Longrightarrow>
     \<exists>m'. apply_times (recorder_env ri) k n = (Inr (), n\<lparr>last_applied := last_applied n + k, machine := m'\<rparr>)
       \<and> applied m' = applied (machine n)
            @ zip [last_applied n + 1..<last_applied n + k + 1] (map ecommand (take k (drop (last_applied n) (entries (nlog n)))))
       \<and> applied_index m' = (if k = 0 then applied_index (machine n) else last_applied n + k)"
proof (induction k arbitrary: n)
  case 0
  then show ?case by (intro exI [of _ "machine n"]) (simp add: ret_def)
next
  case (Suc k)
  let ?e = "entries (nlog n) ! last_applied n"
  let ?m = "machine n\<lparr>applied := applied (machine n) @ [(last_applied n + 1, ecommand ?e)], applied_index := last_applied n + 1\<rparr>"
  let ?n = "n\<lparr>last_applied := last_applied n + 1, machine := ?m\<rparr>"
  have d: "drop (last_applied n) (entries (nlog n)) = ?e # drop (Suc (last_applied n)) (entries (nlog n))"
    using Suc.prems by (simp add: Cons_nth_drop_Suc)
  have u: "zip [last_applied n + 1..<last_applied n + Suc k + 1] (map ecommand (take (Suc k) (drop (last_applied n) (entries (nlog n)))))
      = (last_applied n + 1, ecommand ?e)
        # zip [last_applied ?n + 1..<last_applied ?n + k + 1] (map ecommand (take k (drop (last_applied ?n) (entries (nlog ?n)))))"
    unfolding d by (subst upt_conv_Cons) (simp_all del: upt_Suc)
  have one: "apply_times (recorder_env ri) (Suc k) n = apply_times (recorder_env ri) k ?n"
    using Suc.prems
    by (simp add: bindS_def act_defs log_get_def py_nth_def on_machine_def recorder_env_def recorder_apply_def)
  obtain m' where m': "apply_times (recorder_env ri) k ?n = (Inr (), ?n\<lparr>last_applied := last_applied ?n + k, machine := m'\<rparr>)"
    "applied m' = applied (machine ?n)
       @ zip [last_applied ?n + 1..<last_applied ?n + k + 1] (map ecommand (take k (drop (last_applied ?n) (entries (nlog ?n)))))"
    "applied_index m' = (if k = 0 then applied_index (machine ?n) else last_applied ?n + k)"
    using Suc.IH [of ?n] Suc.prems by auto
  have "applied m' = applied (machine n)
       @ zip [last_applied n + 1..<last_applied n + Suc k + 1] (map ecommand (take (Suc k) (drop (last_applied n) (entries (nlog n)))))"
    unfolding u m'(2) by simp
  then show ?case using m'(1,3) unfolding one by (intro exI [of _ m']) (simp del: upt_Suc)
qed

lemma recorder_ok_apply:
  assumes inv: "raft_inv (majority I) s" and n: "node_ok I s i n" and more: "last_applied n < commit_index n"
    and m': "applied m' = applied (machine n) @ zip [last_applied n + 1..<commit_index n + 1]
        (map ecommand (take (commit_index n - last_applied n) (drop (last_applied n) (entries (nlog n)))))"
      "applied_index m' = commit_index n"
  shows "recorder_ok I s i (n\<lparr>last_applied := commit_index n, machine := m'\<rparr>)"
proof -
  note c = node_committed [OF inv n]
  have log: "entries (nlog n) = alog s i" using n by (simp add: node_ok_def)
  obtain P where P: "committed_to I s (aterm s i) (length P) P" "applied (machine n) = zip [1..<Suc (length P)] (map ecommand P)"
    "last_applied n = length P"
    using n unfolding node_ok_def recorder_ok_def by blast
  have "take (length P) P = take (length P) (alog s i)"
    by (rule committed_agree [OF inv P(1) c]) (use more P(3) in simp)
  then have eq: "P = take (length P) (alog s i)" by simp
  let ?R = "take (commit_index n) (alog s i)"
  have len: "length ?R = commit_index n" using committed_to_len [OF c] by simp
  have lenP: "length (take (length P) (alog s i)) = length P" using eq by simp
  have R: "?R = P @ take (commit_index n - length P) (drop (length P) (alog s i))"
    using more P(3) eq by (metis append_take_drop_id le_add_diff_inverse less_imp_le take_add)
  have "zip [1..<Suc (length ?R)] (map ecommand ?R)
      = zip [1..<Suc (length P)] (map ecommand P) @ zip [length P + 1..<commit_index n + 1]
          (map ecommand (take (commit_index n - length P) (drop (length P) (alog s i))))"
  proof -
    have "[1..<Suc (length ?R)] = [1..<Suc (length P)] @ [length P + 1..<commit_index n + 1]"
      using len more P(3) upt_add_eq_append [of 1 "Suc (length P)" "commit_index n - length P"] by simp
    then show ?thesis by (simp add: R zip_append [of "[1..<Suc (length P)]" "map ecommand P"] del: upt_Suc)
  qed
  moreover have "committed_to I s (aterm s i) (length ?R) ?R"
    using committed_to_grows [OF c grows_refl order_refl, of ?R] len by simp
  ultimately show ?thesis
    using m' P(2,3) len log unfolding recorder_ok_def
    by (intro exI [of _ ?R]) (simp del: upt_Suc length_take)
qed

lemma runs_apply:
  assumes R: "\<And>n l m. R n \<Longrightarrow> R (n\<lparr>last_applied := l, machine := m\<rparr>)"
  shows "runs I i (\<lambda>s n. node_ok I s i n \<and> R n) (apply_committed (recorder_env ri)) (\<lambda>_ s n. node_ok I s i n \<and> R n)"
proof (rule runsI_same)
  fix s :: "(nat, 'a) rstate" and n :: "('a, 'b) rnode"
  assume a: "raft_inv (majority I) s" "node_ok I s i n \<and> R n"
  show "\<exists>x n'. apply_committed (recorder_env ri) n = (Inr x, n') \<and> node_ok I s i n' \<and> R n'"
  proof (cases "last_applied n < commit_index n")
    case False
    then show ?thesis using a by (simp add: apply_committed_def ret_def)
  next
    case True
    have "commit_index n \<le> length (entries (nlog n))"
      using committed_to_len [OF node_committed [OF a(1)], of i n] a(2) by (auto simp: node_ok_def)
    then obtain m' where m': "apply_committed (recorder_env ri) n = (Inr (), n\<lparr>last_applied := commit_index n, machine := m'\<rparr>)"
      "applied m' = applied (machine n) @ zip [last_applied n + 1..<commit_index n + 1]
        (map ecommand (take (commit_index n - last_applied n) (drop (last_applied n) (entries (nlog n)))))"
      "applied_index m' = commit_index n"
      using apply_times_eq [of n "commit_index n - last_applied n" ri] True by (auto simp: apply_committed_def)
    have "recorder_ok I s i (n\<lparr>last_applied := commit_index n, machine := m'\<rparr>)"
      by (rule recorder_ok_apply [OF a(1) _ True m'(2,3)]) (use a in simp)
    then have "node_ok I s i (n\<lparr>last_applied := commit_index n, machine := m'\<rparr>)"
      using a(2) by (simp add: node_ok_def leads_ok_def)
    then show ?thesis using m'(1) a(2) R by blast
  qed
qed

section \<open>Leading\<close>

lemma leader_facts:
  assumes "raft_inv (majority I) s" "node_ok I s i n" "role n = LEADER"
  shows "lead s (aterm s i) = Some i" "llog s (aterm s i) = alog s i" "lastt (alog s i) = aterm s i"
    "1 \<le> length (alog s i)"
proof -
  have "arole s i = LEADER" using assms(2,3) by (simp add: node_ok_def)
  then show l: "lead s (aterm s i) = Some i" "llog s (aterm s i) = alog s i"
    using raft_invD(3) [OF assms(1)] unfolding lead_inv_def by blast+
  obtain L D where "llog s (aterm s i) = L @ D" "D \<noteq> []" "\<forall>e\<in>set D. eterm e = aterm s i"
    by (rule lead_invD [OF raft_invD(3) [OF assms(1)] l(1)])
  then show "lastt (alog s i) = aterm s i" "1 \<le> length (alog s i)"
    using l(2) lastt_snoc [of "L @ butlast D" "last D"] by (auto simp: Suc_le_eq)
qed

lemma append_body_ok:
  assumes inv: "raft_inv (majority I) s" and n: "node_ok I s i n" "role n = LEADER" and x: "1 \<le> x" "x \<le> length (alog s i) + 1"
  shows "body_ok I s i d (AppendEntries (current_term n) (node_id n) (x - 1) (term_at (nlog n) (x - 1))
    (entries_from (nlog n) (x - 1 + 1)) (commit_index n))"
proof -
  note l = leader_facts [OF inv n]
  have e: "entries (nlog n) = alog s i" "current_term n = aterm s i" using n by (simp_all add: node_ok_def)
  have "tm (alog s i) (length (alog s i)) = aterm s i" using l(3) by (simp add: lastt_def)
  then show ?thesis
    using l(1,2) e x node_committed [OF inv n(1)] by (simp add: entries_from_def term_at_tm)
qed

lemma runs_send_append:
  assumes p: "p \<in> I" "p \<noteq> i" and R: "\<And>n x. R n \<Longrightarrow> R (n\<lparr>outbox := x\<rparr>)"
  shows "runs I i (\<lambda>s n. node_ok I s i n \<and> role n = LEADER \<and> R n) (send_append_to p)
    (\<lambda>_ s n. node_ok I s i n \<and> role n = LEADER \<and> R n)"
  unfolding send_append_to_def
proof (rule runs_bind)
  show "runs I i (\<lambda>s n. node_ok I s i n \<and> role n = LEADER \<and> R n) (lift (\<lambda>s. py_get (next_index s) p))
    (\<lambda>x s n. node_ok I s i n \<and> role n = LEADER \<and> R n \<and> 1 \<le> x \<and> x \<le> length (alog s i) + 1)"
  proof (rule runs_lift)
    fix s n
    assume a: "node_ok I s i n \<and> role n = LEADER \<and> R n"
    then have "leads_ok I s i n" using node_okD(11) by blast
    then obtain x where "next_index n p = Some x" "1 \<le> x" "x \<le> length (alog s i) + 1" using p unfolding leads_ok_def by blast
    then show "\<exists>x. py_get (next_index n) p = Inr x \<and> node_ok I s i n \<and> role n = LEADER \<and> R n \<and> 1 \<le> x \<and> x \<le> length (alog s i) + 1"
      using a by (simp add: py_get_def)
  qed
next
  fix x
  show "runs I i (\<lambda>s n. node_ok I s i n \<and> role n = LEADER \<and> R n \<and> 1 \<le> x \<and> x \<le> length (alog s i) + 1)
     (bindS (gets (\<lambda>s. AppendEntries (current_term s) (node_id s) (x - 1) (term_at (nlog s) (x - 1))
        (entries_from (nlog s) (x - 1 + 1)) (commit_index s))) (send p))
     (\<lambda>_ s n. node_ok I s i n \<and> role n = LEADER \<and> R n)"
  proof (rule runs_bind [OF runs_gets], rule runs_send [where R = "\<lambda>s n. role n = LEADER \<and> R n"], goal_cases)
    case (1 b s n)
    then show ?case using append_body_ok [OF 1(1), of i n x p] by blast
  qed (use p R in auto)
qed

lemma runs_broadcast:
  assumes R: "\<And>n x. R n \<Longrightarrow> R (n\<lparr>outbox := x\<rparr>)"
  shows "runs I i (\<lambda>s n. node_ok I s i n \<and> role n = LEADER \<and> R n) broadcast_append
    (\<lambda>_ s n. node_ok I s i n \<and> role n = LEADER \<and> R n)"
proof (rule runsI)
  fix s :: "(nat, 'a) rstate" and n :: "('a, 'b) rnode"
  assume a: "raft_inv (majority I) s" "node_ok I s i n \<and> role n = LEADER \<and> R n"
  then have "\<And>p. p \<in> set (peers n) \<Longrightarrow> p \<in> I \<and> p \<noteq> i" by (auto simp: node_ok_def)
  then have r: "runs I i (\<lambda>s n. node_ok I s i n \<and> role n = LEADER \<and> R n) (for_each send_append_to (peers n))
    (\<lambda>_ s n. node_ok I s i n \<and> role n = LEADER \<and> R n)"
    using R by (intro runs_for_each runs_send_append) auto
  show "\<exists>x s' n'. broadcast_append n = (Inr x, n') \<and> moves I i s s' \<and> raft_inv (majority I) s'
      \<and> node_ok I s' i n' \<and> role n' = LEADER \<and> R n'"
    unfolding broadcast_append_def by (rule runsE [OF r a]) blast
qed

lemma leader_chosen:
  assumes inv: "raft_inv (majority I) s" and n: "node_ok I s i n" "role n = LEADER"
    and k: "1 \<le> k" "k \<le> length (alog s i)" "tm (alog s i) k = aterm s i" "has_majority (replicas k n) n"
  shows "chosen (majority I) s (aterm s i) k"
proof -
  note l = leader_facts [OF inv n]
  let ?F = "filter (\<lambda>p. (case match_index n p of None \<Rightarrow> 0 | Some m \<Rightarrow> m) \<ge> k) (peers n)"
  let ?Q = "insert i (set ?F)"
  note ps = node_okD(3,4,1,5) [OF n(1)] node_okD(11) [OF n]
  have "card (set ?F) = length ?F" by (rule distinct_card) (use ps(2) in simp)
  moreover have "i \<notin> set ?F" using ps(1) by simp
  ultimately have "card ?Q = 1 + length ?F" by (metis List.finite_set card_insert_disjoint plus_1_eq_Suc)
  then have "majority I ?Q"
    using k(4) ps finite_cluster [OF n(1)] unfolding majority_def has_majority_def replicas_def by auto
  moreover have "\<exists>m\<ge>k. (aterm s i, q, m) \<in> acks s" if q: "q \<in> ?Q" for q
  proof (cases "q = i")
    case True
    then show ?thesis using ps(5) k(2) unfolding leads_ok_def by blast
  next
    case False
    then have q': "q \<in> I - {i}" "(case match_index n q of None \<Rightarrow> 0 | Some m \<Rightarrow> m) \<ge> k" using q ps(1) by auto
    obtain m where "match_index n q = Some m" "m = 0 \<or> (aterm s i, q, m) \<in> acks s"
      using ps(5) q'(1) unfolding leads_ok_def by blast
    then show ?thesis using q'(2) k(1) by auto
  qed
  ultimately show ?thesis using l(1,2) k(1-3) unfolding chosen_def by auto
qed

lemma runs_advance:
  "(\<And>n x l m. R n \<Longrightarrow> R (n\<lparr>commit_index := x\<rparr>)) \<Longrightarrow> (\<And>n l m. R n \<Longrightarrow> R (n\<lparr>last_applied := l, machine := m\<rparr>)) \<Longrightarrow>
   runs I i (\<lambda>s n. node_ok I s i n \<and> role n = LEADER \<and> R n \<and> (\<forall>k\<in>set ks. 1 \<le> k \<and> k \<le> length (alog s i)))
     (advance_commit (recorder_env ri) ks) (\<lambda>_ s n. node_ok I s i n \<and> R n)"
proof (induction ks)
  case Nil
  then show ?case by (auto intro: runs_ret')
next
  case (Cons k ks)
  note IH = Cons.IH [OF Cons.prems]
  let ?P = "\<lambda>s n. node_ok I s i n \<and> role n = LEADER \<and> R n \<and> (\<forall>k\<in>set (k # ks). 1 \<le> k \<and> k \<le> length (alog s i))"
  have skip: "runs I i (\<lambda>s n. ?P s n \<and> b n) (advance_commit (recorder_env ri) ks) (\<lambda>_ s n. node_ok I s i n \<and> R n)" for b
    by (rule runs_pre [OF _ IH]) auto
  have "runs I i (\<lambda>s n. ?P s n \<and> term_at (nlog n) k = int (current_term n) \<and> has_majority (replicas k n) n)
    (modify (\<lambda>s. s\<lparr>commit_index := k\<rparr>)) (\<lambda>_ s n. node_ok I s i n \<and> R n)"
  proof (rule runs_modify_step)
    fix s n
    assume inv: "raft_inv (majority I) s" and a: "?P s n \<and> term_at (nlog n) k = int (current_term n) \<and> has_majority (replicas k n) n"
    then have n: "node_ok I s i n" "role n = LEADER" and k: "1 \<le> k" "k \<le> length (alog s i)" by auto
    note l = leader_facts [OF inv n]
    have "tm (alog s i) k = aterm s i" using a k node_okD(6,9) [OF n(1)] by (simp add: term_at_tm)
    then have c: "chosen (majority I) s (aterm s i) k" using leader_chosen [OF inv n k] a by blast
    let ?s = "s\<lparr>acommit := (acommit s)(i := k)\<rparr>"
    have step: "rstep (majority I) s ?s" by (rule r_learn [OF c order_refl order_refl k(2)]) (simp add: l(2))
    have mv: "moves I i s ?s \<and> raft_inv (majority I) ?s" by (rule move_step [OF inv step]) simp
    have "node_ok I ?s i (n\<lparr>commit_index := k\<rparr>)"
      using n(1) msg_ok_grows [of I s _ ?s] moves_grows [of I i s ?s] recorder_ok_moves [of I s i n i ?s]
        leads_ok_grows [of I s i n ?s] mv
      by (auto simp: node_ok_def leads_ok_def recorder_ok_def)
    then show "\<exists>s'. moves I i s s' \<and> raft_inv (majority I) s' \<and> node_ok I s' i (n\<lparr>commit_index := k\<rparr>) \<and> R (n\<lparr>commit_index := k\<rparr>)"
      using mv a Cons.prems(1) by blast
  qed
  then have take: "runs I i (\<lambda>s n. ?P s n \<and> term_at (nlog n) k = int (current_term n) \<and> has_majority (replicas k n) n)
    (bindS (modify (\<lambda>s. s\<lparr>commit_index := k\<rparr>)) (\<lambda>_. apply_committed (recorder_env ri))) (\<lambda>_ s n. node_ok I s i n \<and> R n)"
    by (rule runs_bind) (rule runs_apply [where R = R], erule Cons.prems(2))
  show ?case
    unfolding advance_commit.simps
  proof (rule runs_bind [OF runs_gets], rule runs_if, goal_cases)
    case (1 x)
    show ?case by (rule runs_pre [OF _ IH]) auto
  next
    case (2 x)
    show ?case
    proof (rule runs_bind [OF runs_gets], rule runs_if, goal_cases)
      case (1 y)
      show ?case by (rule runs_pre [OF _ take]) (use 1 2 in auto)
    next
      case (2 y)
      show ?case by (rule runs_pre [OF _ IH]) auto
    qed
  qed
qed

lemma runs_maybe_advance:
  assumes R: "\<And>n x. R n \<Longrightarrow> R (n\<lparr>commit_index := x\<rparr>)" "\<And>n l m. R n \<Longrightarrow> R (n\<lparr>last_applied := l, machine := m\<rparr>)"
  shows "runs I i (\<lambda>s n. node_ok I s i n \<and> role n = LEADER \<and> R n) (maybe_advance_commit (recorder_env ri)) (\<lambda>_ s n. node_ok I s i n \<and> R n)"
proof (rule runsI)
  fix s :: "(nat, 'a) rstate" and n :: "('a, 'b) rnode"
  assume a: "raft_inv (majority I) s" "node_ok I s i n \<and> role n = LEADER \<and> R n"
  let ?ks = "rev [commit_index n + 1..<last_index (nlog n) + 1]"
  have "\<forall>k\<in>set ?ks. 1 \<le> k \<and> k \<le> length (alog s i)" using a(2) by (auto simp: node_ok_def last_index_def)
  with a(2) have pre: "node_ok I s i n \<and> role n = LEADER \<and> R n \<and> (\<forall>k\<in>set ?ks. 1 \<le> k \<and> k \<le> length (alog s i))" by blast
  have r: "runs I i (\<lambda>s n. node_ok I s i n \<and> role n = LEADER \<and> R n \<and> (\<forall>k\<in>set ?ks. 1 \<le> k \<and> k \<le> length (alog s i)))
     (advance_commit (recorder_env ri) ?ks) (\<lambda>_ s n. node_ok I s i n \<and> R n)"
    by (rule runs_advance [where R = R]) (erule R)+
  show "\<exists>x s' n'. maybe_advance_commit (recorder_env ri) n = (Inr x, n') \<and> moves I i s s' \<and> raft_inv (majority I) s'
      \<and> node_ok I s' i n' \<and> R n'"
    unfolding maybe_advance_commit_def by (rule runsE [OF r a(1) pre]) blast
qed

end
