(* ===== verification/RaftSteps.thy ===== *)
theory RaftSteps
  imports RaftHandlers
begin

text \<open>
  Elections, the handlers of the four messages, and the three operations that drive a node:
  \<open>tick\<close>, \<open>step\<close> and \<open>propose\<close> do not raise, and simulate steps of the protocol.
\<close>

section \<open>Steps of the protocol at a node\<close>

lemma node_ok_change:
  assumes n: "node_ok I s i n" and m: "moves I i s s'"
    and same: "node_id n' = node_id n" "peers n' = peers n" "cluster_size n' = cluster_size n" "outbox n' = outbox n"
      "last_applied n' = last_applied n" "machine n' = machine n"
    and new: "current_term n' = aterm s' i" "voted_for n' = avote s' i" "role n' = arole s' i"
      "entries (nlog n') = alog s' i" "commit_index n' = acommit s' i"
      "role n' = CANDIDATE \<longrightarrow> votes n' \<subseteq> I \<and> (\<forall>v\<in>votes n'. \<exists>L. (aterm s' i, v, i, L) \<in> grants s')"
      "role n' = LEADER \<longrightarrow> leads_ok I s' i n'"
  shows "node_ok I s' i n'"
proof -
  note g = moves_grows [OF m]
  have "recorder_ok I s' i n'"
    using recorder_ok_moves [OF node_okD(12) [OF n] m] same by (simp add: recorder_ok_def)
  moreover have "\<forall>env\<in>set (outbox n'). msg_ok I s' env \<and> src env = i"
    using node_okD(15) [OF n] msg_ok_grows [OF _ g] same(4) by auto
  ultimately show ?thesis
    using node_okD(1-5) [OF n] same(1-3) new by (simp add: node_ok_def)
qed

lemma runs_step:
  assumes "\<And>s n. raft_inv (majority I) s \<Longrightarrow> P s n \<Longrightarrow> \<exists>s'. rstep (majority I) s s'
      \<and> (\<forall>j. j \<noteq> i \<longrightarrow> aterm s' j = aterm s j \<and> avote s' j = avote s j \<and> arole s' j = arole s j
           \<and> alog s' j = alog s j \<and> acommit s' j = acommit s j)
      \<and> (moves I i s s' \<longrightarrow> raft_inv (majority I) s' \<longrightarrow> Q () s' (f n))"
  shows "runs I i P (modify f) Q"
proof (rule runs_modify_step)
  fix s n
  assume inv: "raft_inv (majority I) s" and P: "P s n"
  obtain s' where s': "rstep (majority I) s s'"
    "\<forall>j. j \<noteq> i \<longrightarrow> aterm s' j = aterm s j \<and> avote s' j = avote s j \<and> arole s' j = arole s j
           \<and> alog s' j = alog s j \<and> acommit s' j = acommit s j"
    "moves I i s s' \<longrightarrow> raft_inv (majority I) s' \<longrightarrow> Q () s' (f n)"
    using assms [OF inv P] by blast
  have "moves I i s s' \<and> raft_inv (majority I) s'" by (rule move_step [OF inv s'(1)]) (use s'(2) in blast)
  then show "\<exists>s'. moves I i s s' \<and> raft_inv (majority I) s' \<and> Q () s' (f n)" using s'(3) by blast
qed

lemma runs_conseq:
  "runs I i P' m Q' \<Longrightarrow> (\<And>s n. raft_inv (majority I) s \<Longrightarrow> P s n \<Longrightarrow> P' s n)
    \<Longrightarrow> (\<And>x s n. raft_inv (majority I) s \<Longrightarrow> Q' x s n \<Longrightarrow> Q x s n) \<Longrightarrow> runs I i P m Q"
  using runs_pre runs_post by blast

lemma runs_follow:
  assumes R: "\<And>n l. R n \<Longrightarrow> R (n\<lparr>role := FOLLOWER, leader_id := l n\<rparr>)"
  shows "runs I i (\<lambda>s n. node_ok I s i n \<and> R n) (modify (\<lambda>n. n\<lparr>role := FOLLOWER, leader_id := l n\<rparr>))
    (\<lambda>_ s n. node_ok I s i n \<and> role n = FOLLOWER \<and> R n)"
proof (rule runs_step, intro exI conjI impI)
  fix s :: "(nat, 'a) rstate" and n :: "('a, 'b) rnode"
  let ?s = "s\<lparr>arole := (arole s)(i := FOLLOWER)\<rparr>"
  assume a: "node_ok I s i n \<and> R n"
  show "rstep (majority I) s ?s" by (rule r_follow)
  show "\<forall>j. j \<noteq> i \<longrightarrow> aterm ?s j = aterm s j \<and> avote ?s j = avote s j \<and> arole ?s j = arole s j
      \<and> alog ?s j = alog s j \<and> acommit ?s j = acommit s j" by simp
  assume g: "moves I i s ?s"
  show "node_ok I ?s i (n\<lparr>role := FOLLOWER, leader_id := l n\<rparr>)"
    using a by (intro node_ok_change [OF _ g, of n]) (auto dest: node_okD(6-10))
  show "role (n\<lparr>role := FOLLOWER, leader_id := l n\<rparr>) = FOLLOWER" by simp
  show "R (n\<lparr>role := FOLLOWER, leader_id := l n\<rparr>)" using R a by blast
qed

lemma runs_new_term:
  "runs I i (\<lambda>s n. node_ok I s i n \<and> role n = FOLLOWER \<and> current_term n \<le> t)
    (modify (\<lambda>n. if t > current_term n then n\<lparr>current_term := t, voted_for := None\<rparr> else n))
    (\<lambda>_ s n. node_ok I s i n \<and> role n = FOLLOWER \<and> current_term n = t)"
proof (rule runs_modify_step)
  fix s :: "(nat, 'a) rstate" and n :: "('a, 'b) rnode"
  let ?s = "s\<lparr>aterm := (aterm s)(i := t), avote := (avote s)(i := None), arole := (arole s)(i := FOLLOWER)\<rparr>"
  assume inv: "raft_inv (majority I) s" and a: "node_ok I s i n \<and> role n = FOLLOWER \<and> current_term n \<le> t"
  show "\<exists>s'. moves I i s s' \<and> raft_inv (majority I) s'
      \<and> node_ok I s' i (if t > current_term n then n\<lparr>current_term := t, voted_for := None\<rparr> else n)
      \<and> role (if t > current_term n then n\<lparr>current_term := t, voted_for := None\<rparr> else n) = FOLLOWER
      \<and> current_term (if t > current_term n then n\<lparr>current_term := t, voted_for := None\<rparr> else n) = t"
  proof (cases "t > current_term n")
    case False
    then show ?thesis using inv a by (intro exI [of _ s]) simp
  next
    case True
    then have "rstep (majority I) s ?s" using a node_okD(6) by (intro r_term) fastforce
    then have m: "moves I i s ?s \<and> raft_inv (majority I) ?s" by (rule move_step [OF inv]) simp
    then have g: "moves I i s ?s" by blast
    have n: "node_ok I s i n" using a by simp
    have "node_ok I ?s i (n\<lparr>current_term := t, voted_for := None\<rparr>)"
      by (rule node_ok_change [OF n g]) (use a node_okD(6-10) [OF n] in auto)
    then show ?thesis using m True a by auto
  qed
qed

lemma runs_become_follower:
  "runs I i (\<lambda>s n. node_ok I s i n \<and> current_term n \<le> t) (become_follower E t)
    (\<lambda>_ s n. ok I i s n \<and> role n = FOLLOWER \<and> current_term n = t)"
proof -
  have 1: "runs I i (\<lambda>s n. node_ok I s i n \<and> current_term n \<le> t) (modify (\<lambda>n. n\<lparr>role := FOLLOWER\<rparr>))
      (\<lambda>_ s n. node_ok I s i n \<and> role n = FOLLOWER \<and> current_term n \<le> t)"
    using runs_follow [where R = "\<lambda>n. current_term n \<le> t" and l = leader_id] by simp
  have 2: "runs I i (\<lambda>s n. node_ok I s i n \<and> role n = FOLLOWER \<and> current_term n = t) (modify (\<lambda>n. n\<lparr>leader_id := None\<rparr>))
      (\<lambda>_ s n. node_ok I s i n \<and> role n = FOLLOWER \<and> current_term n = t)"
    by (rule runs_modify) simp
  have 3: "runs I i (\<lambda>s n. node_ok I s i n \<and> role n = FOLLOWER \<and> current_term n = t) (reset_election_timer E)
      (\<lambda>_ s n. node_ok I s i n \<and> role n = FOLLOWER \<and> current_term n = t)"
    by (rule runs_reset) simp
  have 4: "runs I i (\<lambda>s n. node_ok I s i n \<and> role n = FOLLOWER \<and> current_term n = t) persist
      (\<lambda>_ s n. node_ok I s i n \<and> persisted n \<and> role n = FOLLOWER \<and> current_term n = t)"
    by (rule runs_persist) auto
  show ?thesis
    unfolding become_follower_def
    by (rule runs_bind [OF 1], rule runs_bind [OF runs_new_term], rule runs_bind [OF 2], rule runs_bind [OF 3],
        rule runs_post [OF 4]) simp
qed

section \<open>Elections\<close>

lemma runs_elected:
  "runs I i (\<lambda>s n. node_ok I s i n \<and> role n = CANDIDATE \<and> has_majority (card (votes n)) n)
    (modify (\<lambda>n. n\<lparr>role := LEADER, leader_id := Some (node_id n),
       next_index := (\<lambda>p. if p \<in> set (peers n) then Some (last_index (nlog n) + 1) else None),
       match_index := (\<lambda>p. if p \<in> set (peers n) then Some 0 else None),
       heartbeat_elapsed := 0, nlog := append_new (LogEntry (current_term n) NoOp) (nlog n)\<rparr>))
    (\<lambda>_ s n. node_ok I s i n \<and> role n = LEADER)"
proof (rule runs_step, intro exI conjI impI)
  fix s :: "(nat, 'a) rstate" and n :: "('a, 'b) rnode"
  let ?e = "LogEntry (current_term n) NoOp"
  let ?s = "lead_with i (alog s i @ [?e]) s"
  let ?n = "n\<lparr>role := LEADER, leader_id := Some (node_id n),
       next_index := (\<lambda>p. if p \<in> set (peers n) then Some (last_index (nlog n) + 1) else None),
       match_index := (\<lambda>p. if p \<in> set (peers n) then Some 0 else None),
       heartbeat_elapsed := 0, nlog := append_new ?e (nlog n)\<rparr>"
  assume inv: "raft_inv (majority I) s" and a: "node_ok I s i n \<and> role n = CANDIDATE \<and> has_majority (card (votes n)) n"
  then have n: "node_ok I s i n" "role n = CANDIDATE" by auto
  note d = node_okD [OF n(1)]
  have V: "majority I (votes n)" using a d(5) d(13) [OF n(2)] finite_cluster [OF n(1)]
    by (simp add: majority_def has_majority_def)
  show "rstep (majority I) s ?s"
    by (rule r_elect [where V = "votes n"]) (use V d(6,8) d(14) [OF n(2)] n(2) in auto)
  show "\<forall>j. j \<noteq> i \<longrightarrow> aterm ?s j = aterm s j \<and> avote ?s j = avote s j \<and> arole ?s j = arole s j
      \<and> alog ?s j = alog s j \<and> acommit ?s j = acommit s j" by (simp add: lead_with_def)
  assume g: "moves I i s ?s"
  have "leads_ok I ?s i ?n" using d(3,9) by (auto simp: leads_ok_def lead_with_def last_index_def)
  then show "node_ok I ?s i ?n"
    using d(6-10) by (intro node_ok_change [OF n(1) g]) (simp_all add: lead_with_def append_new_def)
  show "role ?n = LEADER" by simp
qed

lemma runs_become_leader:
  "runs I i (\<lambda>s n. node_ok I s i n \<and> role n = CANDIDATE \<and> has_majority (card (votes n)) n) (become_leader (recorder_env ri)) (\<lambda>_. ok I i)"
proof -
  have 1: "runs I i (\<lambda>s n. node_ok I s i n \<and> role n = LEADER) persist
      (\<lambda>_ s n. node_ok I s i n \<and> persisted n \<and> role n = LEADER)"
    by (rule runs_persist) auto
  have 2: "runs I i (\<lambda>s n. node_ok I s i n \<and> persisted n \<and> role n = LEADER) broadcast_append
      (\<lambda>_ s n. node_ok I s i n \<and> role n = LEADER \<and> persisted n)"
    by (rule runs_pre [OF _ runs_broadcast [where R = persisted]]) auto
  show ?thesis
    unfolding become_leader_def
    by (rule runs_bind [OF runs_elected], rule runs_bind [OF 1], rule runs_bind [OF 2],
        rule runs_maybe_advance [where R = persisted]) (simp_all add: persisted_def)
qed

lemma runs_state:
  assumes "\<And>n0. runs I i (\<lambda>s n. P s n \<and> n = n0) (m n0) Q"
  shows "runs I i P (\<lambda>n. m n n) Q"
proof (rule runsI)
  fix s n
  assume a: "raft_inv (majority I) s" "P s n"
  show "\<exists>x s' n'. m n n = (Inr x, n') \<and> moves I i s s' \<and> raft_inv (majority I) s' \<and> Q x s' n'"
    by (rule runsE [OF assms [of n] a(1)]) (use a(2) in blast)+
qed

lemma runs_request_votes:
  "runs I i (\<lambda>s n. ok I i s n \<and> role n = CANDIDATE)
    (\<lambda>n. for_each (\<lambda>p. send p (RequestVote (current_term n) (node_id n) (last_index (nlog n)) (last_term (nlog n)))) (peers n) n)
    (\<lambda>_. ok I i)"
proof (rule runs_state [where m = "\<lambda>n. for_each (\<lambda>p. send p (RequestVote (current_term n) (node_id n) (last_index (nlog n)) (last_term (nlog n)))) (peers n)"])
  fix n0 :: "('a, 'b) rnode"
  let ?P = "\<lambda>s n. ok I i s n \<and> role n = CANDIDATE \<and> nlog n = nlog n0 \<and> current_term n = current_term n0
    \<and> node_id n = node_id n0 \<and> set (peers n0) = I - {i}"
  have body: "body_ok I s i p (RequestVote (current_term n0) (node_id n0) (last_index (nlog n0)) (last_term (nlog n0)))"
    if "raft_inv (majority I) s" "?P s n" for s n p
  proof -
    have n: "node_ok I s i n" "role n = CANDIDATE" using that(2) by auto
    note d = node_okD(2,6,8,9) [OF n(1)]
    have "cands s (aterm s i) i = Some (alog s i)"
      using raft_invD(2) [OF that(1)] d(3) n(2) unfolding cand_inv_def by auto
    then show ?thesis using d that(2) by (auto simp: last_index_def last_term_lastt)
  qed
  have "runs I i ?P (send p (RequestVote (current_term n0) (node_id n0) (last_index (nlog n0)) (last_term (nlog n0)))) (\<lambda>_. ?P)"
    if "p \<in> set (peers n0)" for p
  proof (cases "p \<in> I \<and> p \<noteq> i")
    case True
    show ?thesis
      by (rule runs_post, rule runs_send [where P = ?P and R = "\<lambda>s n. persisted n \<and> role n = CANDIDATE \<and> nlog n = nlog n0
          \<and> current_term n = current_term n0 \<and> node_id n = node_id n0 \<and> set (peers n0) = I - {i}"])
        (use body True in auto)
  next
    case False
    then have "set (peers n0) \<noteq> I - {i}" using that by auto
    then show ?thesis by (intro runsI) simp
  qed
  then have "runs I i ?P (for_each (\<lambda>p. send p (RequestVote (current_term n0) (node_id n0) (last_index (nlog n0)) (last_term (nlog n0)))) (peers n0)) (\<lambda>_. ?P)"
    by (rule runs_for_each)
  then show "runs I i (\<lambda>s n. (ok I i s n \<and> role n = CANDIDATE) \<and> n = n0)
    (for_each (\<lambda>p. send p (RequestVote (current_term n0) (node_id n0) (last_index (nlog n0)) (last_term (nlog n0)))) (peers n0)) (\<lambda>_. ok I i)"
    by (rule runs_conseq) (auto dest: node_okD(3))
qed

lemma runs_stand:
  "runs I i (\<lambda>s n. node_ok I s i n)
    (modify (\<lambda>n. n\<lparr>role := CANDIDATE, current_term := current_term n + 1, voted_for := Some (node_id n),
       leader_id := None, votes := {node_id n}\<rparr>))
    (\<lambda>_ s n. node_ok I s i n \<and> role n = CANDIDATE)"
proof (rule runs_step, intro exI conjI impI)
  fix s :: "(nat, 'a) rstate" and n :: "('a, 'b) rnode"
  let ?t = "Suc (aterm s i)"
  let ?s = "s\<lparr>aterm := (aterm s)(i := ?t), avote := (avote s)(i := Some i), arole := (arole s)(i := CANDIDATE),
      cands := (cands s)(?t := (cands s ?t)(i := Some (alog s i))), grants := insert (?t, i, i, alog s i) (grants s)\<rparr>"
  let ?n = "n\<lparr>role := CANDIDATE, current_term := current_term n + 1, voted_for := Some (node_id n),
       leader_id := None, votes := {node_id n}\<rparr>"
  assume n: "node_ok I s i n"
  note d = node_okD [OF n]
  show "rstep (majority I) s ?s" by (rule r_stand) simp
  show "\<forall>j. j \<noteq> i \<longrightarrow> aterm ?s j = aterm s j \<and> avote ?s j = avote s j \<and> arole ?s j = arole s j
      \<and> alog ?s j = alog s j \<and> acommit ?s j = acommit s j" by simp
  assume g: "moves I i s ?s"
  show "node_ok I ?s i ?n" by (rule node_ok_change [OF n g]) (use d(1,2,6-10) in auto)
  show "role ?n = CANDIDATE" by simp
qed

lemma runs_become_candidate: "runs I i (\<lambda>s n. node_ok I s i n) (become_candidate (recorder_env ri)) (\<lambda>_. ok I i)"
proof -
  have 1: "runs I i (\<lambda>s n. node_ok I s i n \<and> role n = CANDIDATE) (reset_election_timer (recorder_env ri))
      (\<lambda>_ s n. node_ok I s i n \<and> role n = CANDIDATE)"
    by (rule runs_reset) simp
  have 2: "runs I i (\<lambda>s n. node_ok I s i n \<and> role n = CANDIDATE) persist
      (\<lambda>_ s n. node_ok I s i n \<and> persisted n \<and> role n = CANDIDATE)"
    by (rule runs_persist) auto
  show ?thesis
    unfolding become_candidate_def
    by (rule runs_bind [OF runs_stand], rule runs_bind [OF 1], rule runs_bind [OF 2], rule runs_bind [OF runs_gets], rule runs_if)
      (rule runs_pre [OF _ runs_become_leader], simp, rule runs_pre [OF _ runs_request_votes], simp)
qed

section \<open>Votes\<close>

lemma runs_reply:
  assumes "d \<in> I" "d \<noteq> i" "\<And>s n. raft_inv (majority I) s \<Longrightarrow> P s n \<Longrightarrow> ok I i s n \<and> body_ok I s i d b"
  shows "runs I i P (send d b) (\<lambda>_. ok I i)"
  by (rule runs_send [where R = "\<lambda>s n. persisted n"]) (use assms in auto)

lemma runs_grant:
  "runs I i (\<lambda>s n. node_ok I s i n \<and> current_term n = t \<and> (voted_for n = None \<or> voted_for n = Some c)
      \<and> (lt > last_term (nlog n) \<or> (lt = last_term (nlog n) \<and> li \<ge> last_index (nlog n)))
      \<and> body_ok I s c i (RequestVote t c li lt))
    (modify (\<lambda>n. n\<lparr>voted_for := Some c\<rparr>))
    (\<lambda>_ s n. node_ok I s i n \<and> current_term n = t \<and> (\<exists>L. (t, i, c, L) \<in> grants s))"
proof (rule runs_step, intro exI conjI impI)
  fix s :: "(nat, 'a) rstate" and n :: "('a, 'b) rnode"
  assume a: "node_ok I s i n \<and> current_term n = t \<and> (voted_for n = None \<or> voted_for n = Some c)
      \<and> (lt > last_term (nlog n) \<or> (lt = last_term (nlog n) \<and> li \<ge> last_index (nlog n)))
      \<and> body_ok I s c i (RequestVote t c li lt)"
  then have n: "node_ok I s i n" by simp
  note d = node_okD(6-10) [OF n]
  let ?s = "s\<lparr>avote := (avote s)(i := Some c), grants := insert (aterm s i, i, c, alog s i) (grants s)\<rparr>"
  obtain L where L: "cands s t c = Some L" "li = length L" "lt = lastt L" using a by auto
  have "up_to_date L (alog s i)" using a L d(4) by (auto simp: up_to_date_def last_index_def last_term_lastt)
  then show "rstep (majority I) s ?s" using a L(1) d(1,2) by (intro r_grant) auto
  show "\<forall>j. j \<noteq> i \<longrightarrow> aterm ?s j = aterm s j \<and> avote ?s j = avote s j \<and> arole ?s j = arole s j
      \<and> alog ?s j = alog s j \<and> acommit ?s j = acommit s j" by simp
  assume g: "moves I i s ?s"
  show "node_ok I ?s i (n\<lparr>voted_for := Some c\<rparr>)"
  proof (rule node_ok_change [OF n g])
    show "role (n\<lparr>voted_for := Some c\<rparr>) = LEADER \<longrightarrow> leads_ok I ?s i (n\<lparr>voted_for := Some c\<rparr>)"
      using node_okD(11) [OF n] leads_ok_grows [OF _ moves_grows [OF g]] by (simp add: leads_ok_def)
    show "role (n\<lparr>voted_for := Some c\<rparr>) = CANDIDATE \<longrightarrow> votes (n\<lparr>voted_for := Some c\<rparr>) \<subseteq> I
        \<and> (\<forall>v\<in>votes (n\<lparr>voted_for := Some c\<rparr>). \<exists>L. (aterm ?s i, v, i, L) \<in> grants ?s)"
      using node_okD(13,14) [OF n] by simp blast
  qed (use d in auto)
  show "current_term (n\<lparr>voted_for := Some c\<rparr>) = t" using a by simp
  show "(t, i, c, alog s i) \<in> grants ?s" using a d(1) by simp
qed

lemma runs_catch_up:
  assumes F: "\<And>s s'. grows s s' \<Longrightarrow> F s \<Longrightarrow> F s'" and t: "\<not> t < cur"
  shows "runs I i (\<lambda>s n. (ok I i s n \<and> F s) \<and> cur = current_term n) (whenS (t > cur) (become_follower E t))
    (\<lambda>_ s n. (ok I i s n \<and> current_term n = t) \<and> F s)"
proof (rule runs_whenS)
  show "runs I i (\<lambda>s n. (ok I i s n \<and> F s) \<and> cur = current_term n) (become_follower E t)
    (\<lambda>_ s n. (ok I i s n \<and> current_term n = t) \<and> F s)"
    using runs_frame [OF runs_become_follower F] by (rule runs_conseq) (use t in auto)
qed (use t in auto)

lemma runs_handle_request_vote:
  assumes a: "a \<in> I" "a \<noteq> i"
  shows "runs I i (\<lambda>s n. ok I i s n \<and> body_ok I s a i (RequestVote t c li lt)) (handle_request_vote E a t c li lt) (\<lambda>_. ok I i)"
proof -
  let ?F = "\<lambda>s. body_ok I s a i (RequestVote t c li lt)"
  have F: "\<And>s s'. grows s s' \<Longrightarrow> ?F s \<Longrightarrow> ?F s'" using body_ok_grows by blast
  let ?G = "\<lambda>s n. node_ok I s i n \<and> current_term n = t \<and> (\<exists>L. (t, i, a, L) \<in> grants s)"
  have 1: "runs I i ?G (reset_election_timer E) (\<lambda>_. ?G)" by (rule runs_reset) simp
  have 2: "runs I i ?G persist (\<lambda>_ s n. node_ok I s i n \<and> persisted n \<and> current_term n = t \<and> (\<exists>L. (t, i, a, L) \<in> grants s))"
    by (rule runs_persist) auto
  have 3: "runs I i (\<lambda>s n. node_ok I s i n \<and> persisted n \<and> current_term n = t \<and> (\<exists>L. (t, i, a, L) \<in> grants s))
      (bindS (gets current_term) (\<lambda>c. send a (RequestVoteReply c True))) (\<lambda>_. ok I i)"
    by (rule runs_bind [OF runs_gets], rule runs_reply) (use a in auto)
  have yes: "runs I i (\<lambda>s n. ((ok I i s n \<and> current_term n = t) \<and> ?F s)
      \<and> (voted_for n = None \<or> voted_for n = Some c)
      \<and> (lt > last_term (nlog n) \<or> (lt = last_term (nlog n) \<and> li \<ge> last_index (nlog n))))
      (bindS (modify (\<lambda>s. s\<lparr>voted_for := Some c\<rparr>)) (\<lambda>_. bindS (reset_election_timer E) (\<lambda>_. bindS persist (\<lambda>_.
         bindS (gets current_term) (\<lambda>c. send a (RequestVoteReply c True)))))) (\<lambda>_. ok I i)"
  proof (cases "c = a")
    case True
    show ?thesis
      unfolding True
      by (rule runs_bind [OF runs_pre [OF _ runs_grant [where lt = lt and li = li and c = a and t = t]]], blast, rule runs_bind [OF 1], rule runs_bind [OF 2], rule 3)
  next
    case False
    then show ?thesis by (intro runsI) simp
  qed
  have no: "runs I i (\<lambda>s n. (ok I i s n \<and> current_term n = t) \<and> ?F s)
      (bindS (gets current_term) (\<lambda>c. send a (RequestVoteReply c False))) (\<lambda>_. ok I i)"
    by (rule runs_bind [OF runs_gets], rule runs_reply) (use a in auto)
  show ?thesis
    unfolding handle_request_vote_def
  proof (rule runs_bind [OF runs_gets], rule runs_if, goal_cases)
    case (1 cur)
    show ?case by (rule runs_reply) (use a in auto)
  next
    case (2 cur)
    show ?case
    proof (rule runs_bind, rule runs_catch_up [where F = ?F, OF F 2], assumption, assumption, rule runs_bind [OF runs_gets], rule runs_if, goal_cases)
      case (1 x b)
      show ?case by (rule runs_pre [OF _ yes]) (use 1 in blast)
    next
      case (2 x b)
      show ?case by (rule runs_pre [OF _ no]) blast
    qed
  qed
qed

lemma runs_handle_request_vote_reply:
  assumes a: "a \<in> I"
  shows "runs I i (\<lambda>s n. ok I i s n \<and> body_ok I s a i (RequestVoteReply t g))
    (handle_request_vote_reply (recorder_env ri) a t g) (\<lambda>_. ok I i)"
proof -
  let ?P = "\<lambda>s n. ok I i s n \<and> (g \<longrightarrow> (\<exists>L. (t, a, i, L) \<in> grants s))"
  have 1: "runs I i (\<lambda>s n. ?P s n \<and> role n = CANDIDATE \<and> current_term n = t \<and> g)
      (modify (\<lambda>n. n\<lparr>votes := insert a (votes n)\<rparr>)) (\<lambda>_ s n. ok I i s n \<and> role n = CANDIDATE)"
    by (rule runs_modify) (use a in \<open>auto simp: node_ok_def persisted_def leads_ok_def recorder_ok_def\<close>)
  show ?thesis
    unfolding handle_request_vote_reply_def body_ok.simps
  proof (rule runs_bind [OF runs_gets], rule runs_if, goal_cases)
    case (1 newer)
    show ?case by (rule runs_conseq [OF runs_become_follower]) (use 1 in auto)
  next
    case (2 newer)
    show ?case
    proof (rule runs_bind [OF runs_gets], rule runs_if, goal_cases)
      case (1 stale)
      show ?case by (rule runs_ret') simp
    next
      case (2 stale)
      show ?case
      proof (rule runs_if, goal_cases)
        case 1
        have pre: "runs I i (\<lambda>s n. (?P s n \<and> newer = (current_term n < t)) \<and> stale = (role n \<noteq> CANDIDATE \<or> t < current_term n))
            (modify (\<lambda>n. n\<lparr>votes := insert a (votes n)\<rparr>)) (\<lambda>_ s n. ok I i s n \<and> role n = CANDIDATE)"
          by (rule runs_pre [OF _ \<open>runs I i (\<lambda>s n. ?P s n \<and> role n = CANDIDATE \<and> current_term n = t \<and> g) _ _\<close>])
            (use 1 2 \<open>\<not> newer\<close> in auto)
        show ?case
          by (rule runs_bind [OF pre], rule runs_bind [OF runs_gets], rule runs_whenS)
            (rule runs_pre [OF _ runs_become_leader], auto)
      next
        case 2
        show ?case by (rule runs_ret') simp
      qed
    qed
  qed
qed

section \<open>Entries\<close>

abbreviation entries_msg :: "nat set \<Rightarrow> nat \<Rightarrow> nat \<Rightarrow> nat \<Rightarrow> nat \<Rightarrow> nat \<Rightarrow> int \<Rightarrow> 'v rlog \<Rightarrow> nat \<Rightarrow> (nat, 'v) rstate \<Rightarrow> bool" where
  "entries_msg I a i t l p pt es lc s \<equiv> body_ok I s a i (AppendEntries t l p pt es lc)"

lemma entries_msg_grows: "grows s s' \<Longrightarrow> entries_msg I a i t l p pt es lc s \<Longrightarrow> entries_msg I a i t l p pt es lc s'"
  using body_ok_grows by blast

lemma runs_accept:
  assumes a: "a \<noteq> i"
  shows "runs I i (\<lambda>s n. node_ok I s i n \<and> role n = FOLLOWER \<and> current_term n = t \<and> entries_msg I a i t l p pt es lc s
      \<and> p \<le> last_index (nlog n) \<and> term_at (nlog n) p = pt)
    (modify (\<lambda>n. n\<lparr>nlog := append_from p es (nlog n)\<rparr>))
    (\<lambda>_ s n. (node_ok I s i n \<and> current_term n = t) \<and> entries_msg I a i t l p pt es lc s \<and> (t, i, p + length es) \<in> acks s)"
proof (rule runs_step, intro exI conjI impI)
  fix s :: "(nat, 'a) rstate" and n :: "('a, 'b) rnode"
  assume n: "node_ok I s i n \<and> role n = FOLLOWER \<and> current_term n = t \<and> entries_msg I a i t l p pt es lc s
      \<and> p \<le> last_index (nlog n) \<and> term_at (nlog n) p = pt"
  then have n1: "node_ok I s i n" by simp
  note d = node_okD(6-10) [OF n1]
  let ?n = "n\<lparr>nlog := append_from p es (nlog n)\<rparr>"
  let ?s = "s\<lparr>arole := (arole s)(i := FOLLOWER),
      alog := (alog s)(i := splice_from p (take (length es) (drop p (llog s t))) (alog s i)),
      acks := insert (t, i, p + length es) (acks s)\<rparr>"
  have es: "take (length es) (drop p (llog s t)) = es" using n by simp
  show "rstep (majority I) s ?s"
    by (rule r_accept [where c = a]) (use n d a in \<open>auto simp: last_index_def term_at_tm\<close>)
  show "\<forall>j. j \<noteq> i \<longrightarrow> aterm ?s j = aterm s j \<and> avote ?s j = avote s j \<and> arole ?s j = arole s j
      \<and> alog ?s j = alog s j \<and> acommit ?s j = acommit s j" by simp
  assume g: "moves I i s ?s"
  show "node_ok I ?s i ?n"
    by (rule node_ok_change [OF n1 g]) (use n d es in \<open>simp_all add: append_from_def\<close>)
  show "current_term ?n = t" using n by simp
  show "entries_msg I a i t l p pt es lc ?s" by (rule entries_msg_grows [OF moves_grows [OF g]]) (use n in blast)
  show "(t, i, p + length es) \<in> acks ?s" by simp
qed

lemma runs_learn:
  "runs I i (\<lambda>s n. (node_ok I s i n \<and> current_term n = t) \<and> entries_msg I a i t l p pt es lc s \<and> (t, i, p + length es) \<in> acks s)
    (modify (\<lambda>n. n\<lparr>commit_index := min lc (p + length es)\<rparr>))
    (\<lambda>_ s n. (node_ok I s i n \<and> current_term n = t) \<and> entries_msg I a i t l p pt es lc s \<and> (t, i, p + length es) \<in> acks s)"
proof (rule runs_step, intro exI conjI impI)
  fix s :: "(nat, 'a) rstate" and n :: "('a, 'b) rnode"
  assume inv: "raft_inv (majority I) s"
    and n: "(node_ok I s i n \<and> current_term n = t) \<and> entries_msg I a i t l p pt es lc s \<and> (t, i, p + length es) \<in> acks s"
  let ?c = "min lc (p + length es)"
  let ?s = "s\<lparr>acommit := (acommit s)(i := ?c)\<rparr>"
  have n1: "node_ok I s i n" and t: "aterm s i = t" using n node_okD(6) by fastforce+
  have c: "committed_to I s t lc (llog s t)" and len: "p + length es \<le> length (llog s t)" using n by simp_all
  have "log_keeps s t i (p + length es)" using raft_invD(5) [OF inv] n unfolding ack_inv_def by blast
  then have agree: "take (p + length es) (alog s i) = take (p + length es) (llog s t)" using t unfolding log_keeps_def by auto
  have "p + length es \<le> length (alog s i)" using take_eq_length [OF agree len] .
  then have le: "?c \<le> length (alog s i)" by simp
  show "rstep (majority I) s ?s"
  proof (cases "lc = 0")
    case True
    then show ?thesis using r_forget [of "majority I" s i] by simp
  next
    case False
    then obtain u k where u: "chosen (majority I) s u k" "u \<le> t" "lc \<le> k" "take lc (llog s t) = take lc (llog s u)"
      using c unfolding committed_to_def by blast
    have "take ?c (alog s i) = take ?c (llog s u)"
      using take_cong_le [OF agree, of ?c] take_cong_le [OF u(4), of ?c] by simp
    then show ?thesis using u t le by (intro r_learn [OF u(1)]) auto
  qed
  show "\<forall>j. j \<noteq> i \<longrightarrow> aterm ?s j = aterm s j \<and> avote ?s j = avote s j \<and> arole ?s j = arole s j
      \<and> alog ?s j = alog s j \<and> acommit ?s j = acommit s j" by simp
  assume g: "moves I i s ?s"
  show "node_ok I ?s i (n\<lparr>commit_index := ?c\<rparr>)"
  proof (rule node_ok_change [OF n1 g])
    show "role (n\<lparr>commit_index := ?c\<rparr>) = LEADER \<longrightarrow> leads_ok I ?s i (n\<lparr>commit_index := ?c\<rparr>)"
      using node_okD(11) [OF n1] leads_ok_grows [OF _ moves_grows [OF g], of I i n] by (simp add: leads_ok_def)
    show "role (n\<lparr>commit_index := ?c\<rparr>) = CANDIDATE \<longrightarrow> votes (n\<lparr>commit_index := ?c\<rparr>) \<subseteq> I
        \<and> (\<forall>v\<in>votes (n\<lparr>commit_index := ?c\<rparr>). \<exists>L. (aterm ?s i, v, i, L) \<in> grants ?s)"
      using node_okD(13,14) [OF n1] by simp
  qed (use node_okD(6-10) [OF n1] in simp_all)
  show "current_term (n\<lparr>commit_index := ?c\<rparr>) = t" using n by simp
  show "entries_msg I a i t l p pt es lc ?s" by (rule entries_msg_grows [OF moves_grows [OF g]]) (use n in blast)
  show "(t, i, p + length es) \<in> acks ?s" using n by simp
qed

lemma runs_store_entries:
  assumes a: "a \<in> I" "a \<noteq> i"
  shows "runs I i (\<lambda>s n. (node_ok I s i n \<and> current_term n = t) \<and> entries_msg I a i t l p pt es lc s \<and> (t, i, p + length es) \<in> acks s)
    (bindS (gets (\<lambda>s. lc > commit_index s)) (\<lambda>more.
     bindS (whenS more (bindS (modify (\<lambda>s. s\<lparr>commit_index := min lc (p + length es)\<rparr>)) (\<lambda>_. apply_committed (recorder_env ri)))) (\<lambda>_.
     bindS persist (\<lambda>_.
     bindS (gets current_term) (\<lambda>c. send a (AppendEntriesReply c True (p + length es))))))) (\<lambda>_. ok I i)"
proof -
  let ?G = "\<lambda>s. entries_msg I a i t l p pt es lc s \<and> (t, i, p + length es) \<in> acks s"
  have G: "\<And>s s'. grows s s' \<Longrightarrow> ?G s \<Longrightarrow> ?G s'" using entries_msg_grows growsD(4) by blast
  let ?P = "\<lambda>s n. (node_ok I s i n \<and> current_term n = t) \<and> ?G s"
  have ap: "runs I i ?P (apply_committed (recorder_env ri)) (\<lambda>_. ?P)"
    by (rule runs_frame [where F = ?G, OF runs_apply [where R = "\<lambda>n. current_term n = t"] G]) (simp, assumption+)
  have w: "runs I i (\<lambda>s n. ?P s n \<and> more = (lc > commit_index n))
      (whenS more (bindS (modify (\<lambda>s. s\<lparr>commit_index := min lc (p + length es)\<rparr>)) (\<lambda>_. apply_committed (recorder_env ri)))) (\<lambda>_. ?P)" for more
    by (rule runs_whenS) (rule runs_pre [OF _ runs_bind [OF runs_learn ap]], auto)
  have pe: "runs I i ?P persist (\<lambda>_ s n. node_ok I s i n \<and> persisted n \<and> current_term n = t \<and> ?G s)"
    by (rule runs_persist) auto
  show ?thesis
    by (rule runs_bind [OF runs_gets], rule runs_bind [OF w], rule runs_bind [OF pe], rule runs_bind [OF runs_gets], rule runs_reply)
      (use a in auto)
qed

lemma runs_handle_append_entries:
  assumes a: "a \<in> I" "a \<noteq> i"
  shows "runs I i (\<lambda>s n. ok I i s n \<and> entries_msg I a i t l p pt es lc s)
    (handle_append_entries (recorder_env ri) a t l p pt es lc) (\<lambda>_. ok I i)"
  unfolding handle_append_entries_def Let_def
proof (rule runs_bind [OF runs_gets], rule runs_if, goal_cases)
  case (1 cur)
  show ?case by (rule runs_bind [OF runs_gets], rule runs_reply) (use a in auto)
next
  case (2 cur)
  let ?F = "entries_msg I a i t l p pt es lc"
  let ?P = "\<lambda>s n. (node_ok I s i n \<and> role n = FOLLOWER \<and> persisted n \<and> current_term n = t) \<and> ?F s"
  have f: "runs I i (\<lambda>s n. (ok I i s n \<and> current_term n = t) \<and> ?F s) (modify (\<lambda>n. n\<lparr>role := FOLLOWER, leader_id := Some l\<rparr>)) (\<lambda>_. ?P)"
    by (rule runs_pre [OF _ runs_frame [OF runs_follow [where R = "\<lambda>n. persisted n \<and> current_term n = t"] entries_msg_grows]])
      (auto simp: persisted_def)
  have r: "runs I i ?P (reset_election_timer (recorder_env ri)) (\<lambda>_. ?P)" by (rule runs_reset) simp
  show ?case
  proof (rule runs_bind, rule runs_catch_up [where F = ?F, OF entries_msg_grows 2], assumption, assumption, rule runs_bind [OF f],
      rule runs_bind [OF r], rule runs_bind [OF runs_gets], rule runs_if, goal_cases)
    case (1 _ _ _ bad)
    have "runs I i (\<lambda>s n. (?P s n \<and> bad = (last_index (nlog n) < p \<or> term_at (nlog n) p \<noteq> pt))
        \<and> b = AppendEntriesReply (current_term n) False (last_index (nlog n))) (send a b) (\<lambda>_. ok I i)" for b
      by (rule runs_reply [OF a]) (auto simp del: body_ok.simps(3))
    then show ?case by (rule runs_bind [OF runs_gets])
  next
    case (2 _ _ _ bad)
    have "runs I i (\<lambda>s n. ?P s n \<and> bad = (last_index (nlog n) < p \<or> term_at (nlog n) p \<noteq> pt))
       (modify (\<lambda>n. n\<lparr>nlog := append_from p es (nlog n)\<rparr>))
       (\<lambda>_ s n. (node_ok I s i n \<and> current_term n = t) \<and> ?F s \<and> (t, i, p + length es) \<in> acks s)"
      by (rule runs_pre [OF _ runs_accept [OF a(2)]]) (use 2 in \<open>auto simp del: body_ok.simps\<close>)
    then show ?case by (rule runs_bind) (rule runs_store_entries [OF a])
  qed
qed

end
