(* ===== verification/RaftDrive.thy ===== *)
theory RaftDrive
  imports RaftSteps
begin

text \<open>
  The operations that drive a node, \<open>tick\<close>, \<open>step\<close> and \<open>propose\<close>, and the network: every
  state of a network of nodes is related to a state that the protocol reaches.
\<close>

section \<open>Acknowledgements\<close>

lemma runs_handle_append_entries_reply:
  assumes a: "a \<in> I" "a \<noteq> i"
  shows "runs I i (\<lambda>s n. ok I i s n \<and> body_ok I s a i (AppendEntriesReply t success m))
    (handle_append_entries_reply (recorder_env ri) a t success m) (\<lambda>_. ok I i)"
proof -
  let ?P = "\<lambda>s n. ok I i s n \<and> (success \<longrightarrow> (t, a, m) \<in> acks s)"
  have yes: "runs I i (\<lambda>s n. ?P s n \<and> success \<and> role n = LEADER \<and> current_term n = t)
     (bindS (modify (\<lambda>s. s\<lparr>match_index := (match_index s)(a \<mapsto> m), next_index := (next_index s)(a \<mapsto> m + 1)\<rparr>)) (\<lambda>_.
        maybe_advance_commit (recorder_env ri))) (\<lambda>_. ok I i)"
  proof (rule runs_bind)
    show "runs I i (\<lambda>s n. ?P s n \<and> success \<and> role n = LEADER \<and> current_term n = t)
      (modify (\<lambda>s. s\<lparr>match_index := (match_index s)(a \<mapsto> m), next_index := (next_index s)(a \<mapsto> m + 1)\<rparr>))
      (\<lambda>_ s n. node_ok I s i n \<and> role n = LEADER \<and> persisted n)"
    proof (rule runs_modify)
      fix s n
      assume inv: "raft_inv (majority I) s" and n: "?P s n \<and> success \<and> role n = LEADER \<and> current_term n = t"
      let ?n = "n\<lparr>match_index := (match_index n)(a \<mapsto> m), next_index := (next_index n)(a \<mapsto> m + 1)\<rparr>"
      have n1: "node_ok I s i n" "role n = LEADER" using n by simp_all
      have t: "aterm s i = t" using n node_okD(6) [OF n1(1)] by simp
      have "m \<le> length (llog s t)" using raft_invD(5) [OF inv] n unfolding ack_inv_def by blast
      then have "m \<le> length (alog s i)" using leader_facts(2) [OF inv n1] t by simp
      then have "leads_ok I s i ?n" using node_okD(11) [OF n1] n t unfolding leads_ok_def by auto
      then have "node_ok I s i ?n" using n1 by (simp add: node_ok_def recorder_ok_def)
      then show "node_ok I s i ?n \<and> role ?n = LEADER \<and> persisted ?n" using n by (simp add: persisted_def)
    qed
    show "runs I i (\<lambda>s n. node_ok I s i n \<and> role n = LEADER \<and> persisted n) (maybe_advance_commit (recorder_env ri)) (\<lambda>_. ok I i)"
      by (rule runs_maybe_advance [where R = persisted]) (simp_all add: persisted_def)
  qed
  let ?x = "\<lambda>x. max 1 (min (x - 1) (m + 1))"
  have no: "runs I i (\<lambda>s n. ?P s n \<and> role n = LEADER)
     (bindS (lift (\<lambda>s. py_get (next_index s) a)) (\<lambda>next.
      bindS (modify (\<lambda>s. s\<lparr>next_index := (next_index s)(a \<mapsto> ?x next)\<rparr>)) (\<lambda>_. send_append_to a))) (\<lambda>_. ok I i)"
  proof (rule runs_bind, rule runs_lift [where Q = "\<lambda>x s n. ok I i s n \<and> role n = LEADER \<and> next_index n a = Some x"], goal_cases)
    case (1 s n)
    then show ?case using node_okD(11) [of I s i n] a unfolding leads_ok_def by (force simp: py_get_def)
  next
    case (2 x)
    have "runs I i (\<lambda>s n. ok I i s n \<and> role n = LEADER \<and> next_index n a = Some x)
        (modify (\<lambda>s. s\<lparr>next_index := (next_index s)(a \<mapsto> ?x x)\<rparr>)) (\<lambda>_ s n. node_ok I s i n \<and> role n = LEADER \<and> persisted n)"
    proof (rule runs_modify)
      fix s n
      assume n: "ok I i s n \<and> role n = LEADER \<and> next_index n a = Some x"
      then have l: "leads_ok I s i n" using node_okD(11) by blast
      then have "x \<le> length (alog s i) + 1" using n a unfolding leads_ok_def by force
      then have "leads_ok I s i (n\<lparr>next_index := (next_index n)(a \<mapsto> ?x x)\<rparr>)" using l unfolding leads_ok_def by auto
      then show "node_ok I s i (n\<lparr>next_index := (next_index n)(a \<mapsto> ?x x)\<rparr>)
          \<and> role (n\<lparr>next_index := (next_index n)(a \<mapsto> ?x x)\<rparr>) = LEADER \<and> persisted (n\<lparr>next_index := (next_index n)(a \<mapsto> ?x x)\<rparr>)"
        using n by (auto simp: node_ok_def recorder_ok_def persisted_def)
    qed
    then show ?case by (rule runs_bind) (rule runs_post [OF runs_send_append [OF a, where R = persisted]], simp_all)
  qed
  show ?thesis
    unfolding handle_append_entries_reply_def body_ok.simps
  proof (rule runs_bind [OF runs_gets], rule runs_if, goal_cases)
    case (1 newer)
    show ?case by (rule runs_conseq [OF runs_become_follower]) (use 1 in auto)
  next
    case (2 newer)
    show ?case
    proof (rule runs_bind [OF runs_gets], rule runs_if, goal_cases)
      case (1 stale)
      show ?case by (rule runs_ret') simp
    next
      case (2 stale)
      show ?case
      proof (rule runs_if, goal_cases)
        case 1
        show ?case by (rule runs_pre [OF _ yes]) (use 1 2 \<open>\<not> newer\<close> in auto)
      next
        case 3: 2
        show ?case by (rule runs_pre [OF _ no]) (use 2 in auto)
      qed
    qed
  qed
qed

section \<open>Driving a node\<close>

lemma runs_drain: "runs I i (ok I i) drain (\<lambda>out s n. ok I i s n \<and> outbox n = [] \<and> (\<forall>env\<in>set out. msg_ok I s env))"
  by (rule runsI_same) (auto simp: drain_def node_ok_def leads_ok_def recorder_ok_def)

lemma runs_clear: "runs I i (\<lambda>s n. ok I i s n \<and> F s n) (modify (\<lambda>n. n\<lparr>outbox := []\<rparr>)) (\<lambda>_ s n. ok I i s n)"
  by (rule runs_modify) (simp add: node_ok_def leads_ok_def recorder_ok_def)

lemma runs_tick: "runs I i (ok I i) (node_tick (recorder_env ri))
  (\<lambda>out s n. ok I i s n \<and> outbox n = [] \<and> (\<forall>env\<in>set out. msg_ok I s env))"
proof -
  have 0: "runs I i (ok I i) (modify (\<lambda>n. n\<lparr>outbox := []\<rparr>)) (\<lambda>_. ok I i)"
    using runs_clear [where F = "\<lambda>_ _. True"] by simp
  have 1: "runs I i (\<lambda>s n. ok I i s n \<and> True = (role n = LEADER))
      (bindS (modify (\<lambda>s. s\<lparr>heartbeat_elapsed := heartbeat_elapsed s + 1\<rparr>)) (\<lambda>_.
       bindS (gets (\<lambda>s. heartbeat_elapsed s \<ge> heartbeat_interval (config s))) (\<lambda>due.
         whenS due (bindS (modify (\<lambda>s. s\<lparr>heartbeat_elapsed := 0\<rparr>)) (\<lambda>_. broadcast_append))))) (\<lambda>_. ok I i)"
  proof (rule runs_bind, rule runs_modify [where Q = "\<lambda>_ s n. ok I i s n \<and> role n = LEADER"], simp,
      rule runs_bind [OF runs_gets], rule runs_whenS, rule runs_bind,
      rule runs_modify [where Q = "\<lambda>_ s n. node_ok I s i n \<and> role n = LEADER \<and> persisted n"], simp)
    show "runs I i (\<lambda>s n. node_ok I s i n \<and> role n = LEADER \<and> persisted n) broadcast_append (\<lambda>_. ok I i)"
      by (rule runs_post [OF runs_broadcast [where R = persisted]]) simp_all
  qed simp
  have 2: "runs I i (\<lambda>s n. ok I i s n \<and> False = (role n = LEADER))
      (bindS (modify (\<lambda>s. s\<lparr>election_elapsed := election_elapsed s + 1\<rparr>)) (\<lambda>_.
       bindS (gets (\<lambda>s. election_elapsed s \<ge> election_timeout s)) (\<lambda>due. whenS due (become_candidate (recorder_env ri))))) (\<lambda>_. ok I i)"
    by (rule runs_bind, rule runs_modify [where Q = "\<lambda>_ s n. ok I i s n"], simp, rule runs_bind [OF runs_gets], rule runs_whenS,
        rule runs_pre [OF _ runs_become_candidate]) simp_all
  show ?thesis
    unfolding node_tick_def
  proof (rule runs_bind [OF 0], rule runs_bind [OF runs_gets], rule runs_bind [OF _ runs_drain], rule runs_if, goal_cases)
    case (1 _ b)
    then have b: "b = True" by simp
    show ?case unfolding b by (rule \<open>runs I i (\<lambda>s n. ok I i s n \<and> True = (role n = LEADER)) _ _\<close>)
  next
    case (2 _ b)
    then have b: "b = False" by simp
    show ?case unfolding b by (rule \<open>runs I i (\<lambda>s n. ok I i s n \<and> False = (role n = LEADER)) _ _\<close>)
  qed
qed

lemma runs_dispatch:
  assumes "src env \<in> I" "src env \<noteq> i"
  shows "runs I i (\<lambda>s n. ok I i s n \<and> body_ok I s (src env) i (ebody env)) (dispatch (recorder_env ri) env) (\<lambda>_. ok I i)"
proof (cases env)
  case (Envelope a d b)
  then have a: "a \<in> I" "a \<noteq> i" using assms by simp_all
  show ?thesis
    unfolding Envelope
    by (cases b; simp only: dispatch.simps envelope.sel)
      (rule runs_handle_request_vote [OF a] runs_handle_request_vote_reply [OF a(1)]
        runs_handle_append_entries [OF a] runs_handle_append_entries_reply [OF a])+
qed

lemma runs_step_env:
  assumes "src env \<in> I" "src env \<noteq> i"
  shows "runs I i (\<lambda>s n. ok I i s n \<and> body_ok I s (src env) i (ebody env)) (node_step (recorder_env ri) env)
    (\<lambda>out s n. ok I i s n \<and> outbox n = [] \<and> (\<forall>env\<in>set out. msg_ok I s env))"
proof -
  have "runs I i (\<lambda>s n. ok I i s n \<and> body_ok I s (src env) i (ebody env)) (modify (\<lambda>n. n\<lparr>outbox := []\<rparr>))
      (\<lambda>_ s n. ok I i s n \<and> body_ok I s (src env) i (ebody env))"
    by (rule runs_modify) (simp add: node_ok_def leads_ok_def recorder_ok_def)
  then show ?thesis
    unfolding node_step_def by (rule runs_bind) (rule runs_bind [OF runs_dispatch [OF assms] runs_drain])
qed

lemma runs_append:
  "runs I i (\<lambda>s n. ok I i s n \<and> role n = LEADER)
    (modify (\<lambda>n. n\<lparr>outbox := [], nlog := append_new (LogEntry (current_term n) c) (nlog n)\<rparr>))
    (\<lambda>_ s n. node_ok I s i n \<and> role n = LEADER)"
proof (rule runs_step, intro exI conjI impI)
  fix s :: "(nat, 'a) rstate" and n :: "('a, 'b) rnode"
  let ?e = "LogEntry (current_term n) c"
  let ?s = "lead_with i (alog s i @ [?e]) s"
  assume inv: "raft_inv (majority I) s" and a: "ok I i s n \<and> role n = LEADER"
  then have n: "node_ok I s i n" "role n = LEADER" by auto
  note d = node_okD [OF n(1)]
  let ?m = "n\<lparr>outbox := []\<rparr>"
  let ?n = "?m\<lparr>nlog := append_new ?e (nlog n)\<rparr>"
  have n0: "node_ok I s i ?m" using n by (simp add: node_ok_def leads_ok_def recorder_ok_def)
  show "rstep (majority I) s ?s" by (rule r_append) (use d(6,8) n in auto)
  show "\<forall>j. j \<noteq> i \<longrightarrow> aterm ?s j = aterm s j \<and> avote ?s j = avote s j \<and> arole ?s j = arole s j
      \<and> alog ?s j = alog s j \<and> acommit ?s j = acommit s j" by (simp add: lead_with_def)
  assume g: "moves I i s ?s"
  have "leads_ok I ?s i ?n" using d(11) [OF n(2)] unfolding leads_ok_def by (force simp: lead_with_def)
  then have "node_ok I ?s i ?n"
    using d(6-10) n by (intro node_ok_change [OF n0 g]) (simp_all add: lead_with_def append_new_def)
  then show "node_ok I ?s i (n\<lparr>outbox := [], nlog := append_new ?e (nlog n)\<rparr>)" by simp
  show "role (n\<lparr>outbox := [], nlog := append_new ?e (nlog n)\<rparr>) = LEADER" using n by simp
qed

lemma runs_propose:
  "runs I i (\<lambda>s n. ok I i s n \<and> role n = LEADER) (propose (recorder_env ri) c)
    (\<lambda>(index, out) s n. ok I i s n \<and> outbox n = [] \<and> (\<forall>env\<in>set out. msg_ok I s env))"
proof -
  have 1: "runs I i (\<lambda>s n. (node_ok I s i n \<and> role n = LEADER) \<and> x = last_index (nlog n)) persist
      (\<lambda>_ s n. node_ok I s i n \<and> persisted n \<and> role n = LEADER)" for x
    by (rule runs_persist) auto
  have 2: "runs I i (\<lambda>s n. node_ok I s i n \<and> persisted n \<and> role n = LEADER) broadcast_append
      (\<lambda>_ s n. node_ok I s i n \<and> role n = LEADER \<and> persisted n)"
    by (rule runs_pre [OF _ runs_broadcast [where R = persisted]]) auto
  have 3: "runs I i (\<lambda>s n. node_ok I s i n \<and> role n = LEADER \<and> persisted n) (maybe_advance_commit (recorder_env ri)) (\<lambda>_. ok I i)"
    by (rule runs_maybe_advance [where R = persisted]) (simp_all add: persisted_def)
  have 4: "runs I i (\<lambda>s n. ok I i s n \<and> role n = LEADER)
     (bindS (modify (\<lambda>s. s\<lparr>outbox := [], nlog := append_new (LogEntry (current_term s) c) (nlog s)\<rparr>)) (\<lambda>_.
         bindS (gets (\<lambda>s. last_index (nlog s))) (\<lambda>index.
         bindS persist (\<lambda>_. bindS broadcast_append (\<lambda>_. bindS (maybe_advance_commit (recorder_env ri)) (\<lambda>_.
         bindS drain (\<lambda>out. ret (index, out))))))))
     (\<lambda>(index, out) s n. ok I i s n \<and> outbox n = [] \<and> (\<forall>env\<in>set out. msg_ok I s env))"
    by (rule runs_bind [OF runs_append], rule runs_bind [OF runs_gets], rule runs_bind [OF 1], rule runs_bind [OF 2],
        rule runs_bind [OF 3], rule runs_bind [OF runs_drain], rule runs_pre [OF _ runs_ret]) simp
  show ?thesis
    unfolding propose_def
  proof (rule runs_bind [OF runs_gets], rule runs_if, goal_cases)
    case (1 r)
    then show ?case by (intro runsI) simp
  next
    case (2 r)
    show ?case by (rule runs_pre [OF _ 4]) simp
  qed
qed

section \<open>The network\<close>

definition net_ok :: "nat set \<Rightarrow> (nat, 'v) rstate \<Rightarrow> ('v, 'g) net \<Rightarrow> bool" where
  "net_ok I s c \<longleftrightarrow> raft_inv (majority I) s \<and> (\<forall>i\<in>I. ok I i s (nnodes c i)) \<and> (\<forall>env\<in>sent c. msg_ok I s env)"

lemma RaftNode_eq:
  "\<exists>x g'. RaftNode E i ps m l g cfg k = \<lparr>node_id = i, peers = ps, cluster_size = length ps + 1, nlog = l, rng = g', config = cfg,
        current_term = log_term l, voted_for = log_voted_for l, role = FOLLOWER, leader_id = None,
        commit_index = 0, last_applied = k, votes = {}, next_index = Map.empty, match_index = Map.empty,
        election_elapsed = 0, heartbeat_elapsed = 0, election_timeout = x, outbox = [], machine = m\<rparr>"
  by (simp add: RaftNode_def reset_election_timer_def modify_def Let_def split: prod.splits)

lemma peers_card:
  assumes "set ps = I - {i}" "distinct ps" "i \<in> I"
  shows "card I = length ps + 1"
proof -
  have I: "I = insert i (set ps)" "i \<notin> set ps" using assms by auto
  show ?thesis unfolding I(1) using I(2) by (simp add: distinct_card [OF assms(2)])
qed

lemma fresh_ok:
  fixes n :: "('v, 'g) rnode"
  assumes i: "i \<in> I" and f: "fresh_node ri I i n"
  shows "ok I i rinit n"
proof -
  obtain ps g cfg b where ps: "set ps = I - {i}" "distinct ps"
    and n: "n = RaftNode (recorder_env ri) i ps Recorder (RaftLog b None) g cfg 0"
    using f unfolding fresh_node_def by blast
  have "card I = length ps + 1" by (rule peers_card [OF ps i])
  moreover obtain x g' where "n = \<lparr>node_id = i, peers = ps, cluster_size = length ps + 1, nlog = RaftLog b None, rng = g', config = cfg,
        current_term = log_term (RaftLog b None :: (nat, 'v) raft_log), voted_for = log_voted_for (RaftLog b None :: (nat, 'v) raft_log),
        role = FOLLOWER, leader_id = None,
        commit_index = 0, last_applied = 0, votes = {}, next_index = Map.empty, match_index = Map.empty,
        election_elapsed = 0, heartbeat_elapsed = 0, election_timeout = x, outbox = [], machine = Recorder\<rparr>"
    using RaftNode_eq [of "recorder_env ri" i ps Recorder "RaftLog b None" g cfg 0] unfolding n by blast
  ultimately show ?thesis
    using ps i by (simp add: node_ok_def persisted_def rinit_def RaftLog_def recorder_ok_def committed_to_def Recorder_def)
qed

lemma restart_ok:
  assumes inv: "raft_inv (majority I) s" and n: "ok I i s n" and r: "restarted_node ri n n'"
  shows "\<exists>s'. moves I i s s' \<and> raft_inv (majority I) s' \<and> ok I i s' n'"
proof -
  let ?s = "s\<lparr>arole := (arole s)(i := FOLLOWER)\<rparr>"
  let ?s' = "?s\<lparr>acommit := (acommit ?s)(i := 0)\<rparr>"
  have 1: "moves I i s ?s \<and> raft_inv (majority I) ?s" by (rule move_step [OF inv r_follow]) simp
  then have inv1: "raft_inv (majority I) ?s" by simp
  have 2: "moves I i ?s ?s' \<and> raft_inv (majority I) ?s'" by (rule move_step [OF inv1 r_forget]) simp
  obtain l ps g cfg where l: "l = nlog n \<or> path (nlog n) \<and> l = RaftLog True (saved (nlog n))"
    and ps: "set ps = set (peers n)" "distinct ps"
    and n': "n' = RaftNode (recorder_env ri) (node_id n) ps (machine n) l g cfg (applied_index (machine n))"
    using r unfolding restarted_node_def by blast
  have l: "l = nlog n" using l n by (auto simp: persisted_def)
  have "node_ok I s i n" using n by simp
  note d = node_okD [OF this]
  have "card I = length ps + 1" using peers_card [of ps I i] d(1,3) ps by simp
  moreover obtain x g' where e: "n' = \<lparr>node_id = node_id n, peers = ps, cluster_size = length ps + 1, nlog = nlog n, rng = g', config = cfg,
        current_term = log_term (nlog n), voted_for = log_voted_for (nlog n), role = FOLLOWER, leader_id = None,
        commit_index = 0, last_applied = applied_index (machine n), votes = {}, next_index = Map.empty, match_index = Map.empty,
        election_elapsed = 0, heartbeat_elapsed = 0, election_timeout = x, outbox = [], machine = machine n\<rparr>"
    using RaftNode_eq [of "recorder_env ri" "node_id n" ps "machine n" "nlog n" g cfg "applied_index (machine n)"]
    unfolding n' l by blast
  moreover have "recorder_ok I ?s' i n'"
    using recorder_ok_moves [OF d(12), of i ?s'] moves_trans [of I i s ?s ?s'] 1 2
    unfolding recorder_ok_def e by auto
  ultimately have "ok I i ?s' n'"
    using d(1-10) n ps by (simp add: node_ok_def persisted_def)
  then show ?thesis using moves_trans 1 2 by blast
qed

text \<open>A node that moved and sent messages that are true: the network stays related.\<close>

lemma net_ok_move:
  assumes "net_ok I s c" "moves I i s s'" "raft_inv (majority I) s'" "ok I i s' n" "\<forall>env\<in>set out. msg_ok I s' env"
  shows "net_ok I s' (c\<lparr>nnodes := (nnodes c)(i := n), sent := sent c \<union> set out\<rparr>)"
proof -
  have "node_ok I s' j (nnodes c j)" if "j \<in> I" "j \<noteq> i" for j
    by (rule node_ok_other [OF _ assms(2) that(2)]) (use assms(1) that in \<open>simp add: net_ok_def\<close>)
  then show ?thesis using assms msg_ok_grows [OF _ moves_grows [OF assms(2)]] by (auto simp: net_ok_def)
qed

lemma net_runs:
  assumes c: "net_ok I s c" and r: "runs I i P m Q" and P: "P s (nnodes c i)" and m: "m (nnodes c i) = (Inr x, n)"
    and Q: "\<And>s n. Q x s n \<Longrightarrow> ok I i s n \<and> (\<forall>env\<in>set out. msg_ok I s env)"
  shows "\<exists>s'. grows s s' \<and> net_ok I s' (c\<lparr>nnodes := (nnodes c)(i := n), sent := sent c \<union> set out\<rparr>)"
proof -
  have inv: "raft_inv (majority I) s" using c by (simp add: net_ok_def)
  obtain s' where s': "moves I i s s'" "raft_inv (majority I) s'" "Q x s' n"
    by (rule runsE [OF r inv P]) (use m in auto)
  show ?thesis using net_ok_move [OF c s'(1,2)] Q [OF s'(3)] moves_grows [OF s'(1)] by blast
qed

lemma propose_leads: "propose E cmd n = (Inr x, n') \<Longrightarrow> role n = LEADER"
  by (auto simp: propose_def bindS_def act_defs split: if_splits)

lemma net_step_ok:
  assumes c: "net_ok I s c" and st: "net_step ri I c c'"
  shows "\<exists>s'. grows s s' \<and> net_ok I s' c'"
  using st
proof cases
  case (net_tick i out n)
  have "ok I i s (nnodes c i)" using c net_tick(2) by (simp add: net_ok_def)
  then show ?thesis unfolding net_tick(1) by (rule net_runs [OF c runs_tick _ net_tick(3)]) blast
next
  case (net_deliver env out n)
  have e: "msg_ok I s env" using c net_deliver(2) by (simp add: net_ok_def)
  then have d: "dst env \<in> I" and a: "src env \<in> I" "src env \<noteq> dst env" by (simp_all add: msg_ok_def)
  then have "ok I (dst env) s (nnodes c (dst env)) \<and> body_ok I s (src env) (dst env) (ebody env)"
    using c e by (simp add: net_ok_def msg_ok_def)
  then show ?thesis unfolding net_deliver(1) by (rule net_runs [OF c runs_step_env [OF a] _ net_deliver(3)]) blast
next
  case (net_propose i cmd index out n)
  have "ok I i s (nnodes c i) \<and> role (nnodes c i) = LEADER"
    using c net_propose(2) propose_leads [OF net_propose(3)] by (simp add: net_ok_def)
  then show ?thesis unfolding net_propose(1) by (rule net_runs [OF c runs_propose _ net_propose(3)]) simp
next
  case (net_restart i n)
  have n: "raft_inv (majority I) s" "ok I i s (nnodes c i)" using c net_restart(2) by (simp_all add: net_ok_def)
  obtain s' where s': "moves I i s s'" "raft_inv (majority I) s'" "ok I i s' n" using restart_ok [OF n net_restart(3)] by blast
  show ?thesis
    using net_ok_move [OF c s', of "[]"] moves_grows [OF s'(1)] unfolding net_restart(1) by auto
qed

lemma net_reach_ok: "net_reach ri I c \<Longrightarrow> \<exists>s. net_ok I s c"
proof (induction rule: net_reach.induct)
  case (net_init c)
  then have "\<forall>i\<in>I. ok I i rinit (nnodes c i)" using fresh_ok by blast
  then have "net_ok I rinit c" using net_init(2) by (simp add: net_ok_def raft_inv_init)
  then show ?case by blast
next
  case (net_next c c')
  then show ?case using net_step_ok by blast
qed

lemma net_steps_ok: "(net_step ri I)\<^sup>*\<^sup>* c c' \<Longrightarrow> net_ok I s c \<Longrightarrow> \<exists>s'. grows s s' \<and> net_ok I s' c'"
proof (induction rule: rtranclp_induct)
  case base
  then show ?case using grows_refl by blast
next
  case (step c' c'')
  then show ?case using net_step_ok grows_trans by blast
qed

end
