(* ===== verification/RaftSim.thy ===== *)
theory RaftSim
  imports RaftDrive
begin

text \<open>
  No operation of a node with the recorder raises in a network, and the simulated cluster is such a network:
  whatever rounds, writes, crashes, restarts and partitions happen, its nodes are those of a
  state that the network reaches, with every message in flight among the sent ones.
\<close>

section \<open>Operations return\<close>

lemma runs_returns:
  assumes "net_ok I s c" "runs I i P m Q" "P s (nnodes c i)"
  obtains x n s' where "m (nnodes c i) = (Inr x, n)" "Q x s' n"
  by (rule runsE [OF assms(2) _ assms(3)]) (use assms(1) in \<open>auto simp: net_ok_def\<close>)

lemma tick_returns:
  assumes "net_reach ri I c" "i \<in> I"
  obtains out n where "node_tick (recorder_env ri) (nnodes c i) = (Inr out, n)"
proof -
  obtain s where s: "net_ok I s c" using net_reach_ok [OF assms(1)] by blast
  show ?thesis by (rule runs_returns [OF s runs_tick [of I i ri]]) (use s assms(2) that in \<open>auto simp: net_ok_def\<close>)
qed

lemma step_returns:
  assumes "net_reach ri I c" "env \<in> sent c"
  obtains out n where "node_step (recorder_env ri) env (nnodes c (dst env)) = (Inr out, n)"
proof -
  obtain s where s: "net_ok I s c" using net_reach_ok [OF assms(1)] by blast
  then have e: "msg_ok I s env" using assms(2) by (simp add: net_ok_def)
  then have a: "src env \<in> I" "src env \<noteq> dst env" by (simp_all add: msg_ok_def)
  have "ok I (dst env) s (nnodes c (dst env)) \<and> body_ok I s (src env) (dst env) (ebody env)"
    using s e by (simp add: net_ok_def msg_ok_def)
  then show ?thesis by (rule runs_returns [OF s runs_step_env [OF a, where ri = ri]]) (use that in blast)
qed

lemma propose_returns:
  assumes "net_reach ri I c" "i \<in> I" "role (nnodes c i) = LEADER"
  obtains index out n where "propose (recorder_env ri) cmd (nnodes c i) = (Inr (index, out), n)"
proof -
  obtain s where s: "net_ok I s c" using net_reach_ok [OF assms(1)] by blast
  then have "ok I i s (nnodes c i) \<and> role (nnodes c i) = LEADER" using assms(2,3) by (simp add: net_ok_def)
  then show ?thesis by (rule runs_returns [OF s runs_propose [where ri = ri]]) (use that in auto)
qed

section \<open>The cluster is a network\<close>

definition sim_net ::
  "(nat \<Rightarrow> nat \<Rightarrow> 'g \<Rightarrow> nat \<times> 'g) \<Rightarrow> ('v, 'g) sim_cluster \<Rightarrow> (nat, 'v) envelope set \<Rightarrow> bool" where
  "sim_net ri c S \<longleftrightarrow> net_reach ri (set (ids c)) \<lparr>nnodes = nodes c, sent = S\<rparr> \<and> sim_env c = recorder_env ri
     \<and> (\<forall>(due, env)\<in>set (inflight c). env \<in> S)"

text \<open>The parts of a cluster that only its own operations change.\<close>

definition same_net :: "('v, 'g) sim_cluster \<Rightarrow> ('v, 'g) sim_cluster \<Rightarrow> bool" where
  "same_net c c' \<longleftrightarrow> (\<exists>ns. c' = c\<lparr>nodes := ns\<rparr>)"

lemma same_netD: "same_net c c' \<Longrightarrow> ids c' = ids c \<and> inflight c' = inflight c \<and> sim_env c' = sim_env c \<and> down c' = down c"
  by (auto simp: same_net_def)

lemma same_net_refl [simp]: "same_net c c"
  unfolding same_net_def by (intro exI [of _ "nodes c"]) simp

lemma same_net_trans: "same_net c c' \<Longrightarrow> same_net c' c'' \<Longrightarrow> same_net c c''"
  by (auto simp: same_net_def)

lemma sim_net_node:
  assumes "sim_net ri c S" "net_step ri (set (ids c)) \<lparr>nnodes = nodes c, sent = S\<rparr> \<lparr>nnodes = (nodes c)(i := n), sent = S \<union> set out\<rparr>"
  shows "sim_net ri (c\<lparr>nodes := (nodes c)(i := n)\<rparr>) (S \<union> set out)"
  using assms net_reach.net_next by (fastforce simp: sim_net_def)

lemma on_node_tick:
  assumes c: "sim_net ri c S" and i: "i \<in> set (ids c)"
  shows "\<exists>out c'. on_node i (node_tick (sim_env c)) c = (Inr out, c') \<and> sim_net ri c' (S \<union> set out) \<and> same_net c c'"
proof -
  let ?c = "\<lparr>nnodes = nodes c, sent = S\<rparr>"
  have r: "net_reach ri (set (ids c)) ?c" "sim_env c = recorder_env ri" using c by (simp_all add: sim_net_def)
  obtain out n where n: "node_tick (recorder_env ri) (nodes c i) = (Inr out, n)"
    by (rule tick_returns [OF r(1) i]) simp
  have "net_step ri (set (ids c)) ?c \<lparr>nnodes = (nodes c)(i := n), sent = S \<union> set out\<rparr>"
    using net_step.net_tick [OF i, of ri ?c out n] n by simp
  from sim_net_node [OF c this] show ?thesis using n r(2) by (auto simp: on_node_def same_net_def)
qed

lemma on_node_step:
  assumes c: "sim_net ri c S" and e: "env \<in> S"
  shows "\<exists>out c'. on_node (dst env) (node_step (sim_env c) env) c = (Inr out, c') \<and> sim_net ri c' (S \<union> set out) \<and> same_net c c'"
proof -
  let ?c = "\<lparr>nnodes = nodes c, sent = S\<rparr>"
  have r: "net_reach ri (set (ids c)) ?c" "sim_env c = recorder_env ri" using c by (simp_all add: sim_net_def)
  obtain out n where n: "node_step (recorder_env ri) env (nodes c (dst env)) = (Inr out, n)"
    by (rule step_returns [OF r(1), of env]) (use e in simp_all)
  have "net_step ri (set (ids c)) ?c \<lparr>nnodes = (nodes c)(dst env := n), sent = S \<union> set out\<rparr>"
    using net_step.net_deliver [of env ?c ri out n] n e by simp
  from sim_net_node [OF c this] show ?thesis using n r(2) by (auto simp: on_node_def same_net_def)
qed

lemma deliver_all_net:
  "sim_net ri c S \<Longrightarrow> set envs \<subseteq> S \<Longrightarrow>
     \<exists>out c' S'. deliver_all envs c = (Inr out, c') \<and> sim_net ri c' S' \<and> S \<union> set out \<subseteq> S' \<and> same_net c c'"
proof (induction envs arbitrary: c S)
  case Nil
  then show ?case by (auto simp: ret_def)
next
  case (Cons env envs)
  obtain out c1 where 1: "(if deliverable c env then (\<lambda>c. on_node (dst env) (node_step (sim_env c) env) c) else ret []) c = (Inr out, c1)"
    "sim_net ri c1 (S \<union> set out)" "same_net c c1"
  proof (cases "deliverable c env")
    case True
    then show ?thesis using on_node_step [OF Cons.prems(1), of env] Cons.prems(2) that by auto
  next
    case False
    then show ?thesis using that [of "[]" c] Cons.prems(1) by (simp add: ret_def)
  qed
  obtain outs c2 S2 where 2: "deliver_all envs c1 = (Inr outs, c2)" "sim_net ri c2 S2" "(S \<union> set out) \<union> set outs \<subseteq> S2" "same_net c1 c2"
  proof -
    have "set envs \<subseteq> S \<union> set out" using Cons.prems(2) by auto
    from Cons.IH [OF 1(2) this] show ?thesis using that by blast
  qed
  have "deliver_all (env # envs) c = (Inr (out @ outs), c2)" using 1(1) 2(1) by (simp add: bindS_def act_defs)
  then show ?case using 2(2,3) same_net_trans [OF 1(3) 2(4)] by (intro exI [of _ "out @ outs"] exI [of _ c2] exI [of _ S2]) auto
qed

lemma tick_all_net:
  "sim_net ri c S \<Longrightarrow> set is \<subseteq> set (ids c) \<Longrightarrow>
     \<exists>out c' S'. tick_all is c = (Inr out, c') \<and> sim_net ri c' S' \<and> S \<union> set out \<subseteq> S' \<and> same_net c c'"
proof (induction "is" arbitrary: c S)
  case Nil
  then show ?case by (auto simp: ret_def)
next
  case (Cons i "is")
  obtain out c1 where 1: "(if i \<notin> down c then (\<lambda>c. on_node i (node_tick (sim_env c)) c) else ret []) c = (Inr out, c1)"
    "sim_net ri c1 (S \<union> set out)" "same_net c c1"
  proof (cases "i \<notin> down c")
    case True
    then show ?thesis using on_node_tick [OF Cons.prems(1), of i] Cons.prems(2) that by auto
  next
    case False
    then show ?thesis using that [of "[]" c] Cons.prems(1) by (simp add: ret_def)
  qed
  obtain outs c2 S2 where 2: "tick_all is c1 = (Inr outs, c2)" "sim_net ri c2 S2" "(S \<union> set out) \<union> set outs \<subseteq> S2" "same_net c1 c2"
  proof -
    have "set is \<subseteq> set (ids c1)" using Cons.prems(2) same_netD [OF 1(3)] by auto
    from Cons.IH [OF 1(2) this] show ?thesis using that by blast
  qed
  have "tick_all (i # is) c = (Inr (out @ outs), c2)" using 1(1) 2(1) by (simp add: bindS_def act_defs)
  then show ?case using 2(2,3) same_net_trans [OF 1(3) 2(4)] by (intro exI [of _ "out @ outs"] exI [of _ c2] exI [of _ S2]) auto
qed

lemma sim_step_net:
  assumes c: "sim_net ri c S"
  shows "\<exists>c' S'. sim_step c = (Inr (), c') \<and> sim_net ri c' S' \<and> ids c' = ids c \<and> S \<subseteq> S'"
proof -
  let ?c = "c\<lparr>tick_no := tick_no c + 1\<rparr>"
  let ?ready = "map snd (filter (\<lambda>(due, env). due \<le> tick_no ?c) (inflight ?c))"
  let ?d = "?c\<lparr>inflight := filter (\<lambda>(due, env). due > tick_no ?c) (inflight ?c)\<rparr>"
  have d: "sim_net ri ?d S" using c by (auto simp: sim_net_def)
  have "set ?ready \<subseteq> S" using c by (auto simp: sim_net_def)
  from deliver_all_net [OF d this] obtain out c1 S1 where 1: "deliver_all ?ready ?d = (Inr out, c1)" "sim_net ri c1 S1"
    "S \<union> set out \<subseteq> S1" "same_net ?d c1" by blast
  obtain outs c2 S2 where 2: "tick_all (ids c1) c1 = (Inr outs, c2)" "sim_net ri c2 S2" "S1 \<union> set outs \<subseteq> S2" "same_net c1 c2"
    using tick_all_net [OF 1(2) subset_refl] by blast
  have "sim_step c = (Inr (), enqueue (out @ outs) c2)"
    using 1(1) 2(1) by (simp add: sim_step_def bindS_def act_defs)
  moreover have "sim_net ri (enqueue (out @ outs) c2) S2" using 1(3) 2(2,3) by (auto simp: sim_net_def enqueue_def)
  moreover have "ids (enqueue (out @ outs) c2) = ids c" using same_netD [OF 1(4)] same_netD [OF 2(4)] by (simp add: enqueue_def)
  ultimately show ?thesis using 1(3) 2(3) by (intro exI [of _ "enqueue (out @ outs) c2"] exI [of _ S2]) auto
qed

lemma leader_leads: "leader c = Some i \<Longrightarrow> i \<in> set (ids c) \<and> role (nodes c i) = LEADER \<and> i \<notin> down c"
proof -
  assume "leader c = Some i"
  then obtain xs where "sort_key (\<lambda>i. - int (current_term (nodes c i))) (leaders c) = i # xs"
    by (auto simp: leader_def split: list.splits)
  then have "i \<in> set (leaders c)" by (metis list.set_intros(1) set_sort)
  then show ?thesis by (simp add: leaders_def is_leader_def)
qed

lemma client_write_net:
  assumes c: "sim_net ri c S" and l: "leader c = Some i"
  shows "\<exists>index c' S'. client_write cmd c = (Inr index, c') \<and> sim_net ri c' S' \<and> ids c' = ids c \<and> S \<subseteq> S'"
proof -
  let ?c = "\<lparr>nnodes = nodes c, sent = S\<rparr>"
  have r: "net_reach ri (set (ids c)) ?c" "sim_env c = recorder_env ri" using c by (simp_all add: sim_net_def)
  have i: "i \<in> set (ids c)" "role (nnodes ?c i) = LEADER" using leader_leads [OF l] by simp_all
  obtain index out n where n: "propose (recorder_env ri) cmd (nodes c i) = (Inr (index, out), n)"
    by (rule propose_returns [OF r(1) i]) simp
  have "net_step ri (set (ids c)) ?c \<lparr>nnodes = (nodes c)(i := n), sent = S \<union> set out\<rparr>"
    using net_step.net_propose [OF i(1), of ri cmd ?c index out n] n by simp
  from sim_net_node [OF c this] have "sim_net ri (enqueue out (c\<lparr>nodes := (nodes c)(i := n)\<rparr>)) (S \<union> set out)"
    by (auto simp: sim_net_def enqueue_def)
  moreover have "client_write cmd c = (Inr index, enqueue out (c\<lparr>nodes := (nodes c)(i := n)\<rparr>))"
    using n l r(2) by (simp add: client_write_def bindS_def act_defs on_node_def)
  ultimately show ?thesis
    by (intro exI [of _ index] exI [of _ "enqueue out (c\<lparr>nodes := (nodes c)(i := n)\<rparr>)"] exI [of _ "S \<union> set out"]) (simp add: enqueue_def)
qed

section \<open>Runs of a cluster\<close>

inductive sim_reach :: "(nat \<Rightarrow> nat \<Rightarrow> 'g \<Rightarrow> nat \<times> 'g) \<Rightarrow> ('v, 'g) sim_cluster \<Rightarrow> bool"
  for ri :: "nat \<Rightarrow> nat \<Rightarrow> 'g \<Rightarrow> nat \<times> 'g" where
  sim_init: "sim_reach ri (SimCluster (recorder_env ri) R num sd cfg lat)"
| sim_round: "sim_reach ri c \<Longrightarrow> sim_step c = (x, c') \<Longrightarrow> sim_reach ri c'"
| sim_write: "sim_reach ri c \<Longrightarrow> client_write cmd c = (x, c') \<Longrightarrow> sim_reach ri c'"
| sim_crash: "sim_reach ri c \<Longrightarrow> i \<in> set (ids c) \<Longrightarrow> sim_reach ri (crash i c)"
| sim_restart: "sim_reach ri c \<Longrightarrow> i \<in> set (ids c) \<Longrightarrow> sim_reach ri (restart i c)"
| sim_partition: "sim_reach ri c \<Longrightarrow> sim_reach ri (make_partition gs c)"
| sim_heal: "sim_reach ri c \<Longrightarrow> sim_reach ri (heal c)"

lemma sim_init_net: "sim_net ri (SimCluster (recorder_env ri) R num sd cfg lat) {}"
proof -
  let ?c = "SimCluster (recorder_env ri) R num sd cfg lat"
  have "fresh_node ri (set (ids ?c)) i (nodes ?c i)" if "i \<in> set (ids ?c)" for i
    unfolding fresh_node_def
  proof (intro exI conjI)
    show "set (filter (\<lambda>j. j \<noteq> i) [0..<num]) = set (ids ?c) - {i}" by (auto simp: SimCluster_def Let_def)
    show "nodes ?c i = RaftNode (recorder_env ri) i (filter (\<lambda>j. j \<noteq> i) [0..<num]) Recorder (RaftLog False None)
        (R (1000 + i + 7 * sd)) cfg 0" by (simp add: SimCluster_def Let_def create_node_def)
  qed simp
  then have "net_reach ri (set (ids ?c)) \<lparr>nnodes = nodes ?c, sent = {}\<rparr>" by (intro net_reach.net_init) simp_all
  then show ?thesis by (simp add: sim_net_def) (simp add: SimCluster_def Let_def)
qed

lemma node_of_cluster:
  assumes "net_reach ri I c" "i \<in> I"
  shows "node_id (nnodes c i) = i" "set (peers (nnodes c i)) = I - {i}"
proof -
  obtain s where "net_ok I s c" using net_reach_ok [OF assms(1)] by blast
  then have n: "node_ok I s i (nnodes c i)" using assms(2) by (simp add: net_ok_def)
  show "node_id (nnodes c i) = i" "set (peers (nnodes c i)) = I - {i}" by (rule node_okD [OF n])+
qed

lemma restart_net:
  assumes c: "sim_net ri c S" and i: "i \<in> set (ids c)" and d: "distinct (ids c)"
  shows "sim_net ri (restart i c) S"
proof -
  let ?n = "create_node c i (nlog (nodes c i)) (machine (nodes c i)) (applied_index (machine (nodes c i)))"
  have r: "net_reach ri (set (ids c)) \<lparr>nnodes = nodes c, sent = S\<rparr>" "sim_env c = recorder_env ri"
    using c by (simp_all add: sim_net_def)
  have "set (filter (\<lambda>j. j \<noteq> i) (ids c)) = set (peers (nodes c i))" "node_id (nodes c i) = i"
    using node_of_cluster [OF r(1) i] by auto
  then have "restarted_node ri (nodes c i) ?n"
    using d r(2) unfolding restarted_node_def create_node_def
    by (intro exI [of _ "nlog (nodes c i)"] exI [of _ "filter (\<lambda>j. j \<noteq> i) (ids c)"]
        exI [of _ "Random c (1000 + i + 7 * seed c)"] exI [of _ "sim_config c"]) simp
  then have "net_step ri (set (ids c)) \<lparr>nnodes = nodes c, sent = S\<rparr> \<lparr>nnodes = (nodes c)(i := ?n), sent = S\<rparr>"
    using net_step.net_restart [OF i, of ri "\<lparr>nnodes = nodes c, sent = S\<rparr>" ?n] by simp
  then have "net_reach ri (set (ids c)) \<lparr>nnodes = (nodes c)(i := ?n), sent = S\<rparr>" using c net_reach.net_next by (auto simp: sim_net_def)
  then show ?thesis using c by (simp add: sim_net_def restart_def Let_def)
qed

lemma sim_reach_net: "sim_reach ri c \<Longrightarrow> (\<exists>S. sim_net ri c S) \<and> distinct (ids c)"
proof (induction rule: sim_reach.induct)
  case (sim_init R num sd cfg lat)
  have "distinct (ids (SimCluster (recorder_env ri) R num sd cfg lat))" by (simp add: SimCluster_def Let_def)
  then show ?case using sim_init_net by blast
next
  case (sim_round c x c')
  then show ?case using sim_step_net [of ri c] by fastforce
next
  case (sim_write c cmd x c')
  show ?case
  proof (cases "leader c")
    case None
    then show ?thesis using sim_write by (simp add: client_write_def bindS_def act_defs)
  next
    case (Some i)
    obtain S where S: "sim_net ri c S" "distinct (ids c)" using sim_write(3) by blast
    obtain index c1 S1 where "client_write cmd c = (Inr index, c1)" "sim_net ri c1 S1" "ids c1 = ids c"
      using client_write_net [OF S(1) Some] by blast
    then show ?thesis using sim_write(2) S(2) by auto
  qed
next
  case (sim_restart c i)
  then show ?case using restart_net [of ri c] by (fastforce simp: restart_def Let_def)
qed (auto simp: sim_net_def crash_def make_partition_def heal_def)

end
