(* ===== verification/RaftMachine.thy ===== *)
theory RaftMachine
  imports RaftCluster
begin

text \<open>
  A node does the same with every state machine. Beside a run of an operation of \<open>raft/node.py\<close> with
  the recorder stands the run with any other state machine behind the same node: the two take
  the same decisions and send the same messages, until the other state machine raises, which
  is then what the operation raises.
\<close>

definition with_machine :: "'m \<Rightarrow> ('i, 'v, 'a, 'g) raft_node \<Rightarrow> ('i, 'v, 'm, 'g) raft_node" where
  "with_machine m n = \<lparr>node_id = node_id n, peers = peers n, cluster_size = cluster_size n, nlog = nlog n, rng = rng n,
     config = config n, current_term = current_term n, voted_for = voted_for n, role = role n, leader_id = leader_id n,
     commit_index = commit_index n, last_applied = last_applied n, votes = votes n, next_index = next_index n,
     match_index = match_index n, election_elapsed = election_elapsed n, heartbeat_elapsed = heartbeat_elapsed n,
     election_timeout = election_timeout n, outbox = outbox n, machine = m\<rparr>"

definition apply_raises :: "('v, 'm, 'g) raft_env \<Rightarrow> py_error \<Rightarrow> bool" where
  "apply_raises E e \<longleftrightarrow> (\<exists>index c m m'. apply_fn E index c m = (Inl e, m'))"

definition mirrors ::
  "('v, 'm, 'g) raft_env \<Rightarrow> (('i, 'v, 'v recorder, 'g) raft_node, 'x) act \<Rightarrow> (('i, 'v, 'm, 'g) raft_node, 'x) act \<Rightarrow> bool" where
  "mirrors E A B \<longleftrightarrow> (\<forall>n m. (\<exists>m'. B (with_machine m n) = (fst (A n), with_machine m' (snd (A n))))
     \<or> (\<exists>e s. B (with_machine m n) = (Inl e, s) \<and> apply_raises E e))"

named_theorems mirror \<open>actions that mirror each other\<close>

section \<open>Composition\<close>

lemma mirrorsI:
  "(\<And>n m. \<exists>m'. B (with_machine m n) = (fst (A n), with_machine m' (snd (A n)))) \<Longrightarrow> mirrors E A B"
  by (simp add: mirrors_def)

lemma mirrors_bind [mirror]:
  assumes "mirrors E A B" "\<And>x. mirrors E (f x) (g x)"
  shows "mirrors E (bindS A f) (bindS B g)"
  unfolding mirrors_def
proof (intro allI)
  fix n m
  let ?r = "(\<exists>m'. bindS B g (with_machine m n) = (fst (bindS A f n), with_machine m' (snd (bindS A f n))))
     \<or> (\<exists>e s. bindS B g (with_machine m n) = (Inl e, s) \<and> apply_raises E e)"
  consider m' where "B (with_machine m n) = (fst (A n), with_machine m' (snd (A n)))"
    | e s where "B (with_machine m n) = (Inl e, s)" "apply_raises E e"
    using assms(1) unfolding mirrors_def by blast
  then show ?r
  proof cases
    case 1
    obtain x n1 where a: "A n = (x, n1)" by fastforce
    show ?thesis
    proof (cases x)
      case (Inl e)
      then show ?thesis using 1 a by (auto simp: bindS_def)
    next
      case (Inr y)
      have "(\<exists>m2. g y (with_machine m' n1) = (fst (f y n1), with_machine m2 (snd (f y n1))))
        \<or> (\<exists>e s. g y (with_machine m' n1) = (Inl e, s) \<and> apply_raises E e)"
        using assms(2) [of y] unfolding mirrors_def by blast
      then show ?thesis using 1 a Inr by (simp add: bindS_def)
    qed
  next
    case 2
    then show ?thesis by (auto simp: bindS_def)
  qed
qed

lemma mirrors_ret [mirror]: "mirrors E (ret x) (ret x)"
  by (rule mirrorsI) (auto simp: ret_def)

lemma mirrors_raise [mirror]: "mirrors E (raise x) (raise x)"
  by (rule mirrorsI) (auto simp: raise_def)

lemma mirrors_gets [mirror]: "(\<And>n m. g (with_machine m n) = f n) \<Longrightarrow> mirrors E (gets f) (gets g)"
  by (rule mirrorsI) (auto simp: gets_def)

lemma mirrors_lift [mirror]: "(\<And>n m. g (with_machine m n) = f n) \<Longrightarrow> mirrors E (lift f) (lift g)"
  by (rule mirrorsI) (auto simp: lift_def)

lemma mirrors_modify [mirror]: "(\<And>n m. g (with_machine m n) = with_machine m (f n)) \<Longrightarrow> mirrors E (modify f) (modify g)"
  by (rule mirrorsI) (auto simp: modify_def)

lemma mirrors_if [mirror]: "(b \<Longrightarrow> mirrors E A B) \<Longrightarrow> (\<not> b \<Longrightarrow> mirrors E A' B') \<Longrightarrow> mirrors E (if b then A else A') (if b then B else B')"
  by simp

lemma mirrors_whenS [mirror]: "mirrors E A B \<Longrightarrow> mirrors E (whenS b A) (whenS b B)"
  by (simp add: whenS_def mirrors_ret)

lemma mirrors_for_each [mirror]: "(\<And>x. mirrors E (f x) (g x)) \<Longrightarrow> mirrors E (for_each f xs) (for_each g xs)"
  by (induction xs) (auto intro: mirror)

text \<open>An action that begins by reading the state.\<close>

lemma mirrors_state:
  assumes "\<And>n. mirrors E (F n) (G n)" "\<And>n m. b (with_machine m n) = a n" "\<And>n. A n = F (a n) n" "\<And>n. B n = G (b n) n"
  shows "mirrors E A B"
  unfolding mirrors_def
proof (intro allI)
  fix n m
  show "(\<exists>m'. B (with_machine m n) = (fst (A n), with_machine m' (snd (A n))))
     \<or> (\<exists>e s. B (with_machine m n) = (Inl e, s) \<and> apply_raises E e)"
    using assms(1) [of "a n"] unfolding mirrors_def assms(2,3,4) by blast
qed

section \<open>The operations of a node\<close>

lemma with_machine_sel [simp]:
  "node_id (with_machine m n) = node_id n" "peers (with_machine m n) = peers n" "cluster_size (with_machine m n) = cluster_size n"
  "nlog (with_machine m n) = nlog n" "rng (with_machine m n) = rng n" "config (with_machine m n) = config n"
  "current_term (with_machine m n) = current_term n" "voted_for (with_machine m n) = voted_for n" "role (with_machine m n) = role n"
  "leader_id (with_machine m n) = leader_id n" "commit_index (with_machine m n) = commit_index n"
  "last_applied (with_machine m n) = last_applied n" "votes (with_machine m n) = votes n"
  "next_index (with_machine m n) = next_index n" "match_index (with_machine m n) = match_index n"
  "election_elapsed (with_machine m n) = election_elapsed n" "heartbeat_elapsed (with_machine m n) = heartbeat_elapsed n"
  "election_timeout (with_machine m n) = election_timeout n" "outbox (with_machine m n) = outbox n"
  "machine (with_machine m n) = m"
  by (simp_all add: with_machine_def)

lemma with_machine_upd [simp]:
  "(with_machine m n)\<lparr>nlog := x0\<rparr> = with_machine m (n\<lparr>nlog := x0\<rparr>)"
  "(with_machine m n)\<lparr>rng := x1\<rparr> = with_machine m (n\<lparr>rng := x1\<rparr>)"
  "(with_machine m n)\<lparr>current_term := x2\<rparr> = with_machine m (n\<lparr>current_term := x2\<rparr>)"
  "(with_machine m n)\<lparr>voted_for := x3\<rparr> = with_machine m (n\<lparr>voted_for := x3\<rparr>)"
  "(with_machine m n)\<lparr>role := x4\<rparr> = with_machine m (n\<lparr>role := x4\<rparr>)"
  "(with_machine m n)\<lparr>leader_id := x5\<rparr> = with_machine m (n\<lparr>leader_id := x5\<rparr>)"
  "(with_machine m n)\<lparr>commit_index := x6\<rparr> = with_machine m (n\<lparr>commit_index := x6\<rparr>)"
  "(with_machine m n)\<lparr>last_applied := x7\<rparr> = with_machine m (n\<lparr>last_applied := x7\<rparr>)"
  "(with_machine m n)\<lparr>votes := x8\<rparr> = with_machine m (n\<lparr>votes := x8\<rparr>)"
  "(with_machine m n)\<lparr>next_index := x9\<rparr> = with_machine m (n\<lparr>next_index := x9\<rparr>)"
  "(with_machine m n)\<lparr>match_index := x10\<rparr> = with_machine m (n\<lparr>match_index := x10\<rparr>)"
  "(with_machine m n)\<lparr>election_elapsed := x11\<rparr> = with_machine m (n\<lparr>election_elapsed := x11\<rparr>)"
  "(with_machine m n)\<lparr>heartbeat_elapsed := x12\<rparr> = with_machine m (n\<lparr>heartbeat_elapsed := x12\<rparr>)"
  "(with_machine m n)\<lparr>election_timeout := x13\<rparr> = with_machine m (n\<lparr>election_timeout := x13\<rparr>)"
  "(with_machine m n)\<lparr>outbox := x14\<rparr> = with_machine m (n\<lparr>outbox := x14\<rparr>)"
  by (simp_all add: with_machine_def)

lemma mirrors_apply_fn:
  "mirrors E (on_machine (recorder_apply index c)) (on_machine (apply_fn E index c))"
  unfolding mirrors_def
proof (intro allI)
  fix n :: "('d, 'a, 'a recorder, 'c) raft_node" and m
  obtain x m1 where b: "apply_fn E index c m = (x, m1)" by fastforce
  show "(\<exists>m'. on_machine (apply_fn E index c) (with_machine m n)
         = (fst (on_machine (recorder_apply index c) n), with_machine m' (snd (on_machine (recorder_apply index c) n))))
     \<or> (\<exists>e s. on_machine (apply_fn E index c) (with_machine m n) = (Inl e, s) \<and> apply_raises E e)"
  proof (cases x)
    case (Inl e)
    then show ?thesis using b by (auto simp: on_machine_def apply_raises_def)
  next
    case (Inr y)
    then show ?thesis
      using b by (intro disjI1 exI [of _ m1]) (simp add: on_machine_def recorder_apply_def with_machine_def act_defs split: prod.splits)
  qed
qed

lemma mirrors_has_majority [simp]: "has_majority k (with_machine m n) = has_majority k n"
  by (simp add: has_majority_def)

lemma mirrors_replicas [simp]: "replicas k (with_machine m n) = replicas k n"
  by (simp add: replicas_def)

lemma mirrors_reset [mirror]: "randint E = ri \<Longrightarrow> mirrors E (reset_election_timer (recorder_env ri)) (reset_election_timer E)"
  unfolding reset_election_timer_def
  by (rule mirrors_modify) (simp add: recorder_env_def split: prod.splits)

lemma mirrors_persist [mirror]: "mirrors E persist persist"
  unfolding persist_def by (rule mirrors_modify) simp

lemma mirrors_send [mirror]: "mirrors E (send d b) (send d b)"
  unfolding send_def by (rule mirrors_modify) simp

lemma mirrors_drain [mirror]: "mirrors E drain drain"
  by (rule mirrorsI) (auto simp: drain_def)

lemma mirrors_apply_times: "mirrors E (apply_times (recorder_env ri) k) (apply_times E k)"
proof (induction k)
  case (Suc k)
  then show ?case
    by (auto simp: recorder_env_def intro!: mirror mirrors_apply_fn)
qed (simp add: mirrors_ret)

lemma mirrors_apply_committed [mirror]: "mirrors E (apply_committed (recorder_env ri)) (apply_committed E)"
  by (rule mirrors_state [where a = "\<lambda>n. commit_index n - last_applied n" and b = "\<lambda>n. commit_index n - last_applied n",
        OF mirrors_apply_times]) (simp_all add: apply_committed_def)

lemma mirrors_advance_commit: "mirrors E (advance_commit (recorder_env ri) ks) (advance_commit E ks)"
  by (induction ks) (auto intro!: mirror)

lemma mirrors_maybe_advance [mirror]: "mirrors E (maybe_advance_commit (recorder_env ri)) (maybe_advance_commit E)"
  by (rule mirrors_state [where a = "\<lambda>n. rev [commit_index n + 1..<last_index (nlog n) + 1]"
        and b = "\<lambda>n. rev [commit_index n + 1..<last_index (nlog n) + 1]", OF mirrors_advance_commit])
    (simp_all add: maybe_advance_commit_def del: upt_Suc)

lemma mirrors_send_append [mirror]: "mirrors E (send_append_to p) (send_append_to p)"
  unfolding send_append_to_def by (auto intro!: mirror)

lemma mirrors_broadcast [mirror]: "mirrors E broadcast_append broadcast_append"
  by (rule mirrors_state [where a = peers and b = peers and F = "for_each send_append_to" and G = "for_each send_append_to"])
    (auto simp: broadcast_append_def intro!: mirror)

lemma mirrors_become_leader [mirror]: "mirrors E (become_leader (recorder_env ri)) (become_leader E)"
  unfolding become_leader_def by (auto intro!: mirror cong: if_cong)

lemma mirrors_become_follower [mirror]:
  "randint E = ri \<Longrightarrow> mirrors E (become_follower (recorder_env ri) t) (become_follower E t)"
  unfolding become_follower_def by (auto intro!: mirror)

lemma mirrors_request_votes [mirror]:
  "mirrors E (\<lambda>s. for_each (\<lambda>peer. send peer (RequestVote (current_term s) (node_id s) (last_index (nlog s)) (last_term (nlog s)))) (peers s) s)
    (\<lambda>s. for_each (\<lambda>peer. send peer (RequestVote (current_term s) (node_id s) (last_index (nlog s)) (last_term (nlog s)))) (peers s) s)"
  by (rule mirrors_state [where a = "\<lambda>s. (peers s, RequestVote (current_term s) (node_id s) (last_index (nlog s)) (last_term (nlog s)))"
        and b = "\<lambda>s. (peers s, RequestVote (current_term s) (node_id s) (last_index (nlog s)) (last_term (nlog s)))"
        and F = "\<lambda>(ps, r). for_each (\<lambda>peer. send peer r) ps" and G = "\<lambda>(ps, r). for_each (\<lambda>peer. send peer r) ps"])
    (auto intro!: mirror)

lemma mirrors_become_candidate [mirror]:
  "randint E = ri \<Longrightarrow> mirrors E (become_candidate (recorder_env ri)) (become_candidate E)"
  unfolding become_candidate_def by (intro mirror) simp_all

lemma mirrors_dispatch [mirror]: "randint E = ri \<Longrightarrow> mirrors E (dispatch (recorder_env ri) env) (dispatch E env)"
proof (cases env)
  case (Envelope a b body)
  assume ri: "randint E = ri"
  show ?thesis
  proof (cases body)
    case (RequestVote t c li lt)
    show ?thesis unfolding Envelope RequestVote dispatch.simps handle_request_vote_def by (intro mirror ri) simp_all
  next
    case (RequestVoteReply t g)
    show ?thesis unfolding Envelope RequestVoteReply dispatch.simps handle_request_vote_reply_def by (intro mirror ri) simp_all
  next
    case (AppendEntries t l p pt es lc)
    show ?thesis unfolding Envelope AppendEntries dispatch.simps handle_append_entries_def Let_def by (intro mirror ri) simp_all
  next
    case (AppendEntriesReply t ok m)
    show ?thesis unfolding Envelope AppendEntriesReply dispatch.simps handle_append_entries_reply_def by (intro mirror ri) simp_all
  qed
qed

lemma mirrors_tick: "randint E = ri \<Longrightarrow> mirrors E (node_tick (recorder_env ri)) (node_tick E)"
  unfolding node_tick_def by (intro mirror) simp_all

lemma mirrors_step: "randint E = ri \<Longrightarrow> mirrors E (node_step (recorder_env ri) env) (node_step E env)"
  unfolding node_step_def by (intro mirror) simp_all

lemma mirrors_propose: "mirrors E (propose (recorder_env ri) c) (propose E c)"
  unfolding propose_def by (intro mirror) simp_all

text \<open>
  Two runs of an operation, with the recorder and with another state machine: the first returns, and
  the second returns the same or raises what its state machine raised.
\<close>

definition returns_as ::
  "('v, 'm, 'g) raft_env \<Rightarrow> 'x result \<times> ('i, 'v, 'v recorder, 'g) raft_node \<Rightarrow> 'x result \<times> ('i, 'v, 'm, 'g) raft_node \<Rightarrow> bool" where
  "returns_as E r r' \<longleftrightarrow> (\<exists>x. fst r = Inr x \<and> (fst r' = Inr x \<or> (\<exists>e. fst r' = Inl e \<and> apply_raises E e)))"

lemma mirrors_answer: "mirrors E A B \<Longrightarrow> A n = (Inr x, n') \<Longrightarrow> returns_as E (A n) (B (with_machine m n))"
  unfolding mirrors_def returns_as_def by (metis fst_conv)

lemma with_machine_same [simp]: "with_machine (machine n) n = n"
  by (cases n) (simp add: with_machine_def)

lemma recorder_never_raises [simp]: "\<not> apply_raises (recorder_env ri) e"
  by (simp add: apply_raises_def recorder_env_def recorder_apply_def act_defs)

end
