(* ===== verification/RaftProperties.thy ===== *)
theory RaftProperties
  imports RaftSim RaftMachine
begin

text \<open>
  The safety of the replicated log, for every run of the network and of the simulated
  cluster, and what drives it: elections start when the network is silent, and a leader
  commits what a majority holds.
\<close>

section \<open>An example run\<close>

text \<open>Three nodes with the smallest timeouts; the run is a list of ticks, deliveries, proposals and restarts.\<close>

datatype 'v event = Tick nat | Deliver "(nat, 'v) envelope" | Propose nat "'v command" | Restart nat

definition min_randint :: "nat \<Rightarrow> nat \<Rightarrow> unit \<Rightarrow> nat \<times> unit" where
  "min_randint a b g = (a, g)"

definition fast_config :: raft_config where
  "fast_config = \<lparr>election_timeout_min = 1, election_timeout_max = 2, heartbeat_interval = 1\<rparr>"

definition three :: "nat set" where
  "three = {0, 1, 2}"

definition three_peers :: "nat \<Rightarrow> nat list" where
  "three_peers i = filter (\<lambda>j. j \<noteq> i) [0, 1, 2]"

definition start_net :: "('v, unit) net" where
  "start_net = \<lparr>nnodes = \<lambda>i. RaftNode (recorder_env min_randint) i (three_peers i) Recorder (RaftLog True None) () fast_config 0, sent = {}\<rparr>"

definition put_node :: "('v, unit) net \<Rightarrow> nat \<Rightarrow> ((nat, 'v) envelope list) result \<times> ('v, unit) rnode \<Rightarrow> ('v, unit) net" where
  "put_node c i r = (case r of (Inl e, n) \<Rightarrow> c
     | (Inr out, n) \<Rightarrow> c\<lparr>nnodes := (nnodes c)(i := n), sent := sent c \<union> set out\<rparr>)"

fun happen :: "('v, unit) net \<Rightarrow> 'v event \<Rightarrow> ('v, unit) net" where
  "happen c (Tick i) = (if i \<in> three then put_node c i (node_tick (recorder_env min_randint) (nnodes c i)) else c)"
| "happen c (Deliver env) =
     (if env \<in> sent c then put_node c (dst env) (node_step (recorder_env min_randint) env (nnodes c (dst env))) else c)"
| "happen c (Propose i cmd) =
     (if i \<in> three
      then put_node c i (case propose (recorder_env min_randint) cmd (nnodes c i) of (r, n) \<Rightarrow> (case r of Inl e \<Rightarrow> Inl e | Inr (k, out) \<Rightarrow> Inr out, n))
      else c)"
| "happen c (Restart i) =
     (if i \<in> three
      then (let n = nnodes c i in
        c\<lparr>nnodes := (nnodes c)(i := RaftNode (recorder_env min_randint) (node_id n) (peers n) (machine n) (nlog n) () fast_config (applied_index (machine n)))\<rparr>)
      else c)"

lemma start_net_reach: "net_reach min_randint three start_net"
proof (rule net_reach.net_init)
  fix i
  assume "i \<in> three"
  then show "fresh_node min_randint three i (nnodes start_net i)"
    unfolding fresh_node_def
    by (intro exI [of _ "three_peers i"] exI [of _ "()"] exI [of _ fast_config] exI [of _ True])
      (auto simp: start_net_def three_def three_peers_def)
qed (simp add: start_net_def)

lemma put_node_steps:
  assumes "\<And>out n. r = (Inr out, n) \<Longrightarrow> net_step ri I c (c\<lparr>nnodes := (nnodes c)(i := n), sent := sent c \<union> set out\<rparr>)"
  shows "(net_step ri I)\<^sup>*\<^sup>* c (put_node c i r)"
proof (cases r)
  case (Pair x n)
  then show ?thesis using assms by (cases x) (auto simp: put_node_def)
qed

lemma happen_steps:
  assumes "net_reach min_randint three c"
  shows "(net_step min_randint three)\<^sup>*\<^sup>* c (happen c e)"
proof (cases e)
  case (Tick i)
  then show ?thesis by (auto intro!: put_node_steps net_step.net_tick)
next
  case (Deliver env)
  then show ?thesis by (auto intro!: put_node_steps net_step.net_deliver)
next
  case (Propose i cmd)
  then show ?thesis by (auto intro!: put_node_steps intro: net_step.net_propose split: prod.splits sum.splits)
next
  case (Restart i)
  have "distinct (peers (nnodes c i))" if "i \<in> three"
    using net_reach_ok [OF assms] that node_okD(4) unfolding net_ok_def by blast
  then have "restarted_node min_randint (nnodes c i) (RaftNode (recorder_env min_randint) (node_id (nnodes c i))
      (peers (nnodes c i)) (machine (nnodes c i)) (nlog (nnodes c i)) () fast_config (applied_index (machine (nnodes c i))))" if "i \<in> three"
    using that unfolding restarted_node_def by blast
  then show ?thesis using Restart by (auto simp: Let_def intro!: r_into_rtranclp net_step.net_restart)
qed

lemma net_reach_steps: "(net_step ri I)\<^sup>*\<^sup>* c c' \<Longrightarrow> net_reach ri I c \<Longrightarrow> net_reach ri I c'"
  by (induction rule: rtranclp_induct) (auto intro: net_reach.net_next)

lemma run_steps: "net_reach min_randint three c \<Longrightarrow> (net_step min_randint three)\<^sup>*\<^sup>* c (foldl happen c es)"
proof (induction es arbitrary: c)
  case (Cons e es)
  have "net_reach min_randint three (happen c e)" by (rule net_reach_steps [OF happen_steps Cons.prems]) (rule Cons.prems)
  then show ?case using Cons.IH [of "happen c e"] happen_steps [OF Cons.prems, of e] by simp
qed simp

lemma run_reach: "net_reach min_randint three (foldl happen start_net es)"
  by (rule net_reach_steps [OF run_steps [OF start_net_reach] start_net_reach])

text \<open>
  Node 0 is elected by node 1 and writes a key, which both apply; then node 1 is elected by
  node 2, while node 0 has not heard of it.
\<close>

definition written :: "(nat, unit) net" where
  "written = foldl happen start_net
     [Tick 0, Deliver (Envelope 0 1 (RequestVote 1 0 0 0)), Deliver (Envelope 1 0 (RequestVoteReply 1 True)),
      Propose 0 (SetOp ''x'' 7),
      Deliver (Envelope 0 1 (AppendEntries 1 0 0 0 [LogEntry 1 NoOp, LogEntry 1 (SetOp ''x'' 7)] 0)),
      Deliver (Envelope 1 0 (AppendEntriesReply 1 True 2)),
      Tick 0, Deliver (Envelope 0 1 (AppendEntries 1 0 2 1 [] 2))]"

definition two_leaders :: "(nat, unit) net" where
  "two_leaders = foldl happen written
     [Tick 1, Deliver (Envelope 1 2 (RequestVote 2 1 2 1)), Deliver (Envelope 2 1 (RequestVoteReply 2 True))]"

lemma written_reach: "net_reach min_randint three written"
  unfolding written_def by (rule run_reach)

lemma written_steps: "(net_step min_randint three)\<^sup>*\<^sup>* written two_leaders"
  unfolding two_leaders_def by (rule run_steps [OF written_reach])

lemma two_leaders_reach: "net_reach min_randint three two_leaders"
  by (rule net_reach_steps [OF written_steps written_reach])

section \<open>Safety\<close>

lemma net_node:
  assumes "net_ok I s c" "i \<in> I"
  shows "raft_inv (majority I) s" "node_ok I s i (nnodes c i)" "persisted (nnodes c i)"
  using assms by (simp_all add: net_ok_def)

text \<open>C8. Election safety: in every run of the network two nodes that lead at the same time lead in different terms.\<close>

theorem net_election_safety:
  assumes "net_reach ri I c" "i \<in> I" "j \<in> I" "i \<noteq> j" "role (nnodes c i) = LEADER" "role (nnodes c j) = LEADER"
  shows "current_term (nnodes c i) \<noteq> current_term (nnodes c j)"
proof
  assume t: "current_term (nnodes c i) = current_term (nnodes c j)"
  obtain s where s: "net_ok I s c" using net_reach_ok [OF assms(1)] by blast
  note i = net_node [OF s assms(2)] and j = net_node [OF s assms(3)]
  show False
    using maj.election_safety [OF i(1), of i j] node_okD(6,8) [OF i(2)] node_okD(6,8) [OF j(2)] assms(4-6) t by simp
qed

theorem net_election_safety_witness: "current_term (nnodes two_leaders 0) \<noteq> current_term (nnodes two_leaders 1)"
  by (rule net_election_safety [OF two_leaders_reach]) (simp add: three_def, simp add: three_def, simp, code_simp, code_simp)

text \<open>
  C10. Log matching: when the logs of two nodes have entries of the same term at a position,
  they are equal up to there.
\<close>

theorem net_log_matching:
  assumes "net_reach ri I c" "i \<in> I" "j \<in> I" "k \<le> last_index (nlog (nnodes c i))" "k \<le> last_index (nlog (nnodes c j))"
    and "term_at (nlog (nnodes c i)) k = term_at (nlog (nnodes c j)) k"
  shows "take k (entries (nlog (nnodes c i))) = take k (entries (nlog (nnodes c j)))"
proof -
  obtain s where s: "net_ok I s c" using net_reach_ok [OF assms(1)] by blast
  note i = net_node [OF s assms(2)] and j = net_node [OF s assms(3)]
  show ?thesis
    using maj.log_matching [OF i(1), of k i j] node_okD(9) [OF i(2)] node_okD(9) [OF j(2)] assms(4-6)
    by (simp add: last_index_def term_at_tm)
qed

theorem net_log_matching_witness:
  "take 2 (entries (nlog (nnodes two_leaders 0))) = take 2 (entries (nlog (nnodes two_leaders 1)))"
  by (rule net_log_matching [OF two_leaders_reach]) (simp add: three_def, simp add: three_def, code_simp, code_simp, code_simp)

text \<open>
  C9. Leader completeness: a leader has every entry that a node of its term or an earlier one
  knows to be committed.
\<close>

theorem leader_completeness:
  assumes "net_reach ri I c" "i \<in> I" "j \<in> I" "role (nnodes c j) = LEADER" "current_term (nnodes c i) \<le> current_term (nnodes c j)"
  shows "take (commit_index (nnodes c i)) (entries (nlog (nnodes c j))) = take (commit_index (nnodes c i)) (entries (nlog (nnodes c i)))"
proof -
  obtain s where s: "net_ok I s c" using net_reach_ok [OF assms(1)] by blast
  note i = net_node [OF s assms(2)] and j = net_node [OF s assms(3)]
  note l = leader_facts [OF j(1,2) assms(4)]
  show ?thesis
  proof (cases "commit_index (nnodes c i) = 0")
    case False
    then obtain u k where "chosen (majority I) s u k" "u \<le> aterm s i" "commit_index (nnodes c i) \<le> k"
      "take (commit_index (nnodes c i)) (alog s i) = take (commit_index (nnodes c i)) (llog s u)"
      using node_committed [OF i(1,2)] unfolding committed_to_def by auto
    then show ?thesis
      using maj.leader_log_has [OF i(1), of u k "aterm s j" j "commit_index (nnodes c i)"] l(1,2)
        node_okD(6,9) [OF i(2)] node_okD(6,9) [OF j(2)] assms(5) by simp
  qed simp
qed

theorem leader_completeness_witness:
  "commit_index (nnodes two_leaders 0) = 2
    \<and> take (commit_index (nnodes two_leaders 0)) (entries (nlog (nnodes two_leaders 1)))
       = take (commit_index (nnodes two_leaders 0)) (entries (nlog (nnodes two_leaders 0)))"
  by (rule conjI, code_simp, rule leader_completeness [OF two_leaders_reach])
    (simp add: three_def, simp add: three_def, code_simp, code_simp)

text \<open>
  C2. State machine safety: what one node has applied at some time and what another node
  has applied at that time or later are such that one is a prefix of the other, whatever was
  lost, delayed or repeated and whoever was restarted in between.
\<close>

theorem state_machine_safety:
  assumes "net_reach ri I c" "(net_step ri I)\<^sup>*\<^sup>* c c'" "i \<in> I" "j \<in> I"
  shows "prefix (applied (machine (nnodes c i))) (applied (machine (nnodes c' j)))
    \<or> prefix (applied (machine (nnodes c' j))) (applied (machine (nnodes c i)))"
proof -
  obtain s where s: "net_ok I s c" using net_reach_ok [OF assms(1)] by blast
  obtain s' where s': "grows s s'" "net_ok I s' c'" using net_steps_ok [OF assms(2) s] by blast
  note i = net_node [OF s assms(3)] and j = net_node [OF s'(2) assms(4)]
  obtain P where P: "committed_to I s (aterm s i) (length P) P" "applied (machine (nnodes c i)) = zip [1..<Suc (length P)] (map ecommand P)"
    using node_okD(12) [OF i(2)] unfolding recorder_ok_def by blast
  obtain R where R: "committed_to I s' (aterm s' j) (length R) R" "applied (machine (nnodes c' j)) = zip [1..<Suc (length R)] (map ecommand R)"
    using node_okD(12) [OF j(2)] unfolding recorder_ok_def by blast
  have P': "committed_to I s' (aterm s' i) (length P) P"
    by (rule committed_to_grows [OF P(1) s'(1) growsD(1) [OF s'(1)] refl])
  have pre: "prefix (zip [1..<Suc (length X)] (map ecommand X)) (zip [1..<Suc (length Y)] (map ecommand Y))"
    if "length X \<le> length Y" "take (length X) X = take (length X) Y" for X Y :: "'b log_entry list"
  proof -
    have "zip [1..<Suc (length X)] (map ecommand X) = take (length X) (zip [1..<Suc (length Y)] (map ecommand Y))"
      using that by (simp add: take_zip take_upt take_map del: upt_Suc)
    then show ?thesis by (metis take_is_prefix)
  qed
  show ?thesis
  proof (cases "length P \<le> length R")
    case True
    then show ?thesis using pre [OF True committed_agree [OF j(1) P' R(1) True]] P(2) R(2) by simp
  next
    case False
    then have le: "length R \<le> length P" by simp
    then show ?thesis using pre [OF le committed_agree [OF j(1) R(1) P' le]] P(2) R(2) by simp
  qed
qed

theorem state_machine_safety_witness:
  "applied (machine (nnodes written 0)) = [(1, NoOp), (2, SetOp ''x'' 7)]
    \<and> (prefix (applied (machine (nnodes written 0))) (applied (machine (nnodes two_leaders 1)))
       \<or> prefix (applied (machine (nnodes two_leaders 1))) (applied (machine (nnodes written 0))))"
  by (rule conjI, code_simp, rule state_machine_safety [OF written_reach written_steps]) (simp_all add: three_def)

text \<open>
  C18. A node applies the commands of its log in order, each once, also over restarts: what its state
  machine has been given is the first \<open>last_applied\<close> entries of the log, each with its position
  \<open>1, 2, ...\<close>, and \<open>last_applied\<close> is the position the state machine remembers. The log has
  that many entries, so what was applied is never taken back out of the log.
\<close>

theorem applied_once_in_order:
  assumes "net_reach ri I c" "i \<in> I"
  shows "applied (machine (nnodes c i)) = zip [1..<Suc (last_applied (nnodes c i))]
        (map ecommand (take (last_applied (nnodes c i)) (entries (nlog (nnodes c i)))))
    \<and> map fst (applied (machine (nnodes c i))) = [1..<Suc (last_applied (nnodes c i))]
    \<and> last_applied (nnodes c i) \<le> length (entries (nlog (nnodes c i)))
    \<and> applied_index (machine (nnodes c i)) = last_applied (nnodes c i)"
proof -
  obtain s where s: "net_ok I s c" using net_reach_ok [OF assms(1)] by blast
  note n = net_node(2) [OF s assms(2)]
  obtain P where P: "take (length P) (alog s i) = P"
    "applied (machine (nnodes c i)) = zip [1..<Suc (length P)] (map ecommand P)"
    "applied_index (machine (nnodes c i)) = length P" "last_applied (nnodes c i) = length P"
    using node_okD(12) [OF n] unfolding recorder_ok_def by blast
  have "length P \<le> length (alog s i)" using P(1) by (metis length_take min.cobounded1)
  then show ?thesis using P node_okD(9) [OF n] by (simp del: upt_Suc)
qed

theorem applied_once_in_order_witness:
  "applied (machine (nnodes (happen written (Restart 1)) 1)) = zip [1..<Suc (last_applied (nnodes (happen written (Restart 1)) 1))]
        (map ecommand (take (last_applied (nnodes (happen written (Restart 1)) 1)) (entries (nlog (nnodes (happen written (Restart 1)) 1)))))
    \<and> map fst (applied (machine (nnodes (happen written (Restart 1)) 1))) = [1..<Suc (last_applied (nnodes (happen written (Restart 1)) 1))]
    \<and> last_applied (nnodes (happen written (Restart 1)) 1) \<le> length (entries (nlog (nnodes (happen written (Restart 1)) 1)))
    \<and> applied_index (machine (nnodes (happen written (Restart 1)) 1)) = last_applied (nnodes (happen written (Restart 1)) 1)"
  by (rule applied_once_in_order [OF net_reach_steps [OF happen_steps written_reach]]) (rule written_reach, simp add: three_def)

text \<open>
  C17. What can go wrong in a node. A tick, every message that was sent, however late or often, and a
  proposal to a leader return when the state machine is the \<open>Recorder\<close>, which raises nothing. With any
  other state machine behind the node they return the same messages, or raise an exception that the
  callback \<open>apply\<close> raises: no operation raises one of its own. A proposal to a node that does not
  lead raises \<open>NotLeaderError\<close> and changes nothing.
\<close>

theorem node_operations_return:
  fixes E :: "('v, 'm, 'g) raft_env"
  assumes "net_reach ri I c" "i \<in> I" "randint E = ri"
  shows "returns_as E (node_tick (recorder_env ri) (nnodes c i)) (node_tick E (with_machine m (nnodes c i)))
    \<and> (\<forall>env. env \<in> sent c \<longrightarrow>
         returns_as E (node_step (recorder_env ri) env (nnodes c (dst env))) (node_step E env (with_machine m (nnodes c (dst env)))))
    \<and> (if role (nnodes c i) = LEADER
       then returns_as E (propose (recorder_env ri) cmd (nnodes c i)) (propose E cmd (with_machine m (nnodes c i)))
       else propose E cmd (with_machine m (nnodes c i)) = (Inl NotLeaderError, with_machine m (nnodes c i)))"
proof (intro conjI allI impI)
  show "returns_as E (node_tick (recorder_env ri) (nnodes c i)) (node_tick E (with_machine m (nnodes c i)))"
    by (rule tick_returns [OF assms(1,2)]) (rule mirrors_answer [OF mirrors_tick [OF assms(3)]])
next
  fix env
  assume "env \<in> sent c"
  then show "returns_as E (node_step (recorder_env ri) env (nnodes c (dst env))) (node_step E env (with_machine m (nnodes c (dst env))))"
    by (rule step_returns [OF assms(1)]) (rule mirrors_answer [OF mirrors_step [OF assms(3)]])
next
  show "if role (nnodes c i) = LEADER
       then returns_as E (propose (recorder_env ri) cmd (nnodes c i)) (propose E cmd (with_machine m (nnodes c i)))
       else propose E cmd (with_machine m (nnodes c i)) = (Inl NotLeaderError, with_machine m (nnodes c i))"
  proof (cases "role (nnodes c i) = LEADER")
    case True
    have "returns_as E (propose (recorder_env ri) cmd (nnodes c i)) (propose E cmd (with_machine m (nnodes c i)))"
      by (rule propose_returns [OF assms(1,2) True, of cmd]) (rule mirrors_answer [OF mirrors_propose])
    then show ?thesis using True by simp
  next
    case False
    then show ?thesis by (simp add: propose_def bindS_def act_defs)
  qed
qed

text \<open>The state machine of the witness raises \<open>KeyError\<close> on every command but \<open>NoOp\<close>.\<close>

definition fussy_env :: "(nat, nat, unit) raft_env" where
  "fussy_env = \<lparr>randint = min_randint, apply_fn = (\<lambda>index c. if c = NoOp then modify Suc else raise KeyError)\<rparr>"

theorem node_operations_return_witness:
  "returns_as fussy_env (node_tick (recorder_env min_randint) (nnodes two_leaders 2)) (node_tick fussy_env (with_machine 0 (nnodes two_leaders 2)))
    \<and> returns_as fussy_env (node_step (recorder_env min_randint) (Envelope 0 1 (RequestVote 1 0 0 0)) (nnodes two_leaders 1))
        (node_step fussy_env (Envelope 0 1 (RequestVote 1 0 0 0)) (with_machine 0 (nnodes two_leaders 1)))
    \<and> propose fussy_env (DelOp ''x'') (with_machine 0 (nnodes two_leaders 2)) = (Inl NotLeaderError, with_machine 0 (nnodes two_leaders 2))"
proof -
  have i: "2 \<in> three" and r: "randint fussy_env = min_randint" by (simp_all add: three_def fussy_env_def)
  have 1: "Envelope 0 1 (RequestVote 1 0 0 0) \<in> sent two_leaders" by code_simp
  have 2: "role (nnodes two_leaders 2) \<noteq> LEADER" by code_simp
  note w = node_operations_return [OF two_leaders_reach i r, where cmd = "DelOp ''x''" and m = 0]
  have 3: "dst (Envelope 0 1 (RequestVote 1 0 0 0) :: (nat, nat) envelope) = 1" by simp
  show ?thesis
    using w [THEN conjunct1] w [THEN conjunct2, THEN conjunct1, THEN spec, THEN mp, OF 1]
      w [THEN conjunct2, THEN conjunct2] unfolding 3 if_not_P [OF 2] by (intro conjI)
qed

text \<open>
  C19. What a node has promised is on its disk whenever it has answered: loading the file
  of its log gives its entries, its term and its vote.
\<close>

theorem promises_are_durable:
  assumes "net_reach ri I c" "i \<in> I" "path (nlog (nnodes c i))"
  shows "entries (RaftLog True (saved (nlog (nnodes c i)))) = entries (nlog (nnodes c i))
    \<and> log_term (RaftLog True (saved (nlog (nnodes c i)))) = current_term (nnodes c i)
    \<and> log_voted_for (RaftLog True (saved (nlog (nnodes c i)))) = voted_for (nnodes c i)"
proof -
  obtain s where s: "net_ok I s c" using net_reach_ok [OF assms(1)] by blast
  show ?thesis using net_node(3) [OF s assms(2)] assms(3) by (simp add: persisted_def)
qed

theorem promises_are_durable_witness:
  "entries (RaftLog True (saved (nlog (nnodes two_leaders 2)))) = entries (nlog (nnodes two_leaders 2))
    \<and> log_term (RaftLog True (saved (nlog (nnodes two_leaders 2)))) = current_term (nnodes two_leaders 2)
    \<and> log_voted_for (RaftLog True (saved (nlog (nnodes two_leaders 2)))) = voted_for (nnodes two_leaders 2)"
  by (rule promises_are_durable [OF two_leaders_reach]) (simp add: three_def, code_simp)

section \<open>Progress\<close>

lemma advance_commit_find:
  "advance_commit E ks n =
     (case find (\<lambda>k. term_at (nlog n) k = int (current_term n) \<and> has_majority (replicas k n) n) ks of
        None \<Rightarrow> (Inr (), n) | Some k \<Rightarrow> apply_committed E (n\<lparr>commit_index := k\<rparr>))"
  by (induction ks) (auto simp: bindS_def act_defs)

lemma find_rev_upt:
  assumes "S = {k. a < k \<and> k \<le> b \<and> P k}"
  shows "find P (rev [a + 1..<b + 1]) = (if S = {} then None else Some (Max S))"
  using assms
proof (induction b arbitrary: S)
  case 0
  then show ?case by auto
next
  case (Suc b)
  show ?case
  proof (cases "a \<le> b")
    case True
    then have u: "rev [a + 1..<Suc b + 1] = Suc b # rev [a + 1..<b + 1]" by simp
    show ?thesis
    proof (cases "P (Suc b)")
      case yes: True
      have "finite S" using Suc.prems by (auto intro: finite_subset [of _ "{..Suc b}"])
      moreover have "Suc b \<in> S" "\<forall>k\<in>S. k \<le> Suc b" using Suc.prems yes True by auto
      ultimately have "Max S = Suc b" "S \<noteq> {}" by (auto intro: Max_eqI)
      then show ?thesis unfolding u using yes by simp
    next
      case False
      then have "S = {k. a < k \<and> k \<le> b \<and> P k}" using Suc.prems by (auto simp: le_Suc_eq)
      then show ?thesis unfolding u using Suc.IH False by simp
    qed
  next
    case False
    then show ?thesis using Suc.prems by auto
  qed
qed

text \<open>
  C20. A leader commits exactly what Raft allows: the last position, if any, that is not yet
  committed, whose entry is of the current term and which a majority holds; then it applies
  everything up to there.
\<close>

theorem commit_rule:
  "maybe_advance_commit E n =
     (let S = {k. commit_index n < k \<and> k \<le> last_index (nlog n)
                \<and> term_at (nlog n) k = int (current_term n) \<and> has_majority (replicas k n) n}
      in if S = {} then (Inr (), n) else apply_committed E (n\<lparr>commit_index := Max S\<rparr>))"
  unfolding maybe_advance_commit_def advance_commit_find Let_def
  by (subst find_rev_upt [OF refl]) (simp only: if_distrib [of "case_option _ _"] option.case)

lemma for_each_send:
  "for_each (\<lambda>p. send p (b p)) ps n = (Inr (), n\<lparr>outbox := outbox n @ map (\<lambda>p. Envelope (node_id n) p (b p)) ps\<rparr>)"
  by (induction ps arbitrary: n) (simp_all add: bindS_def act_defs send_def)

lemma tick_waits:
  "role n \<noteq> LEADER \<Longrightarrow> election_elapsed n + 1 < election_timeout n \<Longrightarrow>
     node_tick E n = (Inr [], n\<lparr>election_elapsed := election_elapsed n + 1, outbox := []\<rparr>)"
  by (simp add: node_tick_def bindS_def act_defs drain_def)

lemma tick_stands:
  assumes "role n \<noteq> LEADER" "cluster_size n \<ge> 2" "election_elapsed n + 1 \<ge> election_timeout n"
  shows "\<exists>n'. node_tick E n = (Inr (map (\<lambda>p. Envelope (node_id n) p
      (RequestVote (current_term n + 1) (node_id n) (last_index (nlog n)) (last_term (nlog n)))) (peers n)), n')
    \<and> role n' = CANDIDATE \<and> current_term n' = current_term n + 1 \<and> voted_for n' = Some (node_id n)"
proof -
  have "\<not> has_majority 1 (m\<lparr>nlog := l\<rparr>)" if "cluster_size m = cluster_size n" for m :: "('a, 'b, 'c, 'd) raft_node" and l
    using assms(2) that by (simp add: has_majority_def)
  then show ?thesis
    using assms(1,3)
    by (auto simp: node_tick_def bindS_def act_defs become_candidate_def reset_election_timer_def persist_def for_each_send
        drain_def last_index_def last_term_def split: prod.splits)
qed

text \<open>
  C21. Elections start: a node of a cluster of at least two that does not lead and hears of
  nobody for its election timeout stands for election; it asks every peer for a vote, for
  the term after its own, and has voted for itself.
\<close>

theorem election_starts:
  assumes "role n \<noteq> LEADER" "cluster_size n \<ge> 2"
  shows "\<exists>k n'. k < max 1 (election_timeout n - election_elapsed n)
    \<and> node_tick E (((\<lambda>n. snd (node_tick E n)) ^^ k) n) = (Inr (map (\<lambda>p. Envelope (node_id n) p
        (RequestVote (current_term n + 1) (node_id n) (last_index (nlog n)) (last_term (nlog n)))) (peers n)), n')
    \<and> role n' = CANDIDATE \<and> current_term n' = current_term n + 1 \<and> voted_for n' = Some (node_id n)"
  using assms
proof (induction "election_timeout n - election_elapsed n - 1" arbitrary: n)
  case 0
  then show ?case using tick_stands [of n E] by (intro exI [of _ 0]) auto
next
  case (Suc d)
  let ?n = "n\<lparr>election_elapsed := election_elapsed n + 1, outbox := []\<rparr>"
  have t: "node_tick E n = (Inr [], ?n)" using Suc.hyps(2) Suc.prems(1) by (intro tick_waits) auto
  obtain k n' where "k < max 1 (election_timeout ?n - election_elapsed ?n)"
    "node_tick E (((\<lambda>n. snd (node_tick E n)) ^^ k) ?n) = (Inr (map (\<lambda>p. Envelope (node_id n) p
        (RequestVote (current_term n + 1) (node_id n) (last_index (nlog n)) (last_term (nlog n)))) (peers n)), n')"
    "role n' = CANDIDATE" "current_term n' = current_term n + 1" "voted_for n' = Some (node_id n)"
  proof -
    have d: "d = election_timeout ?n - election_elapsed ?n - 1" using Suc.hyps(2) by simp
    have "role ?n \<noteq> LEADER" "2 \<le> cluster_size ?n" using Suc.prems by simp_all
    from Suc.hyps(1) [OF d this] show ?thesis using that by auto
  qed
  then show ?case
    using t Suc.hyps(2) by (intro exI [of _ "Suc k"] exI [of _ n']) (auto simp: funpow_Suc_right simp del: funpow.simps)
qed

theorem election_starts_witness:
  "\<exists>k n'. k < max 1 (election_timeout (nnodes written 2) - election_elapsed (nnodes written 2))
    \<and> node_tick (recorder_env min_randint) (((\<lambda>n. snd (node_tick (recorder_env min_randint) n)) ^^ k) (nnodes written 2))
       = (Inr (map (\<lambda>p. Envelope (node_id (nnodes written 2)) p
        (RequestVote (current_term (nnodes written 2) + 1) (node_id (nnodes written 2)) (last_index (nlog (nnodes written 2)))
          (last_term (nlog (nnodes written 2))))) (peers (nnodes written 2))), n')
    \<and> role n' = CANDIDATE \<and> current_term n' = current_term (nnodes written 2) + 1 \<and> voted_for n' = Some (node_id (nnodes written 2))"
  by (rule election_starts) (code_simp, code_simp)

section \<open>The simulated cluster\<close>

lemma sim_step_reach:
  assumes "sim_reach ri c"
  obtains c' where "sim_step c = (Inr (), c')" "sim_reach ri c'" "ids c' = ids c"
  using assms sim_reach_net [OF assms] sim_step_net sim_reach.sim_round by blast

lemma sim_steps_reach: "sim_reach ri c \<Longrightarrow> \<exists>c'. sim_steps k c = (Inr (), c') \<and> sim_reach ri c' \<and> ids c' = ids c"
proof (induction k arbitrary: c)
  case (Suc k)
  obtain c' where c': "sim_step c = (Inr (), c')" "sim_reach ri c'" "ids c' = ids c" by (rule sim_step_reach [OF Suc.prems])
  then show ?case using Suc.IH [OF c'(2)] by simp
qed (simp add: ret_def)

lemma run_until_reach: "sim_reach ri c \<Longrightarrow> \<exists>b c'. run_until p k c = (Inr b, c') \<and> (b \<longleftrightarrow> p c') \<and> sim_reach ri c'"
proof (induction k arbitrary: c)
  case (Suc k)
  obtain c' where c': "sim_step c = (Inr (), c')" "sim_reach ri c'" by (rule sim_step_reach [OF Suc.prems])
  then show ?case using Suc.IH [OF c'(2)] Suc.prems by (auto simp: bindS_def act_defs)
qed (simp add: gets_def)

lemma client_write_ids:
  assumes "sim_reach ri c"
  shows "case leader c of None \<Rightarrow> client_write cmd c = (Inl NoLeaderError, c)
    | Some i \<Rightarrow> \<exists>index c'. client_write cmd c = (Inr index, c') \<and> sim_reach ri c' \<and> ids c' = ids c"
proof (cases "leader c")
  case None
  then show ?thesis by (simp add: client_write_def bindS_def act_defs)
next
  case (Some i)
  obtain S where "sim_net ri c S" using sim_reach_net [OF assms] by blast
  from client_write_net [OF this Some] obtain index c' where "client_write cmd c = (Inr index, c')" "ids c' = ids c" by blast
  then show ?thesis using Some sim_reach.sim_write [OF assms] by auto
qed

lemma sim_reach_ops:
  assumes "sim_reach ri c"
  shows "sim_reach ri (snd (sim_steps k c))" "sim_reach ri (snd (client_write cmd c))"
    "ids (snd (sim_steps k c)) = ids c" "ids (snd (client_write cmd c)) = ids c"
  using sim_steps_reach [OF assms, of k] client_write_ids [OF assms, of cmd] assms by (auto split: option.splits)

text \<open>A cluster of three that has run for a while, was written to, and lost node 1.\<close>

definition small_cluster :: "(nat, unit) sim_cluster" where
  "small_cluster = snd (client_write (SetOp ''x'' 7) (snd (sim_steps 40 (SimCluster (recorder_env min_randint) (\<lambda>_. ()) 3 1 RaftConfig 1))))"

definition crashed_cluster :: "(nat, unit) sim_cluster" where
  "crashed_cluster = snd (sim_steps 40 (crash 1 (snd (sim_steps 10 small_cluster))))"

lemma small_cluster_reach: "sim_reach min_randint small_cluster" "ids small_cluster = [0, 1, 2]"
proof -
  note r = sim_reach.sim_init [of min_randint "\<lambda>_. ()" 3 1 RaftConfig 1]
  show "sim_reach min_randint small_cluster" unfolding small_cluster_def by (intro sim_reach_ops r)
  show "ids small_cluster = [0, 1, 2]"
    unfolding small_cluster_def sim_reach_ops(4) [OF sim_reach_ops(1) [OF r]] sim_reach_ops(3) [OF r]
    by (simp add: SimCluster_def Let_def upt_rec)
qed

lemma crashed_cluster_reach: "sim_reach min_randint crashed_cluster" "ids crashed_cluster = [0, 1, 2]"
proof -
  note r = sim_reach_ops(1,3) [OF small_cluster_reach(1), where k = 10]
  have c: "sim_reach min_randint (crash 1 (snd (sim_steps 10 small_cluster)))"
    by (rule sim_reach.sim_crash [OF r(1)]) (simp add: r(2) small_cluster_reach(2))
  show "sim_reach min_randint crashed_cluster" unfolding crashed_cluster_def by (rule sim_reach_ops [OF c])
  show "ids crashed_cluster = [0, 1, 2]"
    unfolding crashed_cluster_def sim_reach_ops(3) [OF c] by (simp add: crash_def r(2) small_cluster_reach(2))
qed

text \<open>
  C22. The simulated cluster never gets stuck: whatever crashes, restarts, partitions and
  writes happened, any number of rounds returns, \<open>run_until\<close> returns whether its predicate
  holds, \<open>client_write\<close> returns when there is a leader and otherwise raises \<open>NoLeaderError\<close>,
  changing nothing.
\<close>

theorem cluster_returns:
  assumes "sim_reach ri c"
  shows "(\<exists>c'. sim_steps k c = (Inr (), c')) \<and> (\<exists>b c'. run_until p k c = (Inr b, c') \<and> (b \<longleftrightarrow> p c'))
    \<and> (case leader c of None \<Rightarrow> client_write cmd c = (Inl NoLeaderError, c)
        | Some i \<Rightarrow> \<exists>index c'. client_write cmd c = (Inr index, c'))"
  using sim_steps_reach [OF assms, of k] run_until_reach [OF assms, of p k] client_write_ids [OF assms, of cmd]
  by (auto split: option.splits)

theorem cluster_returns_witness:
  "(\<exists>c'. sim_steps 5 crashed_cluster = (Inr (), c'))
    \<and> (\<exists>b c'. run_until (\<lambda>c. leader c \<noteq> None) 5 crashed_cluster = (Inr b, c') \<and> (b \<longleftrightarrow> leader c' \<noteq> None))
    \<and> (case leader crashed_cluster of None \<Rightarrow> client_write (DelOp ''x'') crashed_cluster = (Inl NoLeaderError, crashed_cluster)
        | Some i \<Rightarrow> \<exists>index c'. client_write (DelOp ''x'') crashed_cluster = (Inr index, c'))"
  by (rule cluster_returns [OF crashed_cluster_reach(1)])

lemma mapR_log_get: "n \<le> length (entries l) \<Longrightarrow> mapR (log_get l) [1..<n + 1] = Inr (take n (entries l))"
proof (induction n)
  case (Suc n)
  have "[1..<Suc n + 1] = [1..<n + 1] @ [Suc n]" by simp
  moreover have "log_get l (Suc n) = Inr (entries l ! n)" using Suc.prems by (simp add: log_get_def py_nth_def)
  ultimately show ?case using Suc by (simp add: mapR_append take_Suc_conv_app_nth del: upt_Suc)
qed simp

text \<open>
  C23. What the simulated cluster reports as committed: in every run, \<open>committed_commands\<close>
  returns for every node, and of the lists of any two nodes one is a prefix of the other.
\<close>

theorem committed_commands_agree:
  assumes "sim_reach ri c" "i \<in> set (ids c)" "j \<in> set (ids c)"
  shows "\<exists>xs ys. committed_commands c i = Inr xs \<and> committed_commands c j = Inr ys \<and> (prefix xs ys \<or> prefix ys xs)"
proof -
  obtain S where S: "net_reach ri (set (ids c)) \<lparr>nnodes = nodes c, sent = S\<rparr>"
    using sim_reach_net [OF assms(1)] by (auto simp: sim_net_def)
  obtain s where s: "net_ok (set (ids c)) s \<lparr>nnodes = nodes c, sent = S\<rparr>" using net_reach_ok [OF S] by blast
  have cc: "committed_commands c k = Inr (map ecommand (take (acommit s k) (alog s k)))" if k: "k \<in> set (ids c)" for k
  proof -
    note n = net_node [OF s k]
    have "acommit s k \<le> length (alog s k)" using committed_to_len [OF node_committed [OF n(1,2)]] node_okD(10) [OF n(2)] by simp
    then show ?thesis
      using mapR_log_get [of "acommit s k" "nlog (nodes c k)"] node_okD(9,10) [OF n(2)] by (simp add: committed_commands_def Let_def del: upt_Suc)
  qed
  have *: "prefix (map ecommand (take (acommit s k) (alog s k))) (map ecommand (take (acommit s l) (alog s l)))" if "acommit s k \<le> acommit s l" for k l
  proof -
    have "take (acommit s k) (alog s k) = take (acommit s k) (take (acommit s l) (alog s l))"
      using maj.commit_agrees [OF net_node(1) [OF s assms(2)] order_refl that] that by (simp add: min_def)
    then show ?thesis by (metis map_mono_prefix take_is_prefix)
  qed
  show ?thesis using cc [OF assms(2)] cc [OF assms(3)] * [of i j] * [of j i] by (cases "acommit s i \<le> acommit s j") auto
qed

theorem committed_commands_agree_witness:
  "\<exists>xs ys. committed_commands crashed_cluster 0 = Inr xs \<and> committed_commands crashed_cluster 2 = Inr ys \<and> (prefix xs ys \<or> prefix ys xs)"
  by (rule committed_commands_agree [OF crashed_cluster_reach(1)]) (simp_all add: crashed_cluster_reach(2))

text \<open>
  Of the live nodes of a simulated cluster that lead, no two lead in the same term, so
  the leader that \<open>leader\<close> picks, and that a client writes to, is the one of the highest term.
\<close>

theorem leader_is_newest:
  assumes "sim_reach ri c"
  shows "case leader c of None \<Rightarrow> leaders c = []
    | Some i \<Rightarrow> i \<in> set (leaders c) \<and> list_all (\<lambda>j. j = i \<or> current_term (nodes c j) < current_term (nodes c i)) (leaders c)"
proof (cases "leaders c")
  case (Cons l ls)
  let ?f = "\<lambda>i. - int (current_term (nodes c i))"
  obtain S where S: "net_reach ri (set (ids c)) \<lparr>nnodes = nodes c, sent = S\<rparr>"
    using sim_reach_net [OF assms(1)] by (auto simp: sim_net_def)
  obtain s where s: "net_ok (set (ids c)) s \<lparr>nnodes = nodes c, sent = S\<rparr>" using net_reach_ok [OF S] by blast
  have lead: "k \<in> set (ids c) \<and> arole s k = LEADER \<and> aterm s k = current_term (nodes c k)" if "k \<in> set (leaders c)" for k
    using that net_node(2) [OF s, of k] node_okD(6,8) [of "set (ids c)" s k "nodes c k"] by (simp add: leaders_def is_leader_def)
  obtain i xs where xs: "sort_key ?f (leaders c) = i # xs" using Cons by (metis list.exhaust set_empty set_sort list.distinct(1))
  have i: "i \<in> set (leaders c)" "leader c = Some i" using xs by (metis list.set_intros(1) set_sort) (simp add: leader_def xs)
  have "current_term (nodes c j) < current_term (nodes c i)" if j: "j \<in> set (leaders c)" "j \<noteq> i" for j
  proof -
    have "current_term (nodes c j) \<noteq> current_term (nodes c i)"
      using maj.election_safety [OF net_node(1) [OF s], of i j i] lead [OF i(1)] lead [OF j(1)] j(2) by auto
    moreover have "j \<in> set (i # xs)" using j(1) by (metis set_sort xs)
    moreover have "sorted (map ?f (i # xs))" using sorted_sort_key [of ?f "leaders c"] xs by simp
    ultimately show ?thesis using j(2) by fastforce
  qed
  then show ?thesis using i by (auto simp: list_all_iff)
qed (simp add: leader_def)

theorem leader_is_newest_witness:
  "case leader crashed_cluster of None \<Rightarrow> leaders crashed_cluster = []
    | Some i \<Rightarrow> i \<in> set (leaders crashed_cluster)
        \<and> list_all (\<lambda>j. j = i \<or> current_term (nodes crashed_cluster j) < current_term (nodes crashed_cluster i)) (leaders crashed_cluster)"
  by (rule leader_is_newest [OF crashed_cluster_reach(1)])

end
