(* ===== verification/Database.thy ===== *)
theory Database
  imports BPlusAudit "HOL-Library.Char_ord" "HOL-Library.List_Lexorder" "HOL-Library.AList"
begin

text \<open>
  \<open>interface.py\<close>, \<open>mvcc.py\<close> and \<open>codec.py\<close>: the database handle \<open>DBDB\<close> with the default
  index, point-in-time snapshots and optimistic transactions.

  The generators \<open>items\<close>, \<open>scan\<close> and \<open>keys\<close> are the lists of what they yield. A snapshot
  reads the database file through a handle of its own; what that handle sees is the content
  of the file at the last flush of the database, and every use of a snapshot by a
  transaction first brings its view up to date (\<open>snapshot_sees\<close>). The mutex that serialises
  the threads of a process has no counterpart: an operation is one step here.

  A codec is a parameter of the handle; what the code relies on is \<open>codec_ok\<close>.
\<close>

section \<open>Codecs\<close>

record 'v codec =
  encode :: "'v \<Rightarrow> bytes result"
  decode :: "bytes \<Rightarrow> 'v result"

definition codec_ok :: "'v codec \<Rightarrow> bool" where
  "codec_ok C \<longleftrightarrow> (\<forall>v bs. encode C v = Inr bs \<longrightarrow> decode C bs = Inr v)"

text \<open>A value that is, or is not, of type \<open>bytes\<close>.\<close>

datatype py_value = PyBytes bytes | PyOther nat

fun bytes_encode :: "py_value \<Rightarrow> bytes result" where
  "bytes_encode (PyBytes b) = Inr b"
| "bytes_encode (PyOther n) = Inl TypeError"

definition BytesCodec :: "py_value codec" where
  "BytesCodec = \<lparr>encode = bytes_encode, decode = (\<lambda>b. Inr (PyBytes b))\<rparr>"

section \<open>The handle\<close>

record 'v dbdb =
  db_path :: bool
  db_codec :: "'v codec"
  tree :: "string bplus_tree"
  open_snapshots :: nat

definition on_tree :: "(string bplus_tree, 'a) act \<Rightarrow> ('v dbdb, 'a) act" where
  "on_tree m s = (case m (tree s) of (r, t) \<Rightarrow> (r, s\<lparr>tree := t\<rparr>))"

definition on_file :: "(storage, 'a) act \<Rightarrow> ('v dbdb, 'a) act" where
  "on_file m = on_tree (on_storage m)"

text \<open>The constructor \<open>DBDB(fileobj, path, codec, index, durability)\<close> on a file with content \<open>f\<close>.\<close>

definition DBDB :: "bytes \<Rightarrow> bool \<Rightarrow> 'v codec \<Rightarrow> string \<Rightarrow> unit result \<times> 'v dbdb" where
  "DBDB f has_path C dur =
     (case Storage (SimDisk f) dur False of
        (Inl e, st) \<Rightarrow>
          (Inl e, \<lparr>db_path = has_path, db_codec = C,
             tree = \<lparr>lstorage = st, tree_ref = BPlusNodeRef None 0, order = DEFAULT_ORDER, min_keys = DEFAULT_ORDER div 2, count = 0\<rparr>,
             open_snapshots = 0\<rparr>)
      | (Inr _, st) \<Rightarrow>
          (case BPlusTree st DEFAULT_ORDER of
             (r, t) \<Rightarrow> (r, \<lparr>db_path = has_path, db_codec = C, tree = t, open_snapshots = 0\<rparr>)))"

definition is_closed :: "'v dbdb \<Rightarrow> bool" where
  "is_closed s \<longleftrightarrow> closed (disk (lstorage (tree s)))"

definition assert_open :: "('v dbdb, unit) act" where
  "assert_open = bindS (gets is_closed) (\<lambda>c. if c then raise DatabaseClosedError else ret ())"

definition validate_key :: "string \<Rightarrow> ('s, unit) act" where
  "validate_key key = (if key = [] then raise KeyEncodingError else ret ())"

text \<open>\<open>codec.decode(payload)\<close>; the payload of a reference without a value is \<open>None\<close>.\<close>

definition decoded :: "'v codec \<Rightarrow> bytes option \<Rightarrow> 'v result" where
  "decoded C p = (case p of None \<Rightarrow> Inl AttributeError | Some b \<Rightarrow> decode C b)"

definition decode_pairs :: "'v codec \<Rightarrow> ('k \<times> bytes option) list \<Rightarrow> ('k \<times> 'v) list result" where
  "decode_pairs C = mapR (\<lambda>(k, p). bindR (decoded C p) (\<lambda>v. Inr (k, v)))"

section \<open>Mapping operations\<close>

definition db_getitem :: "string pickle \<Rightarrow> nat \<Rightarrow> string \<Rightarrow> ('v dbdb, 'v) act" where
  "db_getitem P lim key =
     bindS assert_open (\<lambda>_.
     bindS (validate_key key) (\<lambda>_.
     bindS (on_tree (logical_get (bplus_class P lim) key)) (\<lambda>p.
       lift (\<lambda>s. decoded (db_codec s) p))))"

definition db_setitem :: "string pickle \<Rightarrow> nat \<Rightarrow> string \<Rightarrow> 'v \<Rightarrow> ('v dbdb, unit) act" where
  "db_setitem P lim key v =
     bindS assert_open (\<lambda>_.
     bindS (validate_key key) (\<lambda>_.
     bindS (lift (\<lambda>s. encode (db_codec s) v)) (\<lambda>b.
       on_tree (logical_set (bplus_class P lim) key b))))"

definition db_delitem :: "string pickle \<Rightarrow> nat \<Rightarrow> string \<Rightarrow> ('v dbdb, unit) act" where
  "db_delitem P lim key =
     bindS assert_open (\<lambda>_.
     bindS (validate_key key) (\<lambda>_.
       on_tree (logical_delete (bplus_class P lim) key)))"

definition db_len :: "('v dbdb, int) act" where
  "db_len = bindS assert_open (\<lambda>_. on_tree bp_length)"

definition db_items :: "string pickle \<Rightarrow> nat \<Rightarrow> ('v dbdb, (string \<times> 'v) list) act" where
  "db_items P lim =
     bindS assert_open (\<lambda>_.
     bindS (on_tree (logical_items (bplus_class P lim))) (\<lambda>ps.
       lift (\<lambda>s. decode_pairs (db_codec s) ps)))"

definition validate_bound :: "string option \<Rightarrow> ('s, unit) act" where
  "validate_bound b = (case b of None \<Rightarrow> ret () | Some key \<Rightarrow> validate_key key)"

definition has_prefix :: "string option \<Rightarrow> string \<Rightarrow> bool" where
  "has_prefix p key \<longleftrightarrow> (case p of None \<Rightarrow> True | Some x \<Rightarrow> prefix x key)"

definition db_scan ::
  "string pickle \<Rightarrow> nat \<Rightarrow> string option \<Rightarrow> string option \<Rightarrow> string option \<Rightarrow> ('v dbdb, (string \<times> 'v) list) act" where
  "db_scan P lim pre start stop =
     bindS assert_open (\<lambda>_.
     bindS (validate_bound pre) (\<lambda>_.
     bindS (validate_bound start) (\<lambda>_.
     bindS (validate_bound stop) (\<lambda>_.
     bindS (on_tree (logical_range_items (bplus_class P lim) start stop)) (\<lambda>ps.
       lift (\<lambda>s. decode_pairs (db_codec s) (filter (\<lambda>(k, p). has_prefix pre k) ps)))))))"

definition db_keys ::
  "string pickle \<Rightarrow> nat \<Rightarrow> string option \<Rightarrow> string option \<Rightarrow> string option \<Rightarrow> ('v dbdb, string list) act" where
  "db_keys P lim pre start stop = bindS (db_scan P lim pre start stop) (\<lambda>kvs. ret (map fst kvs))"

definition db_iter :: "string pickle \<Rightarrow> nat \<Rightarrow> ('v dbdb, string list) act" where
  "db_iter P lim = bindS assert_open (\<lambda>_. db_keys P lim None None None)"

text \<open>\<open>get\<close> of \<open>collections.abc.Mapping\<close>.\<close>

definition catch_key_error :: "('s, 'a) act \<Rightarrow> ('s, 'a) act \<Rightarrow> ('s, 'a) act" where
  "catch_key_error m h s = (case m s of (Inl KeyError, s') \<Rightarrow> h s' | r \<Rightarrow> r)"

definition db_get :: "string pickle \<Rightarrow> nat \<Rightarrow> string \<Rightarrow> ('v dbdb, 'v option) act" where
  "db_get P lim key = catch_key_error (bindS (db_getitem P lim key) (\<lambda>v. ret (Some v))) (ret None)"

definition db_commit :: "string pickle \<Rightarrow> ('v dbdb, unit) act" where
  "db_commit P = bindS assert_open (\<lambda>_. on_tree (bp_commit P))"

definition db_close :: "('v dbdb, unit) act" where
  "db_close = on_file storage_close"

definition db_stats :: "('v dbdb, storage_stats) act" where
  "db_stats = bindS assert_open (\<lambda>_. on_file storage_stats)"

definition db_audit :: "string pickle \<Rightarrow> nat \<Rightarrow> ('v dbdb, string audit_report) act" where
  "db_audit P lim = bindS assert_open (\<lambda>_. on_tree (bp_audit_op P lim))"

definition update_value :: "string pickle \<Rightarrow> nat \<Rightarrow> string \<Rightarrow> ('v \<Rightarrow> 'v) \<Rightarrow> 'v \<Rightarrow> ('v dbdb, 'v) act" where
  "update_value P lim key updater dflt =
     bindS assert_open (\<lambda>_.
     bindS (validate_key key) (\<lambda>_.
     bindS (on_file lock) (\<lambda>first.
     bindS (whenS first (on_tree bp_refresh)) (\<lambda>_.
     bindS (catch_key_error (db_getitem P lim key) (ret dflt)) (\<lambda>current.
     let updated = updater current in
     bindS (db_setitem P lim key updated) (\<lambda>_. ret updated))))))"

section \<open>Snapshots\<close>

record 'v snapshot =
  sn_storage :: storage
  sn_root_ref :: "string bref"
  sn_count :: int
  sn_codec :: "'v codec"
  sn_closed :: bool

text \<open>\<open>Snapshot(fileobj, root_address, key_count, codec)\<close> on a reader that sees the bytes \<open>f\<close>.\<close>

definition Snapshot :: "bytes \<Rightarrow> nat \<Rightarrow> int \<Rightarrow> 'v codec \<Rightarrow> 'v snapshot result" where
  "Snapshot f root n C =
     (case Storage (SimDisk f) DURABILITY_FULL True of
        (Inl e, _) \<Rightarrow> Inl e
      | (Inr _, st) \<Rightarrow>
          (case (BPlusTree st DEFAULT_ORDER :: unit result \<times> string bplus_tree) of
             (Inl e, _) \<Rightarrow> Inl e
           | (Inr _, t) \<Rightarrow>
               Inr \<lparr>sn_storage = lstorage t, sn_root_ref = BPlusNodeRef None root, sn_count = n, sn_codec = C, sn_closed = False\<rparr>))"

definition snapshot_sees :: "bytes \<Rightarrow> 'v snapshot \<Rightarrow> 'v snapshot" where
  "snapshot_sees f sn = sn\<lparr>sn_storage := (sn_storage sn)\<lparr>disk := (disk (sn_storage sn))\<lparr>live := f\<rparr>\<rparr>\<rparr>"

definition sn_root :: "string pickle \<Rightarrow> 'v snapshot \<Rightarrow> string bnode option result" where
  "sn_root P sn = bref_get P (sn_storage sn) (sn_root_ref sn)"

definition sn_raw :: "string pickle \<Rightarrow> nat \<Rightarrow> 'v snapshot \<Rightarrow> string \<Rightarrow> bytes option result" where
  "sn_raw P lim sn key =
     (case bindR (sn_root P sn) (\<lambda>node. bp_get P (sn_storage sn) lim node key) of
        Inl KeyError \<Rightarrow> Inr None
      | r \<Rightarrow> r)"

definition sn_getitem :: "string pickle \<Rightarrow> nat \<Rightarrow> 'v snapshot \<Rightarrow> string \<Rightarrow> 'v result" where
  "sn_getitem P lim sn key =
     bindR (sn_raw P lim sn key) (\<lambda>p. case p of None \<Rightarrow> Inl KeyError | Some b \<Rightarrow> decode (sn_codec sn) b)"

definition sn_get :: "string pickle \<Rightarrow> nat \<Rightarrow> 'v snapshot \<Rightarrow> string \<Rightarrow> 'v option result" where
  "sn_get P lim sn key =
     bindR (sn_raw P lim sn key) (\<lambda>p. case p of None \<Rightarrow> Inr None | Some b \<Rightarrow> bindR (decode (sn_codec sn) b) (\<lambda>v. Inr (Some v)))"

definition sn_contains :: "string pickle \<Rightarrow> nat \<Rightarrow> 'v snapshot \<Rightarrow> string \<Rightarrow> bool result" where
  "sn_contains P lim sn key = bindR (sn_raw P lim sn key) (\<lambda>p. Inr (p \<noteq> None))"

definition sn_len :: "'v snapshot \<Rightarrow> int" where
  "sn_len sn = sn_count sn"

definition sn_items :: "string pickle \<Rightarrow> nat \<Rightarrow> 'v snapshot \<Rightarrow> (string \<times> 'v) list result" where
  "sn_items P lim sn =
     bindR (bindR (sn_root P sn) (bp_items P (sn_storage sn) lim)) (decode_pairs (sn_codec sn))"

definition sn_scan ::
  "string pickle \<Rightarrow> nat \<Rightarrow> 'v snapshot \<Rightarrow> string option \<Rightarrow> string option \<Rightarrow> string option \<Rightarrow> (string \<times> 'v) list result" where
  "sn_scan P lim sn pre start stop =
     bindR (bindR (sn_root P sn) (bp_range P (sn_storage sn) lim start stop)) (\<lambda>ps.
       decode_pairs (sn_codec sn) (filter (\<lambda>(k, p). has_prefix pre k) ps))"

definition sn_keys ::
  "string pickle \<Rightarrow> nat \<Rightarrow> 'v snapshot \<Rightarrow> string option \<Rightarrow> string option \<Rightarrow> string option \<Rightarrow> string list result" where
  "sn_keys P lim sn pre start stop = bindR (sn_scan P lim sn pre start stop) (\<lambda>kvs. Inr (map fst kvs))"

definition sn_audit :: "string pickle \<Rightarrow> nat \<Rightarrow> 'v snapshot \<Rightarrow> string audit_report result" where
  "sn_audit P lim sn = bp_audit P (sn_storage sn) DEFAULT_ORDER (DEFAULT_ORDER div 2) lim (sn_root_ref sn) (sn_count sn)"

text \<open>What another handle on the file sees.\<close>

definition file_seen :: "'v dbdb \<Rightarrow> bytes" where
  "file_seen s = durable_bytes (disk (lstorage (tree s)))"

text \<open>\<open>DBDB.snapshot\<close>; the count of open snapshots goes up before the reader is opened.\<close>

definition db_snapshot :: "('v dbdb, 'v snapshot) act" where
  "db_snapshot =
     bindS assert_open (\<lambda>_.
     bindS (gets db_path) (\<lambda>p.
       if \<not> p then raise ValueError
       else
         bindS (on_file get_root_address) (\<lambda>root.
         bindS (on_file get_key_count) (\<lambda>n.
         bindS (modify (\<lambda>s. s\<lparr>open_snapshots := open_snapshots s + 1\<rparr>)) (\<lambda>_.
           lift (\<lambda>s. Snapshot (file_seen s) root n (db_codec s)))))))"

definition snapshot_closed :: "('v dbdb, unit) act" where
  "snapshot_closed = modify (\<lambda>s. s\<lparr>open_snapshots := open_snapshots s - 1\<rparr>)"

text \<open>\<open>Snapshot.close\<close> of a snapshot of the database.\<close>

definition snapshot_close :: "'v snapshot \<Rightarrow> ('v dbdb, 'v snapshot) act" where
  "snapshot_close sn =
     (if sn_closed sn then ret sn
      else bindS snapshot_closed (\<lambda>_.
        ret (sn\<lparr>sn_closed := True, sn_storage := snd (storage_close (sn_storage sn))\<rparr>)))"

section \<open>Transactions\<close>

text \<open>The overlay is a dictionary in insertion order; \<open>None\<close> is the marker \<open>_DELETED\<close>.\<close>

record 'v transaction =
  base :: "'v snapshot option"
  overlay :: "(string \<times> bytes option) list"

text \<open>A transaction and the database it works on.\<close>

record 'v tx_state =
  tx_db :: "'v dbdb"
  txn :: "'v transaction"

definition on_db :: "('v dbdb, 'a) act \<Rightarrow> ('v tx_state, 'a) act" where
  "on_db m s = (case m (tx_db s) of (r, d) \<Rightarrow> (r, s\<lparr>tx_db := d\<rparr>))"

definition set_overlay :: "(string \<times> bytes option) list \<Rightarrow> 'v tx_state \<Rightarrow> 'v tx_state" where
  "set_overlay ov s = s\<lparr>txn := (txn s)\<lparr>overlay := ov\<rparr>\<rparr>"

definition Transaction :: "'v transaction" where
  "Transaction = \<lparr>base = None, overlay = []\<rparr>"

definition tx_begin :: "('v tx_state, unit) act" where
  "tx_begin =
     bindS (gets (base \<circ> txn)) (\<lambda>b.
       if b \<noteq> None then ret ()
       else
         bindS (on_db assert_open) (\<lambda>_.
         bindS (on_db db_snapshot) (\<lambda>sn.
           modify (\<lambda>s. s\<lparr>txn := (txn s)\<lparr>base := Some sn\<rparr>\<rparr>))))"

text \<open>Reading the base: without one the attribute access fails.\<close>

definition with_base :: "('v snapshot \<Rightarrow> 'a result) \<Rightarrow> ('v tx_state, 'a) act" where
  "with_base f =
     lift (\<lambda>s. case base (txn s) of None \<Rightarrow> Inl AttributeError | Some sn \<Rightarrow> f (snapshot_sees (file_seen (tx_db s)) sn))"

definition tx_get :: "string pickle \<Rightarrow> nat \<Rightarrow> string \<Rightarrow> ('v tx_state, 'v) act" where
  "tx_get P lim key =
     bindS (validate_key key) (\<lambda>_.
     bindS (gets (\<lambda>s. map_of (overlay (txn s)) key)) (\<lambda>found.
       case found of
         Some None \<Rightarrow> raise KeyError
       | Some (Some payload) \<Rightarrow> lift (\<lambda>s. decode (db_codec (tx_db s)) payload)
       | None \<Rightarrow> with_base (\<lambda>sn. sn_getitem P lim sn key)))"

definition tx_get_or_none :: "string pickle \<Rightarrow> nat \<Rightarrow> string \<Rightarrow> ('v tx_state, 'v option) act" where
  "tx_get_or_none P lim key = catch_key_error (bindS (tx_get P lim key) (\<lambda>v. ret (Some v))) (ret None)"

definition tx_contains :: "string pickle \<Rightarrow> nat \<Rightarrow> string \<Rightarrow> ('v tx_state, bool) act" where
  "tx_contains P lim key =
     bindS (gets (\<lambda>s. map_of (overlay (txn s)) key)) (\<lambda>found.
       case found of
         Some p \<Rightarrow> ret (p \<noteq> None)
       | None \<Rightarrow> with_base (\<lambda>sn. sn_contains P lim sn key))"

definition tx_set :: "string \<Rightarrow> 'v \<Rightarrow> ('v tx_state, unit) act" where
  "tx_set key v =
     bindS (validate_key key) (\<lambda>_.
     bindS (lift (\<lambda>s. encode (db_codec (tx_db s)) v)) (\<lambda>b.
       modify (\<lambda>s. set_overlay (AList.update key (Some b) (overlay (txn s))) s)))"

definition tx_delete :: "string pickle \<Rightarrow> nat \<Rightarrow> string \<Rightarrow> ('v tx_state, unit) act" where
  "tx_delete P lim key =
     bindS (validate_key key) (\<lambda>_.
     bindS (tx_contains P lim key) (\<lambda>c.
       if \<not> c then raise KeyError
       else modify (\<lambda>s. set_overlay (AList.update key None (overlay (txn s))) s)))"

definition tx_update :: "string pickle \<Rightarrow> nat \<Rightarrow> string \<Rightarrow> ('v \<Rightarrow> 'v) \<Rightarrow> 'v \<Rightarrow> ('v tx_state, 'v) act" where
  "tx_update P lim key updater dflt =
     bindS (tx_get_or_none P lim key) (\<lambda>found.
     let updated = updater (case found of None \<Rightarrow> dflt | Some v \<Rightarrow> v) in
     bindS (tx_set key updated) (\<lambda>_. ret updated))"

definition close_base :: "('v tx_state, unit) act" where
  "close_base =
     bindS (gets (base \<circ> txn)) (\<lambda>b.
       case b of
         None \<Rightarrow> ret ()
       | Some sn \<Rightarrow>
           bindS (on_db (snapshot_close sn)) (\<lambda>_. modify (\<lambda>s. s\<lparr>txn := (txn s)\<lparr>base := None\<rparr>\<rparr>)))"

fun check_conflicts :: "string pickle \<Rightarrow> nat \<Rightarrow> string list \<Rightarrow> ('v tx_state, unit) act" where
  "check_conflicts P lim [] = ret ()"
| "check_conflicts P lim (key # keys) =
     bindS (with_base (\<lambda>sn. sn_raw P lim sn key)) (\<lambda>base_value.
     bindS (catch_key_error (on_db (on_tree (logical_get (bplus_class P lim) key))) (ret None)) (\<lambda>current_value.
       if base_value \<noteq> current_value then raise ConflictError
       else check_conflicts P lim keys))"

fun apply_overlay :: "string pickle \<Rightarrow> nat \<Rightarrow> (string \<times> bytes option) list \<Rightarrow> ('v tx_state, unit) act" where
  "apply_overlay P lim [] = ret ()"
| "apply_overlay P lim ((key, payload) # ov) =
     bindS (case payload of
        None \<Rightarrow> catch_key_error (on_db (on_tree (logical_delete (bplus_class P lim) key))) (ret ())
      | Some b \<Rightarrow> on_db (on_tree (logical_set (bplus_class P lim) key b))) (\<lambda>_.
       apply_overlay P lim ov)"

definition unlock_if_locked :: "('v tx_state, unit) act" where
  "unlock_if_locked =
     bindS (gets (\<lambda>s. locked (lstorage (tree (tx_db s))))) (\<lambda>l. whenS l (on_db (on_file unlock)))"

definition tx_commit :: "string pickle \<Rightarrow> nat \<Rightarrow> ('v tx_state, unit) act" where
  "tx_commit P lim =
     finallyS
       (bindS (gets (overlay \<circ> txn)) (\<lambda>ov.
          if ov = [] then ret ()
          else
            bindS (on_db (on_file lock)) (\<lambda>_.
              finallyS
                (bindS (on_db (on_tree bp_refresh)) (\<lambda>_.
                 bindS (check_conflicts P lim (map fst ov)) (\<lambda>_.
                 bindS (apply_overlay P lim ov) (\<lambda>_.
                   on_db (on_tree (bp_commit P))))))
                unlock_if_locked)))
       close_base"

definition tx_abort :: "('v tx_state, unit) act" where
  "tx_abort = bindS (modify (set_overlay [])) (\<lambda>_. close_base)"

section \<open>Compaction\<close>

fun set_all :: "string pickle \<Rightarrow> nat \<Rightarrow> (string \<times> 'v) list \<Rightarrow> ('v dbdb, unit) act" where
  "set_all P lim [] = ret ()"
| "set_all P lim ((k, v) # kvs) = bindS (db_setitem P lim k v) (\<lambda>_. set_all P lim kvs)"

definition compact_fill :: "string pickle \<Rightarrow> nat \<Rightarrow> (string \<times> 'v) list \<Rightarrow> ('v dbdb, storage_stats) act" where
  "compact_fill P lim kvs = bindS (set_all P lim kvs) (\<lambda>_. bindS (db_commit P) (\<lambda>_. db_stats))"

text \<open>
  \<open>compact\<close>; \<open>tmp\<close> is what the file beside the database with the suffix \<open>.compact.tmp\<close>
  contains before, the empty string when there is none. The writes of the new file are
  flushed when it is closed.
\<close>

definition compact :: "string pickle \<Rightarrow> nat \<Rightarrow> bytes \<Rightarrow> string \<Rightarrow> ('v dbdb, storage_stats) act" where
  "compact P lim tmp dur =
     bindS assert_open (\<lambda>_.
     bindS (gets db_path) (\<lambda>p.
       if \<not> p then raise ValueError
       else
         bindS (gets open_snapshots) (\<lambda>n.
           if n > 0 then raise ImmuStoreError
           else
             bindS (db_items P lim) (\<lambda>kvs.
             bindS (gets db_codec) (\<lambda>C.
             bindS (lift (\<lambda>_.
               case DBDB tmp True C dur of
                 (Inl e, _) \<Rightarrow> Inl e
               | (Inr _, c) \<Rightarrow>
                   (case compact_fill P lim kvs c of
                      (Inl e, _) \<Rightarrow> Inl e
                    | (Inr stats, c') \<Rightarrow> Inr (stats, live (disk (lstorage (tree c'))))))) (\<lambda>(stats, f).
             bindS db_close (\<lambda>_.
             bindS (\<lambda>s. case DBDB f True C dur of (r, d) \<Rightarrow> (r, s\<lparr>tree := tree d\<rparr>)) (\<lambda>_.
               ret stats))))))))"

end
