(* ===== verification/DatabaseRefine.thy ===== *)
theory DatabaseRefine
  imports Database
begin

text \<open>
  The database handle over the contract of the index engine: \<open>db_rep\<close> relates an open handle
  to the content of its last commit and the content it shows, and the lemmas say what every
  operation of a handle, a snapshot and a transaction returns and does to them.
\<close>

section \<open>Handles\<close>

definition db_rep :: "string pickle \<Rightarrow> nat \<Rightarrow> 'v dbdb \<Rightarrow> string content \<Rightarrow> string content \<Rightarrow> bool" where
  "db_rep P lim d xs ys \<longleftrightarrow> pickle_ok P \<and> bp_rep P DEFAULT_ORDER lim (tree d) xs ys \<and> \<not> is_closed d"

text \<open>What an operation that goes through the tree leaves alone.\<close>

definition same_handle :: "'v dbdb \<Rightarrow> 'v dbdb \<Rightarrow> bool" where
  "same_handle d d' \<longleftrightarrow> db_path d' = db_path d \<and> db_codec d' = db_codec d \<and> open_snapshots d' = open_snapshots d
     \<and> later_file (lstorage (tree d)) (lstorage (tree d'))"

lemma same_handle_refl [simp]: "same_handle d d"
  by (simp add: same_handle_def)

lemma same_handle_trans: "same_handle d d' \<Longrightarrow> same_handle d' d'' \<Longrightarrow> same_handle d d''"
  by (auto simp: same_handle_def intro: later_file_trans)

lemma db_repD:
  assumes "db_rep P lim d xs ys"
  shows "pickle_ok P" "bp_rep P DEFAULT_ORDER lim (tree d) xs ys" "\<not> closed (disk (lstorage (tree d)))"
    "kv_sorted xs" "kv_sorted ys"
  using assms bp_rep_sorted [of P DEFAULT_ORDER lim "tree d" xs ys] by (simp_all add: db_rep_def is_closed_def)

lemma assert_open_ok: "db_rep P lim d xs ys \<Longrightarrow> assert_open d = (Inr (), d)"
  by (simp add: assert_open_def db_rep_def bindS_def act_defs)

lemma db_rep_tree:
  assumes "db_rep P lim d xs ys" "bp_rep P DEFAULT_ORDER lim t xs' ys'" "lstorage t = (lstorage (tree d))\<lparr>locked := l\<rparr>"
  shows "db_rep P lim (d\<lparr>tree := t\<rparr>) xs' ys'" "same_handle d (d\<lparr>tree := t\<rparr>)"
  using assms by (simp_all add: db_rep_def is_closed_def same_handle_def)

lemma tree_get:
  assumes "db_rep P lim d xs ys"
  obtains d' where "on_tree (logical_get (bplus_class P lim) k) d = (lookup_result (map_of ys) k, d')"
    "db_rep P lim d' xs ys" "same_handle d d'" "lstorage (tree d') = lstorage (tree d)"
proof -
  obtain t where t: "logical_get (bplus_class P lim) k (tree d) = (lookup_result (map_of ys) k, t)"
    "bp_rep P DEFAULT_ORDER lim t xs ys" "lstorage t = lstorage (tree d)"
    by (rule bpl.get_ok [OF db_repD(2) [OF assms]])
  have l: "lstorage t = (lstorage (tree d))\<lparr>locked := locked (lstorage (tree d))\<rparr>" using t(3) by simp
  show thesis by (rule that [of "d\<lparr>tree := t\<rparr>"]) (simp_all add: on_tree_def t(1) l db_rep_tree [OF assms t(2) l])
qed

lemma tree_items:
  assumes "db_rep P lim d xs ys"
  obtains d' where "on_tree (logical_items (bplus_class P lim)) d = (Inr (somes ys), d')" "db_rep P lim d' xs ys" "same_handle d d'"
proof -
  obtain t where t: "logical_items (bplus_class P lim) (tree d) = (Inr (somes ys), t)"
    "bp_rep P DEFAULT_ORDER lim t xs ys" "lstorage t = lstorage (tree d)"
    by (rule bpl.items_ok [OF db_repD(2) [OF assms]])
  have l: "lstorage t = (lstorage (tree d))\<lparr>locked := locked (lstorage (tree d))\<rparr>" using t(3) by simp
  show thesis by (rule that [of "d\<lparr>tree := t\<rparr>"]) (simp_all add: on_tree_def t(1) l db_rep_tree [OF assms t(2) l])
qed

lemma tree_range:
  assumes "db_rep P lim d xs ys"
  obtains d' where "on_tree (logical_range_items (bplus_class P lim) a b) d = (Inr (somes (filter (in_range a b) ys)), d')"
    "db_rep P lim d' xs ys" "same_handle d d'"
proof -
  obtain t where t: "logical_range_items (bplus_class P lim) a b (tree d) = (Inr (somes (filter (in_range a b) ys)), t)"
    "bp_rep P DEFAULT_ORDER lim t xs ys" "lstorage t = lstorage (tree d)"
    by (rule bpl.range_ok [OF db_repD(2) [OF assms]])
  have l: "lstorage t = (lstorage (tree d))\<lparr>locked := locked (lstorage (tree d))\<rparr>" using t(3) by simp
  show thesis by (rule that [of "d\<lparr>tree := t\<rparr>"]) (simp_all add: on_tree_def t(1) l db_rep_tree [OF assms t(2) l])
qed

lemma tree_set:
  assumes "db_rep P lim d xs ys" "Suc (length ys) < 2 ^ lim"
  obtains d' where "on_tree (logical_set (bplus_class P lim) k b) d = (Inr (), d')" "db_rep P lim d' xs (kv_upd k b ys)"
    "same_handle d d'" "locked (lstorage (tree d'))" "disk (lstorage (tree d')) = disk (lstorage (tree d))"
proof -
  obtain t where t: "logical_set (bplus_class P lim) k b (tree d) = (Inr (), t)"
    "bp_rep P DEFAULT_ORDER lim t xs (kv_upd k b ys)" "lstorage t = lstorage (hold_lock (tree d))"
    by (rule bpl.set_ok [OF db_repD(2) [OF assms(1)] assms(2)])
  have l: "lstorage t = (lstorage (tree d))\<lparr>locked := True\<rparr>" using t(3) by simp
  show thesis by (rule that [of "d\<lparr>tree := t\<rparr>"]) (simp_all add: on_tree_def t(1) l db_rep_tree [OF assms(1) t(2) l])
qed

lemma tree_delete:
  assumes "db_rep P lim d xs ys"
  obtains d' where "on_tree (logical_delete (bplus_class P lim) k) d = (if k \<in> fst ` set ys then Inr () else Inl KeyError, d')"
    "db_rep P lim d' xs (kv_del k ys)" "same_handle d d'" "locked (lstorage (tree d'))"
    "disk (lstorage (tree d')) = disk (lstorage (tree d))"
proof -
  obtain t where t: "logical_delete (bplus_class P lim) k (tree d) = (if k \<in> fst ` set ys then Inr () else Inl KeyError, t)"
    "bp_rep P DEFAULT_ORDER lim t xs (kv_del k ys)" "lstorage t = lstorage (hold_lock (tree d))"
    by (rule bpl.delete_ok [OF db_repD(2) [OF assms(1)]])
  have l: "lstorage t = (lstorage (tree d))\<lparr>locked := True\<rparr>" using t(3) by simp
  show thesis by (rule that [of "d\<lparr>tree := t\<rparr>"]) (simp_all add: on_tree_def t(1) l db_rep_tree [OF assms(1) t(2) l])
qed

lemma tree_refresh:
  assumes "db_rep P lim d xs ys"
  obtains d' where "on_tree bp_refresh d = (Inr (), d')" "db_rep P lim d' xs xs" "same_handle d d'"
    "lstorage (tree d') = lstorage (tree d)"
proof -
  obtain t where t: "bp_refresh (tree d) = (Inr (), t)" "bp_rep P DEFAULT_ORDER lim t xs xs" "lstorage t = lstorage (tree d)"
    using bp_refresh_law [OF db_repD(2) [OF assms]] by blast
  have l: "lstorage t = (lstorage (tree d))\<lparr>locked := locked (lstorage (tree d))\<rparr>" using t(3) by simp
  show thesis by (rule that [of "d\<lparr>tree := t\<rparr>"]) (simp_all add: on_tree_def t(1) l db_rep_tree [OF assms(1) t(2) l])
qed

lemma file_lock:
  assumes "db_rep P lim d xs ys"
  obtains d' where "on_file lock d = (Inr (\<not> locked (lstorage (tree d))), d')" "db_rep P lim d' xs ys" "same_handle d d'"
    "lstorage (tree d') = (lstorage (tree d))\<lparr>locked := True\<rparr>"
proof -
  let ?t = "hold_lock (tree d)"
  have l: "lstorage ?t = (lstorage (tree d))\<lparr>locked := True\<rparr>" by simp
  have t: "bp_rep P DEFAULT_ORDER lim ?t xs ys" using db_repD(2) [OF assms] by (auto simp: bp_rep_def intro: bp_inv_lock)
  have "on_file lock d = (Inr (\<not> locked (lstorage (tree d))), d\<lparr>tree := ?t\<rparr>)"
    by (simp add: on_file_def on_tree_def on_storage_def lock_eq)
  then show thesis by (rule that) (simp_all add: db_rep_tree [OF assms t l])
qed

lemma tree_commit:
  assumes "db_rep P lim d xs ys"
  obtains (ok) d' where "on_tree (bp_commit P) d = (Inr (), d')" "db_rep P lim d' ys ys" "same_handle d d'"
      "\<not> locked (lstorage (tree d'))" "crash_at_flush (disk (lstorage (tree d'))) = crash_at_flush (disk (lstorage (tree d)))"
      "records (drop SUPERBLOCK_SIZE (live (disk (lstorage (tree d)))))
        \<Longrightarrow> records (drop SUPERBLOCK_SIZE (live (disk (lstorage (tree d')))))" "full_file (lstorage (tree d'))"
      "flushed_twice (disk (lstorage (tree d))) (disk (lstorage (tree d')))"
  | (fails) e d' t where "on_tree (bp_commit P) d = (Inl e, d')" "e = StructError \<or> e = SimCrash"
      "bp_open DEFAULT_ORDER (file_seen d') = (Inr (), t)" "bp_rep P DEFAULT_ORDER lim t xs xs"
      "e = SimCrash \<Longrightarrow> crash_at_flush (disk (lstorage (tree d))) \<noteq> None" "later_file (lstorage (tree d)) (lstorage t)"
      "\<not> closed (disk (lstorage t))" "e = SimCrash \<Longrightarrow> crashes_soon (disk (lstorage (tree d)))"
proof (cases rule: bp_commit_ok [OF db_repD(2,1) [OF assms]])
  case (1 t)
  then show thesis using assms by (intro ok [of "d\<lparr>tree := t\<rparr>"]) (simp_all add: on_tree_def db_rep_def is_closed_def same_handle_def)
next
  case (2 e t t')
  show thesis
    by (rule fails [of e "d\<lparr>tree := t\<rparr>" t']) (use 2 in \<open>simp_all add: file_seen_def on_tree_def\<close>)
qed

lemma DBDB_open:
  "DBDB f has_path C DURABILITY_FULL =
     (case bp_open DEFAULT_ORDER f of (r, t) \<Rightarrow> (r, \<lparr>db_path = has_path, db_codec = C, tree = t, open_snapshots = 0\<rparr>))"
  by (simp add: DBDB_def bp_open_def split: prod.splits sum.splits)

lemma DEFAULT_ORDER_ge: "3 \<le> DEFAULT_ORDER"
  by (simp add: DEFAULT_ORDER_def)

lemma DBDB_fresh:
  assumes "pickle_ok P" "length f < SUPERBLOCK_SIZE" "0 < lim" "DBDB f has_path C DURABILITY_FULL = (x, d)"
  shows "x = Inr ()" "db_rep P lim d [] []" "db_path d = has_path" "db_codec d = C" "open_snapshots d = 0"
    "crash_at_flush (disk (lstorage (tree d))) = None" "records (drop SUPERBLOCK_SIZE (live (disk (lstorage (tree d)))))"
proof -
  obtain t where t: "bp_open DEFAULT_ORDER f = (Inr (), t)" "bp_rep P DEFAULT_ORDER lim t [] []" "\<not> closed (disk (lstorage t))"
    "crash_at_flush (disk (lstorage t)) = None" "length (live (disk (lstorage t))) = SUPERBLOCK_SIZE"
    by (rule bp_open_fresh [OF assms(2) DEFAULT_ORDER_ge assms(3)])
  then show "x = Inr ()" "db_rep P lim d [] []" "db_path d = has_path" "db_codec d = C" "open_snapshots d = 0"
    "crash_at_flush (disk (lstorage (tree d))) = None" "records (drop SUPERBLOCK_SIZE (live (disk (lstorage (tree d)))))"
    using assms(1,4) by (auto simp: DBDB_open db_rep_def is_closed_def)
qed

section \<open>Mapping operations\<close>

lemma db_getitem_ok:
  assumes "db_rep P lim d xs ys" "k \<noteq> []"
  obtains d' where "db_getitem P lim k d = (case map_of ys k of None \<Rightarrow> Inl KeyError | Some b \<Rightarrow> decode (db_codec d) b, d')"
    "db_rep P lim d' xs ys" "same_handle d d'"
proof -
  obtain d' where d': "on_tree (logical_get (bplus_class P lim) k) d = (lookup_result (map_of ys) k, d')"
    "db_rep P lim d' xs ys" "same_handle d d'"
    by (rule tree_get [OF assms(1)])
  then show thesis
    using assms by (intro that [of d'])
      (auto simp: db_getitem_def assert_open_ok validate_key_def bindS_def act_defs lookup_result_def decoded_def same_handle_def
        split: option.splits)
qed

lemma db_setitem_ok:
  assumes "db_rep P lim d xs ys" "k \<noteq> []" "Suc (length ys) < 2 ^ lim" "encode (db_codec d) v = Inr b"
  obtains d' where "db_setitem P lim k v d = (Inr (), d')" "db_rep P lim d' xs (kv_upd k b ys)" "same_handle d d'"
    "disk (lstorage (tree d')) = disk (lstorage (tree d))"
proof -
  obtain d' where d': "on_tree (logical_set (bplus_class P lim) k b) d = (Inr (), d')" "db_rep P lim d' xs (kv_upd k b ys)"
    "same_handle d d'" "disk (lstorage (tree d')) = disk (lstorage (tree d))"
    by (rule tree_set [OF assms(1,3)])
  then show thesis
    using assms by (intro that [of d']) (auto simp: db_setitem_def assert_open_ok validate_key_def bindS_def act_defs)
qed

lemma db_delitem_ok:
  assumes "db_rep P lim d xs ys" "k \<noteq> []"
  obtains d' where "db_delitem P lim k d = (if k \<in> fst ` set ys then Inr () else Inl KeyError, d')"
    "db_rep P lim d' xs (kv_del k ys)" "same_handle d d'" "locked (lstorage (tree d'))"
proof -
  obtain d' where d': "on_tree (logical_delete (bplus_class P lim) k) d = (if k \<in> fst ` set ys then Inr () else Inl KeyError, d')"
    "db_rep P lim d' xs (kv_del k ys)" "same_handle d d'" "locked (lstorage (tree d'))"
    by (rule tree_delete [OF assms(1)])
  then show thesis
    using assms by (intro that [of d']) (auto simp: db_delitem_def assert_open_ok validate_key_def bindS_def act_defs)
qed

lemma db_items_ok:
  assumes "db_rep P lim d xs ys"
  obtains d' where "db_items P lim d = (decode_pairs (db_codec d) (somes ys), d')" "db_rep P lim d' xs ys" "same_handle d d'"
proof -
  obtain d' where d': "on_tree (logical_items (bplus_class P lim)) d = (Inr (somes ys), d')" "db_rep P lim d' xs ys" "same_handle d d'"
    by (rule tree_items [OF assms(1)])
  then show thesis
    using assms by (intro that [of d']) (auto simp: db_items_def assert_open_ok bindS_def act_defs same_handle_def)
qed

lemma validate_bound_ok: "b \<noteq> Some [] \<Longrightarrow> validate_bound b s = (Inr (), s)"
  by (auto simp: validate_bound_def validate_key_def act_defs split: option.splits)

lemma filter_somes: "filter (\<lambda>(k, p). Q k) (somes ys) = somes (filter (\<lambda>(k, p). Q k) ys)"
  by (induction ys) auto

lemma db_scan_ok:
  assumes "db_rep P lim d xs ys" "pre \<noteq> Some []" "a \<noteq> Some []" "b \<noteq> Some []"
  obtains d' where "db_scan P lim pre a b d
      = (decode_pairs (db_codec d) (somes (filter (\<lambda>(k, v). in_bounds a b k \<and> has_prefix pre k) ys)), d')"
    "db_rep P lim d' xs ys" "same_handle d d'"
proof -
  obtain d' where d': "on_tree (logical_range_items (bplus_class P lim) a b) d = (Inr (somes (filter (in_range a b) ys)), d')"
    "db_rep P lim d' xs ys" "same_handle d d'"
    by (rule tree_range [OF assms(1)])
  have "filter (\<lambda>(k, p). has_prefix pre k) (filter (in_range a b) ys) = filter (\<lambda>(k, v). in_bounds a b k \<and> has_prefix pre k) ys"
    by (induction ys) auto
  then show thesis
    using assms d' by (intro that [of d'])
      (auto simp: db_scan_def assert_open_ok validate_bound_ok bindS_def act_defs same_handle_def filter_somes)
qed

lemma db_len_ok:
  assumes "db_rep P lim d xs ys"
  obtains d' where "db_len d = (Inr (int (length ys)), d')" "db_rep P lim d' xs ys" "same_handle d d'"
proof -
  obtain t where t: "bp_length (tree d) = (Inr (int (length ys)), t)" "bp_rep P DEFAULT_ORDER lim t xs ys" "lstorage t = lstorage (tree d)"
    by (rule bp_length_ok [OF db_repD(2) [OF assms]])
  have l: "lstorage t = (lstorage (tree d))\<lparr>locked := locked (lstorage (tree d))\<rparr>" using t(3) by simp
  show thesis
    by (rule that [of "d\<lparr>tree := t\<rparr>"])
      (simp_all add: db_len_def assert_open_ok [OF assms] bindS_def on_tree_def t(1) db_rep_tree [OF assms t(2) l])
qed

end
