(* ===== verification/Snapshots.thy ===== *)
theory Snapshots
  imports DatabaseRefine
begin

text \<open>
  Snapshots of a database: what a snapshot reads is the content of the commit it was taken at.
\<close>

section \<open>Snapshots\<close>

text \<open>The records \<open>g\<close> have all that the snapshot reads, and what it reads is \<open>zs\<close>.\<close>

definition sn_holds :: "string pickle \<Rightarrow> nat \<Rightarrow> 'v snapshot \<Rightarrow> bytes \<Rightarrow> string content \<Rightarrow> bool" where
  "sn_holds P lim sn g zs \<longleftrightarrow> 0 < lim \<and> length zs < 2 ^ lim \<and> sn_count sn = int (length zs)
     \<and> (\<exists>f. drop SUPERBLOCK_SIZE f = g \<and> tree_rep P (file_storage f) DEFAULT_ORDER (sn_root_ref sn) zs)"

abbreviation sn_now :: "'v dbdb \<Rightarrow> 'v snapshot \<Rightarrow> 'v snapshot" where
  "sn_now d sn \<equiv> snapshot_sees (file_seen d) sn"

lemma sn_view:
  assumes "sn_holds P lim sn g zs" "take (length g) (drop SUPERBLOCK_SIZE f) = g"
  shows "tree_rep P (sn_storage (snapshot_sees f sn)) DEFAULT_ORDER (sn_root_ref sn) zs"
proof -
  obtain f0 where f0: "drop SUPERBLOCK_SIZE f0 = g" "tree_rep P (file_storage f0) DEFAULT_ORDER (sn_root_ref sn) zs"
    using assms(1) by (auto simp: sn_holds_def)
  have "drop SUPERBLOCK_SIZE f = g @ drop (length g) (drop SUPERBLOCK_SIZE f)"
    using assms(2) by (metis append_take_drop_id)
  then have "extends (file_storage f0) (sn_storage (snapshot_sees f sn))"
    using f0(1) by (auto simp: extends_def snapshot_sees_def)
  then show ?thesis using f0(2) by (rule tree_rep_extends)
qed

lemma keeps_seen:
  assumes "keeps (lstorage (tree d)) g"
  shows "take (length g) (drop SUPERBLOCK_SIZE (file_seen d)) = g"
proof -
  obtain m where m: "storage_inv (lstorage (tree d)) m" "durability (lstorage (tree d)) = DURABILITY_FULL"
    "SUPERBLOCK_SIZE + length g \<le> data_length m" "take (length g) (drop SUPERBLOCK_SIZE (live (disk (lstorage (tree d))))) = g"
    using assms by (auto simp: keeps_def)
  have e: "take (data_length m) (file_seen d) = take (data_length m) (live (disk (lstorage (tree d))))"
    using m(1,2) by (simp add: storage_inv_def file_seen_def durable_bytes_def)
  have "length g \<le> data_length m - SUPERBLOCK_SIZE" using m(3) by simp
  then show ?thesis
    using arg_cong [OF e, of "\<lambda>f. take (length g) (drop SUPERBLOCK_SIZE f)"] m(4) by (simp add: drop_take min_def)
qed

lemma sn_reads:
  assumes "tree_rep P (sn_storage sn) DEFAULT_ORDER (sn_root_ref sn) zs" "length zs < 2 ^ lim" "0 < lim"
  shows "sn_raw P lim sn k = Inr (map_of zs k)"
    "sn_items P lim sn = decode_pairs (sn_codec sn) (somes zs)"
    "sn_scan P lim sn pre a b = decode_pairs (sn_codec sn) (somes (filter (\<lambda>(k, v). in_bounds a b k \<and> has_prefix pre k) zs))"
proof -
  note t = assms(1) DEFAULT_ORDER_ge assms(2,3)
  show "sn_raw P lim sn k = Inr (map_of zs k)"
    using bp_get_tree [OF t, of k] by (simp add: sn_raw_def sn_root_def lookup_result_def split: option.splits)
  show "sn_items P lim sn = decode_pairs (sn_codec sn) (somes zs)"
    using bp_items_tree [OF t] by (simp add: sn_items_def sn_root_def)
  have "filter (\<lambda>(k, p). has_prefix pre k) (filter (in_range a b) zs) = filter (\<lambda>(k, v). in_bounds a b k \<and> has_prefix pre k) zs"
    by (induction zs) auto
  then show "sn_scan P lim sn pre a b = decode_pairs (sn_codec sn) (somes (filter (\<lambda>(k, v). in_bounds a b k \<and> has_prefix pre k) zs))"
    using bp_range_tree [OF t, of a b] by (simp add: sn_scan_def sn_root_def filter_somes)
qed

lemma Snapshot_ok:
  assumes "file_meta f = Inr m" "SUPERBLOCK_SIZE \<le> length f"
  obtains sn where "Snapshot f root n C = Inr sn" "sn_root_ref sn = BPlusNodeRef None root" "sn_count sn = n"
    "sn_codec sn = C" "\<not> sn_closed sn"
proof -
  let ?st = "\<lparr>disk = SimDisk f, locked = False, durability = DURABILITY_FULL, readonly = True, smeta = Some m\<rparr>"
  have best: "read_best_meta st = Inr m" if "live (disk st) = f" for st using assms(1) that by (simp add: read_best_meta_file)
  have 1: "Storage (SimDisk f) DURABILITY_FULL True = (Inr (), ?st)"
    using assms(2) best by (simp add: Storage_def Let_def ensure_meta_def bindS_def act_defs SimDisk_def)
  let ?t = "\<lparr>lstorage = ?st, tree_ref = BPlusNodeRef None (root_address m), order = DEFAULT_ORDER, min_keys = DEFAULT_ORDER div 2,
    count = key_count m\<rparr> :: string bplus_tree"
  have "refresh_meta ?st = (Inr m, ?st)" using best by (simp add: refresh_meta_def bindS_def act_defs SimDisk_def)
  then have 2: "BPlusTree ?st DEFAULT_ORDER = (Inr (), ?t)"
    using DEFAULT_ORDER_ge
    by (simp add: BPlusTree_def Let_def bp_refresh_def on_storage_def get_root_address_def get_key_count_def bindS_def act_defs)
  have "Snapshot f root n C = Inr \<lparr>sn_storage = ?st, sn_root_ref = BPlusNodeRef None root, sn_count = n, sn_codec = C, sn_closed = False\<rparr>"
    by (simp add: Snapshot_def 1 2)
  then show thesis by (rule that) simp_all
qed

lemma seen_meta:
  assumes "db_rep P lim d xs ys"
  obtains m where "storage_inv (lstorage (tree d)) m" "durability (lstorage (tree d)) = DURABILITY_FULL"
    "bp_committed P DEFAULT_ORDER m (live (disk (lstorage (tree d)))) xs" "0 < lim" "length xs < 2 ^ lim"
    "file_meta (file_seen d) = Inr m" "SUPERBLOCK_SIZE \<le> length (file_seen d)"
proof (rule bp_repE [OF db_repD(2) [OF assms]])
  fix m
  assume m: "bp_inv P (tree d) m xs ys" "order (tree d) = DEFAULT_ORDER" "0 < lim" "length xs < 2 ^ lim"
  have inv: "storage_inv (lstorage (tree d)) m" "durability (lstorage (tree d)) = DURABILITY_FULL"
    using m(1) by (simp_all add: bp_inv_def)
  have com: "bp_committed P DEFAULT_ORDER m (live (disk (lstorage (tree d)))) xs"
    using m(1,2) by (simp add: bp_inv_def)
  note i = storage_inv_simps [OF inv(1)]
  have e: "data_length m \<le> length (file_seen d)"
    "take (data_length m) (file_seen d) = take (data_length m) (live (disk (lstorage (tree d))))"
    using inv by (simp_all add: storage_inv_def file_seen_def durable_bytes_def)
  have "take SUPERBLOCK_SIZE (file_seen d) = take SUPERBLOCK_SIZE (live (disk (lstorage (tree d))))"
    using arg_cong [OF e(2), of "take SUPERBLOCK_SIZE"] i(4) by (simp add: min_def)
  then have "file_meta (file_seen d) = Inr m"
    using i(3) file_meta_prefix [of "file_seen d" "live (disk (lstorage (tree d)))"] by (simp add: read_best_meta_file)
  then show thesis using e(1) i(4) m(3,4) inv com by (intro that) simp_all
qed

lemma db_snapshot_ok:
  assumes "db_rep P lim d xs ys" "db_path d"
  obtains sn g where "db_snapshot d = (Inr sn, d\<lparr>open_snapshots := open_snapshots d + 1\<rparr>)"
    "keeps (lstorage (tree d)) g" "sn_holds P lim sn g xs" "sn_codec sn = db_codec d" "\<not> sn_closed sn"
proof (rule seen_meta [OF assms(1)])
  fix m
  assume inv: "storage_inv (lstorage (tree d)) m" "durability (lstorage (tree d)) = DURABILITY_FULL"
    and com: "bp_committed P DEFAULT_ORDER m (live (disk (lstorage (tree d)))) xs" and lim: "0 < lim" "length xs < 2 ^ lim"
    and f: "file_meta (file_seen d) = Inr m" "SUPERBLOCK_SIZE \<le> length (file_seen d)"
  note i = storage_inv_simps [OF inv(1)]
  obtain sn where sn: "Snapshot (file_seen d) (root_address m) (key_count m) (db_codec d) = Inr sn"
    "sn_root_ref sn = BPlusNodeRef None (root_address m)" "sn_count sn = key_count m" "sn_codec sn = db_codec d" "\<not> sn_closed sn"
    by (rule Snapshot_ok [OF f])
  define F where "F = take (data_length m) (live (disk (lstorage (tree d))))"
  have len: "SUPERBLOCK_SIZE + length (drop SUPERBLOCK_SIZE F) \<le> data_length m" using i(4,5) by (simp add: F_def)
  have "take (length (drop SUPERBLOCK_SIZE F)) (drop SUPERBLOCK_SIZE (live (disk (lstorage (tree d))))) = drop SUPERBLOCK_SIZE F"
    using i(4,5) by (simp add: F_def drop_take)
  then have k: "keeps (lstorage (tree d)) (drop SUPERBLOCK_SIZE F)" unfolding keeps_def using inv len by blast
  have "tree_rep P (file_storage F) DEFAULT_ORDER (sn_root_ref sn) xs" "sn_count sn = int (length xs)"
    using com sn(2,3) by (simp_all add: bp_committed_def committed_def F_def)
  then have h: "sn_holds P lim sn (drop SUPERBLOCK_SIZE F) xs" using lim unfolding sn_holds_def by blast
  have "db_snapshot d = (Inr sn, d\<lparr>open_snapshots := open_snapshots d + 1\<rparr>)"
    using assms(2) sn(1) refresh_meta_inv [OF inv(1)]
    by (simp add: db_snapshot_def assert_open_ok [OF assms(1)] bindS_def act_defs on_file_def on_tree_def on_storage_def
        get_root_address_def get_key_count_def file_seen_def)
  then show thesis using k h sn(4,5) by (rule that)
qed

section \<open>Versions over a run of the engine\<close>

lemma bp_step_later:
  assumes "bp_state P ord lim s xs ys" "Suc (length ys) < 2 ^ lim" "engine_step (bplus_ops P ord lim) q s = (r, s')"
    and "\<not> closed (disk (lstorage s))"
  shows "later_file (lstorage s) (lstorage s') \<and> \<not> closed (disk (lstorage s'))"
proof (cases q)
  case (Get k)
  show ?thesis
    by (rule bpl.get_ok [OF bp_stateD(2) [OF assms(1)], of k])
      (use Get assms(3,4) in \<open>auto simp: bplus_ops_def reply_of_def split: sum.splits\<close>)
next
  case (Put k v)
  show ?thesis
    by (rule bpl.set_ok [OF bp_stateD(2) [OF assms(1)] assms(2), of k v]) (use Put assms(3,4) in \<open>auto simp: bplus_ops_def reply_of_def\<close>)
next
  case (Remove k)
  show ?thesis
    by (rule bpl.delete_ok [OF bp_stateD(2) [OF assms(1)], of k])
      (use Remove assms(3,4) in \<open>auto simp: bplus_ops_def reply_of_def split: sum.splits if_splits\<close>)
next
  case Items
  show ?thesis
    by (rule bpl.items_ok [OF bp_stateD(2) [OF assms(1)]]) (use Items assms(3,4) in \<open>auto simp: bplus_ops_def reply_of_def\<close>)
next
  case (Range a b)
  show ?thesis
    by (rule bpl.range_ok [OF bp_stateD(2) [OF assms(1)], of a b]) (use Range assms(3,4) in \<open>auto simp: bplus_ops_def reply_of_def\<close>)
next
  case Length
  show ?thesis
    by (rule bp_length_ok [OF bp_stateD(2) [OF assms(1)]]) (use Length assms(3,4) in \<open>auto simp: bplus_ops_def reply_of_def\<close>)
next
  case Commit
  show ?thesis
    by (rule bp_commit_ok [OF bp_stateD(2,1) [OF assms(1)]])
      (use Commit assms(3,4) in \<open>auto simp: bplus_ops_def reopened_def\<close>)
next
  case PowerLoss
  show ?thesis
    by (rule bp_rep_reopen [OF bp_stateD(2) [OF assms(1)]])
      (use PowerLoss assms(3,4) in \<open>auto simp: bplus_ops_def reopened_def reply_of_def\<close>)
next
  case (CrashAt n)
  have "later_file (lstorage s) ((lstorage s)\<lparr>disk := arm_crash n (disk (lstorage s))\<rparr>)"
    by (auto simp: later_file_def keeps_def storage_inv_def read_best_meta_file arm_crash_def)
  then show ?thesis using CrashAt assms(3,4) by (auto simp: bplus_ops_def arm_crash_def)
qed

lemma bp_run_later:
  assumes "bp_state P ord lim s xs ys" "Suc (max (length xs) (length ys) + puts qs) < 2 ^ lim"
    and "engine_run (bplus_ops P ord lim) qs s = (rs, s')" "\<not> closed (disk (lstorage s))"
  shows "later_file (lstorage s) (lstorage s') \<and> \<not> closed (disk (lstorage s'))"
  using assms
proof (induction qs arbitrary: s xs ys rs)
  case (Cons q qs)
  let ?E = "bplus_ops P ord lim"
  obtain r s1 where 1: "engine_step ?E q s = (r, s1)" by fastforce
  obtain rs' where 2: "engine_run ?E qs s1 = (rs', s')" using Cons.prems(3) 1 by (auto split: prod.splits)
  have p: "puts (q # qs) = puts [q] + puts qs" by (cases q) auto
  have b: "Suc (length ys) < 2 ^ lim" using Cons.prems(2) by simp
  obtain xs1 ys1 where 3: "spec_step (xs, ys) q r (xs1, ys1)" "bp_state P ord lim s1 xs1 ys1"
    using bp.step_refines [OF Cons.prems(1) b 1] by blast
  have l: "later_file (lstorage s) (lstorage s1)" "\<not> closed (disk (lstorage s1))"
    using bp_step_later [OF Cons.prems(1) b 1 Cons.prems(4)] by simp_all
  have "max (length xs1) (length ys1) \<le> max (length xs) (length ys) + puts [q]"
    using spec_step_length [OF 3(1)] bp.rep_sorted [OF Cons.prems(1)] by simp
  then have "Suc (max (length xs1) (length ys1) + puts qs) < 2 ^ lim" using Cons.prems(2) p by linarith
  then show ?case using Cons.IH [OF 3(2) _ 2 l(2)] l(1) later_file_trans by blast
qed simp

text \<open>A snapshot reads what it holds as long as the file keeps the records of its version.\<close>

lemma sn_reads_later:
  assumes "sn_holds P lim sn g zs" "keeps (lstorage (tree d)) g"
  shows "sn_raw P lim (sn_now d sn) k = Inr (map_of zs k)"
    "sn_items P lim (sn_now d sn) = decode_pairs (sn_codec sn) (somes zs)"
    "sn_scan P lim (sn_now d sn) pre a b
      = decode_pairs (sn_codec sn) (somes (filter (\<lambda>(k, v). in_bounds a b k \<and> has_prefix pre k) zs))"
proof -
  have t: "tree_rep P (sn_storage (sn_now d sn)) DEFAULT_ORDER (sn_root_ref (sn_now d sn)) zs"
    using sn_view [OF assms(1) keeps_seen [OF assms(2)]] by (simp add: snapshot_sees_def)
  have b: "length zs < 2 ^ lim" "0 < lim" using assms(1) by (simp_all add: sn_holds_def)
  show "sn_raw P lim (sn_now d sn) k = Inr (map_of zs k)" by (rule sn_reads(1) [OF t b])
  show "sn_items P lim (sn_now d sn) = decode_pairs (sn_codec sn) (somes zs)"
    using sn_reads(2) [OF t b] by (simp add: snapshot_sees_def)
  show "sn_scan P lim (sn_now d sn) pre a b
      = decode_pairs (sn_codec sn) (somes (filter (\<lambda>(k, v). in_bounds a b k \<and> has_prefix pre k) zs))"
    using sn_reads(3) [OF t b] by (simp add: snapshot_sees_def)
qed

end
