(* ===== verification/Transactions.thy ===== *)
theory Transactions
  imports Snapshots
begin

text \<open>
  Optimistic transactions: what they read, when they conflict and what a commit leaves in the
  database. \<open>tx_rep\<close> relates a running transaction to the content of the last commit of
  its database, the content the database shows and the content the transaction began with.
\<close>

section \<open>Running transactions\<close>

definition tx_rep ::
  "string pickle \<Rightarrow> nat \<Rightarrow> 'v tx_state \<Rightarrow> string content \<Rightarrow> string content \<Rightarrow> string content \<Rightarrow> bool" where
  "tx_rep P lim s xs ys zs \<longleftrightarrow> db_rep P lim (tx_db s) xs ys
     \<and> (\<exists>sn g. base (txn s) = Some sn \<and> sn_codec sn = db_codec (tx_db s) \<and> \<not> sn_closed sn
          \<and> keeps (lstorage (tree (tx_db s))) g \<and> sn_holds P lim sn g zs)"

lemma tx_repE:
  assumes "tx_rep P lim s xs ys zs"
  obtains sn g where "db_rep P lim (tx_db s) xs ys" "base (txn s) = Some sn" "sn_codec sn = db_codec (tx_db s)"
    "\<not> sn_closed sn" "keeps (lstorage (tree (tx_db s))) g" "sn_holds P lim sn g zs"
  using assms by (auto simp: tx_rep_def)

lemma tx_rep_db: "tx_rep P lim s xs ys zs \<Longrightarrow> db_rep P lim (tx_db s) xs ys"
  by (simp add: tx_rep_def)

text \<open>A transaction keeps its base whatever is done with the database.\<close>

lemma tx_rep_same:
  assumes "tx_rep P lim s xs ys zs" "db_rep P lim (tx_db s') xs' ys'" "same_handle (tx_db s) (tx_db s')"
    and "base (txn s') = base (txn s)"
  shows "tx_rep P lim s' xs' ys' zs"
proof (rule tx_repE [OF assms(1)])
  fix sn g
  assume b: "base (txn s) = Some sn" "sn_codec sn = db_codec (tx_db s)" "\<not> sn_closed sn"
    "keeps (lstorage (tree (tx_db s))) g" "sn_holds P lim sn g zs"
  then have "keeps (lstorage (tree (tx_db s'))) g" "db_codec (tx_db s') = db_codec (tx_db s)"
    using assms(3) by (simp_all add: same_handle_def later_file_def)
  then show ?thesis unfolding tx_rep_def using assms(2,4) b by metis
qed

lemma on_db_eq: "m (tx_db s) = (r, d) \<Longrightarrow> on_db m s = (r, s\<lparr>tx_db := d\<rparr>)"
  by (simp add: on_db_def)

lemma tx_begin_ok:
  assumes "db_rep P lim (tx_db s) xs ys" "db_path (tx_db s)" "base (txn s) = None"
  obtains s' where "tx_begin s = (Inr (), s')" "tx_rep P lim s' xs ys xs" "overlay (txn s') = overlay (txn s)"
    "tx_db s' = (tx_db s)\<lparr>open_snapshots := open_snapshots (tx_db s) + 1\<rparr>"
proof (rule db_snapshot_ok [OF assms(1,2)])
  fix sn g
  assume sn: "db_snapshot (tx_db s) = (Inr sn, (tx_db s)\<lparr>open_snapshots := open_snapshots (tx_db s) + 1\<rparr>)"
    "keeps (lstorage (tree (tx_db s))) g" "sn_holds P lim sn g xs" "sn_codec sn = db_codec (tx_db s)" "\<not> sn_closed sn"
  let ?d = "(tx_db s)\<lparr>open_snapshots := open_snapshots (tx_db s) + 1\<rparr>"
  let ?s = "s\<lparr>tx_db := ?d, txn := (txn s)\<lparr>base := Some sn\<rparr>\<rparr>"
  have "tx_begin s = (Inr (), ?s)"
    using assms(3) sn(1) assert_open_ok [OF assms(1)] by (simp add: tx_begin_def bindS_def act_defs on_db_def)
  moreover have "db_rep P lim ?d xs ys" using assms(1) by (simp add: db_rep_def is_closed_def)
  then have "tx_rep P lim ?s xs ys xs" using sn(2-5) unfolding tx_rep_def by auto
  ultimately show thesis by (rule that) simp_all
qed

section \<open>Reads\<close>

definition ov_lookup :: "(string \<times> bytes option) list \<Rightarrow> string content \<Rightarrow> string \<Rightarrow> bytes option" where
  "ov_lookup ov zs k = (case map_of ov k of Some p \<Rightarrow> p | None \<Rightarrow> map_of zs k)"

lemma ov_lookup_Nil [simp]: "ov_lookup [] zs = map_of zs"
  by (simp add: ov_lookup_def fun_eq_iff)

lemma ov_lookup_update [simp]: "ov_lookup (AList.update k p ov) zs = (ov_lookup ov zs)(k := p)"
  by (simp add: ov_lookup_def fun_eq_iff update_conv)

lemma with_base_raw:
  assumes "tx_rep P lim s xs ys zs"
  shows "with_base (\<lambda>sn. sn_raw P lim sn k) s = (Inr (map_of zs k), s)"
proof (rule tx_repE [OF assms])
  fix sn g
  assume "base (txn s) = Some sn" "keeps (lstorage (tree (tx_db s))) g" "sn_holds P lim sn g zs"
  then show ?thesis using sn_reads_later(1) by (simp add: with_base_def act_defs)
qed

lemma with_base_getitem:
  assumes "tx_rep P lim s xs ys zs"
  shows "with_base (\<lambda>sn. sn_getitem P lim sn k) s
    = (case map_of zs k of None \<Rightarrow> Inl KeyError | Some b \<Rightarrow> decode (db_codec (tx_db s)) b, s)"
proof (rule tx_repE [OF assms])
  fix sn g
  assume "base (txn s) = Some sn" "sn_codec sn = db_codec (tx_db s)"
    "keeps (lstorage (tree (tx_db s))) g" "sn_holds P lim sn g zs"
  then show ?thesis
    using sn_reads_later(1) [of P lim sn g zs "tx_db s" k]
    by (simp add: with_base_def act_defs sn_getitem_def snapshot_sees_def split: option.splits)
qed

lemma tx_get_ok:
  assumes "tx_rep P lim s xs ys zs" "k \<noteq> []"
  shows "tx_get P lim k s
    = (case ov_lookup (overlay (txn s)) zs k of None \<Rightarrow> Inl KeyError | Some b \<Rightarrow> decode (db_codec (tx_db s)) b, s)"
  using assms(2) with_base_getitem [OF assms(1), of k]
  by (auto simp: tx_get_def validate_key_def bindS_def act_defs ov_lookup_def split: option.splits)

lemma tx_contains_ok:
  assumes "tx_rep P lim s xs ys zs"
  shows "tx_contains P lim k s = (Inr (ov_lookup (overlay (txn s)) zs k \<noteq> None), s)"
proof -
  have "with_base (\<lambda>sn. sn_contains P lim sn k) s = (Inr (map_of zs k \<noteq> None), s)"
    using with_base_raw [OF assms, of k] by (auto simp: with_base_def sn_contains_def act_defs split: option.splits)
  then show ?thesis by (auto simp: tx_contains_def bindS_def act_defs ov_lookup_def split: option.splits)
qed

lemma tx_rep_overlay: "tx_rep P lim (set_overlay ov s) xs ys zs \<longleftrightarrow> tx_rep P lim s xs ys zs"
  by (simp add: tx_rep_def set_overlay_def)

lemma tx_set_ok:
  assumes "tx_rep P lim s xs ys zs" "k \<noteq> []" "encode (db_codec (tx_db s)) v = Inr b"
  obtains s' where "tx_set k v s = (Inr (), s')" "tx_rep P lim s' xs ys zs" "tx_db s' = tx_db s"
    "overlay (txn s') = AList.update k (Some b) (overlay (txn s))"
  by (rule that [of "set_overlay (AList.update k (Some b) (overlay (txn s))) s"])
    (use assms in \<open>auto simp: tx_set_def validate_key_def bindS_def act_defs tx_rep_overlay\<close>, simp_all add: set_overlay_def)

lemma tx_delete_ok:
  assumes "tx_rep P lim s xs ys zs" "k \<noteq> []"
  shows "tx_delete P lim k s =
    (if ov_lookup (overlay (txn s)) zs k = None then (Inl KeyError, s)
     else (Inr (), set_overlay (AList.update k None (overlay (txn s))) s))"
  using assms(2) tx_contains_ok [OF assms(1), of k] by (simp add: tx_delete_def validate_key_def bindS_def act_defs)

section \<open>Commit\<close>

text \<open>What the writes of an overlay make of a content.\<close>

fun apply_writes :: "(string \<times> bytes option) list \<Rightarrow> string content \<Rightarrow> string content" where
  "apply_writes [] ys = ys"
| "apply_writes ((k, p) # ov) ys = apply_writes ov (case p of None \<Rightarrow> kv_del k ys | Some b \<Rightarrow> kv_upd k b ys)"

lemma apply_writes_lookup:
  "distinct (map fst ov) \<Longrightarrow> kv_sorted ys \<Longrightarrow> map_of (apply_writes ov ys) = ov_lookup ov ys"
proof (induction ov arbitrary: ys)
  case (Cons kp ov)
  obtain k p where kp: "kp = (k, p)" by (cases kp)
  let ?ys = "case p of None \<Rightarrow> kv_del k ys | Some b \<Rightarrow> kv_upd k b ys"
  have m: "map_of ?ys = (map_of ys)(k := p)"
    using Cons.prems(2) by (cases p) (simp_all add: map_of_kv_upd map_of_kv_del)
  have "kv_sorted ?ys" using Cons.prems(2) by (cases p) (simp_all add: kv_sorted_upd kv_sorted_del)
  then have "map_of (apply_writes ov ?ys) = ov_lookup ov ?ys" using Cons by (simp add: kp)
  moreover have "map_of ov k = None" using Cons.prems(1) by (simp add: kp map_of_eq_None_iff)
  ultimately show ?case using m by (auto simp: kp ov_lookup_def fun_eq_iff split: option.splits)
qed simp

text \<open>States of a transaction that differ only in what the reads of the tree remember.\<close>

definition same_tx :: "'v tx_state \<Rightarrow> 'v tx_state \<Rightarrow> bool" where
  "same_tx s s' \<longleftrightarrow> same_handle (tx_db s) (tx_db s') \<and> txn s' = txn s"

lemma same_tx_refl [simp]: "same_tx s s"
  by (simp add: same_tx_def)

lemma same_tx_trans: "same_tx s s' \<Longrightarrow> same_tx s' s'' \<Longrightarrow> same_tx s s''"
  by (auto simp: same_tx_def intro: same_handle_trans)

lemma tx_rep_same_tx:
  "tx_rep P lim s xs ys zs \<Longrightarrow> db_rep P lim (tx_db s') xs' ys' \<Longrightarrow> same_tx s s' \<Longrightarrow> tx_rep P lim s' xs' ys' zs"
  by (rule tx_rep_same) (simp_all add: same_tx_def)

lemma check_conflicts_ok:
  assumes "tx_rep P lim s xs ys zs"
  obtains s' where "check_conflicts P lim keys s
      = (if \<exists>k \<in> set keys. map_of zs k \<noteq> map_of ys k then Inl ConflictError else Inr (), s')"
    "tx_rep P lim s' xs ys zs" "same_tx s s'" "lstorage (tree (tx_db s')) = lstorage (tree (tx_db s))"
  using assms
proof (induction keys arbitrary: s thesis)
  case (Cons k keys)
  obtain d where d: "on_tree (logical_get (bplus_class P lim) k) (tx_db s) = (lookup_result (map_of ys) k, d)"
    "db_rep P lim d xs ys" "same_handle (tx_db s) d" "lstorage (tree d) = lstorage (tree (tx_db s))"
    by (rule tree_get [OF tx_rep_db [OF Cons.prems(2)]])
  let ?s = "s\<lparr>tx_db := d\<rparr>"
  have same: "same_tx s ?s" using d(3) by (simp add: same_tx_def)
  then have rep: "tx_rep P lim ?s xs ys zs" using tx_rep_same_tx [OF Cons.prems(2)] d(2) by simp
  have eq: "check_conflicts P lim (k # keys) s
      = (if map_of zs k \<noteq> map_of ys k then (Inl ConflictError, ?s) else check_conflicts P lim keys ?s)"
    using with_base_raw [OF Cons.prems(2), of k] d(1)
    by (cases "map_of ys k") (simp_all add: bindS_def act_defs on_db_def catch_key_error_def lookup_result_def)
  show ?case
  proof (cases "map_of zs k = map_of ys k")
    case True
    obtain s' where "check_conflicts P lim keys ?s
        = (if \<exists>k \<in> set keys. map_of zs k \<noteq> map_of ys k then Inl ConflictError else Inr (), s')"
      "tx_rep P lim s' xs ys zs" "same_tx ?s s'" "lstorage (tree (tx_db s')) = lstorage (tree (tx_db ?s))"
      by (rule Cons.IH [OF _ rep])
    then show ?thesis using True eq same d(4) same_tx_trans [OF same] by (intro Cons.prems(1) [of s']) simp_all
  next
    case False
    then show ?thesis using eq rep same d(4) by (intro Cons.prems(1) [of ?s]) simp_all
  qed
qed (simp add: act_defs)

lemma apply_overlay_ok:
  assumes "db_rep P lim (tx_db s) xs ys" "length ys + length ov < 2 ^ lim"
  obtains s' where "apply_overlay P lim ov s = (Inr (), s')" "db_rep P lim (tx_db s') xs (apply_writes ov ys)" "same_tx s s'"
    "disk (lstorage (tree (tx_db s'))) = disk (lstorage (tree (tx_db s)))"
  using assms
proof (induction ov arbitrary: s ys thesis)
  case (Cons kp ov)
  obtain k p where kp: "kp = (k, p)" by (cases kp)
  let ?ys = "case p of None \<Rightarrow> kv_del k ys | Some b \<Rightarrow> kv_upd k b ys"
  let ?m = "case p of None \<Rightarrow> catch_key_error (on_db (on_tree (logical_delete (bplus_class P lim) k))) (ret ())
      | Some b \<Rightarrow> on_db (on_tree (logical_set (bplus_class P lim) k b))"
  obtain d where d: "?m s = (Inr (), s\<lparr>tx_db := d\<rparr>)" "db_rep P lim d xs ?ys" "same_handle (tx_db s) d"
    "disk (lstorage (tree d)) = disk (lstorage (tree (tx_db s)))"
  proof (cases p)
    case None
    obtain d where d: "on_tree (logical_delete (bplus_class P lim) k) (tx_db s) = (if k \<in> fst ` set ys then Inr () else Inl KeyError, d)"
      "db_rep P lim d xs (kv_del k ys)" "same_handle (tx_db s) d" "disk (lstorage (tree d)) = disk (lstorage (tree (tx_db s)))"
      by (rule tree_delete [OF Cons.prems(2)])
    then show thesis by (intro that [of d]) (simp_all add: None on_db_def catch_key_error_def act_defs)
  next
    case (Some b)
    have "Suc (length ys) < 2 ^ lim" using Cons.prems(3) by simp
    then obtain d where d: "on_tree (logical_set (bplus_class P lim) k b) (tx_db s) = (Inr (), d)" "db_rep P lim d xs (kv_upd k b ys)"
      "same_handle (tx_db s) d" "disk (lstorage (tree d)) = disk (lstorage (tree (tx_db s)))"
      by (rule tree_set [OF Cons.prems(2)])
    then show thesis by (intro that [of d]) (simp_all add: Some on_db_def)
  qed
  have "length ?ys \<le> Suc (length ys)"
    using length_kv_upd [OF db_repD(5) [OF Cons.prems(2)], of k] by (cases p) (auto simp: length_kv_del)
  then have b: "length ?ys + length ov < 2 ^ lim" using Cons.prems(3) by simp
  have rep: "db_rep P lim (tx_db (s\<lparr>tx_db := d\<rparr>)) xs ?ys" using d(2) by simp
  obtain s' where s': "apply_overlay P lim ov (s\<lparr>tx_db := d\<rparr>) = (Inr (), s')" "db_rep P lim (tx_db s') xs (apply_writes ov ?ys)"
    "same_tx (s\<lparr>tx_db := d\<rparr>) s'" "disk (lstorage (tree (tx_db s'))) = disk (lstorage (tree (tx_db (s\<lparr>tx_db := d\<rparr>))))"
    by (rule Cons.IH [OF _ rep b])
  have "same_tx s s'" by (rule same_tx_trans [OF _ s'(3)]) (simp add: same_tx_def d(3))
  moreover have "apply_overlay P lim (kp # ov) s = (Inr (), s')" using d(1) s'(1) by (simp add: kp bindS_def)
  ultimately show ?case using s'(2,4) d(4) by (intro Cons.prems(1) [of s']) (simp_all add: kp)
qed (simp add: act_defs)

lemma close_base_ok:
  assumes "base (txn s) = Some sn" "\<not> sn_closed sn"
  shows "close_base s = (Inr (), s\<lparr>tx_db := (tx_db s)\<lparr>open_snapshots := open_snapshots (tx_db s) - 1\<rparr>, txn := (txn s)\<lparr>base := None\<rparr>\<rparr>)"
  using assms by (simp add: close_base_def bindS_def act_defs on_db_def snapshot_close_def snapshot_closed_def)

text \<open>The part of \<open>commit\<close> inside the lock.\<close>

abbreviation locked_part :: "string pickle \<Rightarrow> nat \<Rightarrow> (string \<times> bytes option) list \<Rightarrow> ('v tx_state, unit) act" where
  "locked_part P lim ov \<equiv>
     bindS (on_db (on_tree bp_refresh)) (\<lambda>_.
     bindS (check_conflicts P lim (map fst ov)) (\<lambda>_.
     bindS (apply_overlay P lim ov) (\<lambda>_.
       on_db (on_tree (bp_commit P)))))"

definition conflict :: "(string \<times> bytes option) list \<Rightarrow> string content \<Rightarrow> string content \<Rightarrow> bool" where
  "conflict ov zs xs \<longleftrightarrow> (\<exists>k \<in> fst ` set ov. map_of zs k \<noteq> map_of xs k)"

lemma locked_part_ok:
  assumes "tx_rep P lim s xs ys zs" "length xs + length ov < 2 ^ lim"
  obtains (conflict) s' where "conflict ov zs xs" "locked_part P lim ov s = (Inl ConflictError, s')"
      "db_rep P lim (tx_db s') xs xs" "same_tx s s'" "lstorage (tree (tx_db s')) = lstorage (tree (tx_db s))"
  | (ok) s' where "\<not> conflict ov zs xs" "locked_part P lim ov s = (Inr (), s')"
      "db_rep P lim (tx_db s') (apply_writes ov xs) (apply_writes ov xs)" "same_tx s s'" "\<not> locked (lstorage (tree (tx_db s')))"
      "\<not> crashes_soon (disk (lstorage (tree (tx_db s))))"
  | (fails) e s' t where "\<not> conflict ov zs xs" "locked_part P lim ov s = (Inl e, s')" "e = StructError \<or> e = SimCrash"
      "bp_open DEFAULT_ORDER (file_seen (tx_db s')) = (Inr (), t)" "bp_rep P DEFAULT_ORDER lim t xs xs" "txn s' = txn s"
      "e = SimCrash \<Longrightarrow> crashes_soon (disk (lstorage (tree (tx_db s))))"
proof -
  obtain d where d: "on_tree bp_refresh (tx_db s) = (Inr (), d)" "db_rep P lim d xs xs" "same_handle (tx_db s) d"
    "lstorage (tree d) = lstorage (tree (tx_db s))"
    by (rule tree_refresh [OF tx_rep_db [OF assms(1)]])
  let ?s = "s\<lparr>tx_db := d\<rparr>"
  have 1: "same_tx s ?s" using d(3) by (simp add: same_tx_def)
  then have rep: "tx_rep P lim ?s xs xs zs" using tx_rep_same_tx [OF assms(1)] d(2) by simp
  obtain s1 where s1: "check_conflicts P lim (map fst ov) ?s
      = (if \<exists>k \<in> set (map fst ov). map_of zs k \<noteq> map_of xs k then Inl ConflictError else Inr (), s1)"
    "tx_rep P lim s1 xs xs zs" "same_tx ?s s1" "lstorage (tree (tx_db s1)) = lstorage (tree (tx_db ?s))"
    by (rule check_conflicts_ok [OF rep])
  have 2: "same_tx s s1" by (rule same_tx_trans [OF 1 s1(3)])
  obtain s2 where s2: "apply_overlay P lim ov s1 = (Inr (), s2)" "db_rep P lim (tx_db s2) xs (apply_writes ov xs)"
    "same_tx s1 s2" "disk (lstorage (tree (tx_db s2))) = disk (lstorage (tree (tx_db s1)))"
    by (rule apply_overlay_ok [OF tx_rep_db [OF s1(2)] assms(2)])
  have 3: "same_tx s s2" by (rule same_tx_trans [OF 2 s2(3)])
  have eq: "locked_part P lim ov s =
      (if conflict ov zs xs then (Inl ConflictError, s1) else on_db (on_tree (bp_commit P)) s2)"
    using d(1) s1(1) s2(1) by (simp add: bindS_def on_db_def conflict_def)
  show thesis
  proof (cases "conflict ov zs xs")
    case True
    then show thesis using eq 2 s1(4) d(4) by (intro conflict [OF True _ tx_rep_db [OF s1(2)]]) simp_all
  next
    case False
    show thesis
      using s2(2)
    proof (cases rule: tree_commit)
      case (ok d')
      have "same_tx s (s2\<lparr>tx_db := d'\<rparr>)" by (rule same_tx_trans [OF 3]) (simp add: same_tx_def ok(3))
      then show thesis using False eq ok s2(4) s1(4) d(4) by (intro that(2) [of "s2\<lparr>tx_db := d'\<rparr>"]) (simp_all add: on_db_def flushed_twice_def)
    next
      case (fails e d' t)
      then show thesis
        using False eq 3 s2(4) s1(4) d(4)
        by (intro that(3) [of e "s2\<lparr>tx_db := d'\<rparr>" t]) (simp_all add: on_db_def same_tx_def)
    qed
  qed
qed

lemma db_unlock:
  assumes "db_rep P lim d xs xs"
  shows "db_rep P lim (d\<lparr>tree := (tree d)\<lparr>lstorage := (lstorage (tree d))\<lparr>locked := False\<rparr>\<rparr>\<rparr>) xs xs"
proof -
  obtain m where m: "bp_inv P (tree d) m xs xs" using db_repD(2) [OF assms] by (auto simp: bp_rep_def)
  have "bp_inv P ((tree d)\<lparr>lstorage := (lstorage (tree d))\<lparr>locked := False\<rparr>\<rparr>) m xs xs"
    using m by (auto simp: bp_inv_def storage_inv_def read_best_meta_file extends_def intro: tree_rep_extends [rotated])
  then show ?thesis using assms by (auto simp: db_rep_def is_closed_def bp_rep_def)
qed

definition unlocked :: "'v tx_state \<Rightarrow> 'v tx_state" where
  "unlocked s = s\<lparr>tx_db := (tx_db s)\<lparr>tree := (tree (tx_db s))\<lparr>lstorage := (lstorage (tree (tx_db s)))\<lparr>locked := False\<rparr>\<rparr>\<rparr>\<rparr>"

lemma unlock_if_locked_eq: "unlock_if_locked s = (Inr (), unlocked s)"
proof (cases "locked (lstorage (tree (tx_db s)))")
  case True
  then show ?thesis
    by (simp add: unlock_if_locked_def unlocked_def bindS_def act_defs on_db_def on_file_def on_tree_def on_storage_def unlock_eq)
next
  case False
  then have "unlocked s = s" by (simp add: unlocked_def)
  then show ?thesis using False by (simp add: unlock_if_locked_def bindS_def act_defs)
qed

text \<open>The state in which \<open>commit\<close> leaves the lock and closes the base.\<close>

definition finished :: "'v tx_state \<Rightarrow> 'v tx_state" where
  "finished s = (unlocked s)\<lparr>tx_db := (tx_db (unlocked s))\<lparr>open_snapshots := open_snapshots (tx_db s) - 1\<rparr>, txn := (txn s)\<lparr>base := None\<rparr>\<rparr>"

lemma finished_simps [simp]:
  "txn (finished s) = (txn s)\<lparr>base := None\<rparr>" "file_seen (tx_db (finished s)) = file_seen (tx_db s)"
  "open_snapshots (tx_db (finished s)) = open_snapshots (tx_db s) - 1" "\<not> locked (lstorage (tree (tx_db (finished s))))"
  "db_codec (tx_db (finished s)) = db_codec (tx_db s)" "db_path (tx_db (finished s)) = db_path (tx_db s)"
  by (simp_all add: finished_def unlocked_def file_seen_def)

lemma db_rep_finished: "db_rep P lim (tx_db s) xs xs \<Longrightarrow> db_rep P lim (tx_db (finished s)) xs xs"
  using db_unlock [of P lim "tx_db s" xs] by (simp add: finished_def unlocked_def db_rep_def is_closed_def)

lemma tx_commit_eq:
  assumes "overlay (txn s) \<noteq> []" "on_file lock (tx_db s) = (Inr l, d)" "locked_part P lim (overlay (txn s)) (s\<lparr>tx_db := d\<rparr>) = (r, s')"
    and "txn s' = txn s" "base (txn s) = Some sn" "\<not> sn_closed sn"
  shows "tx_commit P lim s = (r, finished s')"
proof -
  have "base (txn (unlocked s')) = Some sn" using assms(4,5) by (simp add: unlocked_def)
  then have "close_base (unlocked s') = (Inr (), finished s')"
    using close_base_ok [of "unlocked s'" sn] assms(6) by (simp add: finished_def unlocked_def)
  moreover have "finallyS (locked_part P lim (overlay (txn s))) unlock_if_locked (s\<lparr>tx_db := d\<rparr>) = (r, unlocked s')"
    using assms(3) by (simp add: finallyS_def unlock_if_locked_eq)
  ultimately show ?thesis
    using assms(1,2) by (simp add: tx_commit_def finallyS_def [of _ close_base] bindS_def [of "gets _"] bindS_def [of "on_db (on_file lock)"]
        act_defs on_db_def)
qed

lemma tx_commit_ok:
  assumes "tx_rep P lim s xs ys zs" "overlay (txn s) = ov" "ov \<noteq> []" "length xs + length ov < 2 ^ lim"
  obtains (conflict) s' where "conflict ov zs xs" "tx_commit P lim s = (Inl ConflictError, s')"
      "db_rep P lim (tx_db s') xs xs" "txn s' = \<lparr>base = None, overlay = ov\<rparr>" "open_snapshots (tx_db s') = open_snapshots (tx_db s) - 1"
      "file_seen (tx_db s') = file_seen (tx_db s)" "\<not> locked (lstorage (tree (tx_db s')))"
  | (ok) s' where "\<not> conflict ov zs xs" "tx_commit P lim s = (Inr (), s')"
      "db_rep P lim (tx_db s') (apply_writes ov xs) (apply_writes ov xs)" "txn s' = \<lparr>base = None, overlay = ov\<rparr>"
      "open_snapshots (tx_db s') = open_snapshots (tx_db s) - 1" "\<not> locked (lstorage (tree (tx_db s')))"
      "\<not> crashes_soon (disk (lstorage (tree (tx_db s))))"
  | (fails) e s' t where "\<not> conflict ov zs xs" "tx_commit P lim s = (Inl e, s')" "e = StructError \<or> e = SimCrash"
      "bp_open DEFAULT_ORDER (file_seen (tx_db s')) = (Inr (), t)" "bp_rep P DEFAULT_ORDER lim t xs xs" "txn s' = \<lparr>base = None, overlay = ov\<rparr>"
      "\<not> locked (lstorage (tree (tx_db s')))"
      "e = SimCrash \<Longrightarrow> crashes_soon (disk (lstorage (tree (tx_db s))))"
proof -
  obtain sn where sn: "base (txn s) = Some sn" "\<not> sn_closed sn" using assms(1) by (auto simp: tx_rep_def)
  have txn: "(txn s)\<lparr>base := None\<rparr> = \<lparr>base = None, overlay = ov\<rparr>" using assms(2) by (cases "txn s") simp
  obtain d where d: "on_file lock (tx_db s) = (Inr (\<not> locked (lstorage (tree (tx_db s)))), d)" "db_rep P lim d xs ys"
    "same_handle (tx_db s) d" "lstorage (tree d) = (lstorage (tree (tx_db s)))\<lparr>locked := True\<rparr>"
    by (rule file_lock [OF tx_rep_db [OF assms(1)]])
  let ?s = "s\<lparr>tx_db := d\<rparr>"
  have "same_tx s ?s" using d(3) by (simp add: same_tx_def)
  then have rep: "tx_rep P lim ?s xs ys zs" using tx_rep_same_tx [OF assms(1)] d(2) by simp
  have ov: "overlay (txn s) \<noteq> []" using assms(2,3) by simp
  have eq: "tx_commit P lim s = (r, finished s')" if "locked_part P lim ov ?s = (r, s')" "txn s' = txn s" for r s'
    using tx_commit_eq [OF ov d(1) _ that(2) sn] that(1) assms(2) by simp
  have os: "open_snapshots (tx_db s') = open_snapshots (tx_db s)" if "same_tx ?s s'" for s'
    using that d(3) by (simp add: same_tx_def same_handle_def)
  show thesis
    using rep assms(4)
  proof (cases rule: locked_part_ok)
    case (conflict s')
    have "txn s' = txn s" using conflict(4) by (simp add: same_tx_def)
    moreover have "file_seen (tx_db s') = file_seen (tx_db s)" using conflict(5) d(4) by (simp add: file_seen_def)
    ultimately show thesis
      using conflict(1-4) os [of s'] txn by (intro that(1) [of "finished s'"] eq db_rep_finished) simp_all
  next
    case (ok s')
    have "txn s' = txn s" using ok(4) by (simp add: same_tx_def)
    then show thesis using ok os [of s'] txn d(4) by (intro that(2) [of "finished s'"] eq db_rep_finished) simp_all
  next
    case (fails e s' t)
    then show thesis using txn d(4) by (intro that(3) [of e "finished s'" t] eq) simp_all
  qed
qed

lemma tx_commit_nothing:
  assumes "tx_rep P lim s xs ys zs" "overlay (txn s) = []"
  obtains s' where "tx_commit P lim s = (Inr (), s')" "db_rep P lim (tx_db s') xs ys" "txn s' = Transaction"
    "open_snapshots (tx_db s') = open_snapshots (tx_db s) - 1" "tree (tx_db s') = tree (tx_db s)"
proof -
  obtain sn where sn: "base (txn s) = Some sn" "\<not> sn_closed sn" using assms(1) by (auto simp: tx_rep_def)
  have "db_rep P lim ((tx_db s)\<lparr>open_snapshots := n\<rparr>) xs ys" for n
    using tx_rep_db [OF assms(1)] by (simp add: db_rep_def is_closed_def)
  then show thesis
    using assms(2) close_base_ok [OF sn]
    by (intro that [of "s\<lparr>tx_db := (tx_db s)\<lparr>open_snapshots := open_snapshots (tx_db s) - 1\<rparr>, txn := (txn s)\<lparr>base := None\<rparr>\<rparr>"])
      (simp_all add: tx_commit_def finallyS_def bindS_def act_defs Transaction_def)
qed

end
