(* ===== verification/Sessions.thy ===== *)
theory Sessions
  imports Transactions
begin

text \<open>
  A transaction that runs while other threads use the database: the calls of the transaction
  and the requests of the others in any order. The specification of such a session keeps
  the committed and the shown content of the database, the content the transaction began
  with and its own writes.
\<close>

section \<open>Calls of a transaction\<close>

datatype 'v tx_op = TxGet string | TxContains string | TxSet string 'v | TxDelete string

datatype 'v tx_reply = TxValue 'v | TxBool bool | TxDone | TxRaised py_error

definition tx_reply_of :: "('a \<Rightarrow> 'v tx_reply) \<Rightarrow> 'a result \<times> 's \<Rightarrow> 'v tx_reply \<times> 's" where
  "tx_reply_of f p = (case p of (Inr x, s) \<Rightarrow> (f x, s) | (Inl e, s) \<Rightarrow> (TxRaised e, s))"

fun tx_op_step :: "string pickle \<Rightarrow> nat \<Rightarrow> 'v tx_op \<Rightarrow> 'v tx_state \<Rightarrow> 'v tx_reply \<times> 'v tx_state" where
  "tx_op_step P lim (TxGet k) s = tx_reply_of TxValue (tx_get P lim k s)"
| "tx_op_step P lim (TxContains k) s = tx_reply_of TxBool (tx_contains P lim k s)"
| "tx_op_step P lim (TxSet k v) s = tx_reply_of (\<lambda>_. TxDone) (tx_set k v s)"
| "tx_op_step P lim (TxDelete k) s = tx_reply_of (\<lambda>_. TxDone) (tx_delete P lim k s)"

text \<open>What a call answers, from the content at the beginning and the writes so far.\<close>

fun spec_tx ::
  "'v codec \<Rightarrow> string content \<Rightarrow> 'v tx_op \<Rightarrow> (string \<times> bytes option) list \<Rightarrow> 'v tx_reply \<times> (string \<times> bytes option) list" where
  "spec_tx C zs (TxGet k) ov =
     (if k = [] then TxRaised KeyEncodingError
      else case ov_lookup ov zs k of
        None \<Rightarrow> TxRaised KeyError
      | Some b \<Rightarrow> (case decode C b of Inl e \<Rightarrow> TxRaised e | Inr v \<Rightarrow> TxValue v), ov)"
| "spec_tx C zs (TxContains k) ov = (TxBool (ov_lookup ov zs k \<noteq> None), ov)"
| "spec_tx C zs (TxSet k v) ov =
     (if k = [] then (TxRaised KeyEncodingError, ov)
      else case encode C v of Inl e \<Rightarrow> (TxRaised e, ov) | Inr b \<Rightarrow> (TxDone, AList.update k (Some b) ov))"
| "spec_tx C zs (TxDelete k) ov =
     (if k = [] then (TxRaised KeyEncodingError, ov)
      else if ov_lookup ov zs k = None then (TxRaised KeyError, ov)
      else (TxDone, AList.update k None ov))"

lemma spec_tx_overlay:
  assumes "spec_tx C zs c ov = (r, ov')"
  shows "length ov' \<le> Suc (length ov)" "distinct (map fst ov) \<Longrightarrow> distinct (map fst ov')"
proof -
  have 1: "length (AList.update k p ov) \<le> Suc (length ov)" for k p by (induction ov) auto
  have 2: "distinct (map fst (AList.update k p ov))" if "distinct (map fst ov)" for k p using that by (rule distinct_update)
  have 3: "ov' = ov \<or> (\<exists>k p. ov' = AList.update k p ov)"
    using assms by (cases c) (auto split: if_splits sum.splits)
  then show "length ov' \<le> Suc (length ov)" using 1 by auto
  show "distinct (map fst ov')" if "distinct (map fst ov)" using 2 3 that by auto
qed

lemma tx_op_refines:
  assumes "tx_rep P lim s xs ys zs" "tx_op_step P lim c s = (r, s')"
  shows "spec_tx (db_codec (tx_db s)) zs c (overlay (txn s)) = (r, overlay (txn s'))" "tx_rep P lim s' xs ys zs"
    "tx_db s' = tx_db s"
proof -
  have bad: "validate_key [] s0 = (Inl KeyEncodingError, s0)" for s0 :: "'a tx_state" by (simp add: validate_key_def act_defs)
  have "spec_tx (db_codec (tx_db s)) zs c (overlay (txn s)) = (r, overlay (txn s'))
    \<and> tx_rep P lim s' xs ys zs \<and> tx_db s' = tx_db s"
  proof (cases c)
    case (TxGet k)
    then show ?thesis
      using assms tx_get_ok [OF assms(1), of k]
      by (cases "k = []") (auto simp: tx_reply_of_def tx_get_def bad split: option.splits sum.splits)
  next
    case (TxContains k)
    then show ?thesis using assms tx_contains_ok [OF assms(1), of k] by (auto simp: tx_reply_of_def)
  next
    case (TxSet k v)
    show ?thesis
    proof (cases "k = []")
      case True
      then show ?thesis using TxSet assms by (auto simp: tx_reply_of_def tx_set_def bad)
    next
      case False
      then have v: "validate_key k s = (Inr (), s)" by (simp add: validate_key_def act_defs)
      show ?thesis
      proof (cases "encode (db_codec (tx_db s)) v")
        case (Inl e)
        then show ?thesis using TxSet False v assms by (auto simp: tx_reply_of_def tx_set_def bindS_def act_defs)
      next
        case (Inr b)
        show ?thesis
          by (rule tx_set_ok [OF assms(1) False Inr]) (use TxSet False Inr assms(2) in \<open>auto simp: tx_reply_of_def\<close>)
      qed
    qed
  next
    case (TxDelete k)
    then show ?thesis
      using assms tx_delete_ok [OF assms(1), of k]
      by (cases "k = []")
        (auto simp: tx_reply_of_def tx_delete_def bad tx_rep_overlay split: if_splits, auto simp: set_overlay_def)
  qed
  then show "spec_tx (db_codec (tx_db s)) zs c (overlay (txn s)) = (r, overlay (txn s'))" "tx_rep P lim s' xs ys zs"
    "tx_db s' = tx_db s" by simp_all
qed

section \<open>Sessions\<close>

datatype 'v event = Db "string request" | Tx "'v tx_op"

type_synonym 'v answer = "string reply + 'v tx_reply"

fun session_step :: "string pickle \<Rightarrow> nat \<Rightarrow> 'v event \<Rightarrow> 'v tx_state \<Rightarrow> 'v answer \<times> 'v tx_state" where
  "session_step P lim (Db q) s =
     (case engine_step (bplus_ops P DEFAULT_ORDER lim) q (tree (tx_db s)) of
        (r, t) \<Rightarrow> (Inl r, s\<lparr>tx_db := (tx_db s)\<lparr>tree := t\<rparr>\<rparr>))"
| "session_step P lim (Tx c) s = (case tx_op_step P lim c s of (r, s') \<Rightarrow> (Inr r, s'))"

fun session_run :: "string pickle \<Rightarrow> nat \<Rightarrow> 'v event list \<Rightarrow> 'v tx_state \<Rightarrow> 'v answer list \<times> 'v tx_state" where
  "session_run P lim [] s = ([], s)"
| "session_run P lim (ev # evs) s =
     (case session_step P lim ev s of (a, s') \<Rightarrow> (case session_run P lim evs s' of (ans, s'') \<Rightarrow> (a # ans, s'')))"

text \<open>
  The specification: a request of the others is a step of the specification of the engine,
  whatever the transaction did; a call of the transaction is answered from the content \<open>zs\<close>
  it began with and its own writes, whatever the others did.
\<close>

inductive session_spec ::
  "'v codec \<Rightarrow> string content \<Rightarrow> string content \<times> string content \<times> (string \<times> bytes option) list \<Rightarrow> 'v event list
     \<Rightarrow> 'v answer list \<Rightarrow> string content \<times> string content \<times> (string \<times> bytes option) list \<Rightarrow> bool"
  for C zs where
  session_Nil: "session_spec C zs st [] [] st"
| session_Db: "spec_step (xs, ys) q r (xs', ys') \<Longrightarrow> session_spec C zs (xs', ys', ov) evs ans st
    \<Longrightarrow> session_spec C zs (xs, ys, ov) (Db q # evs) (Inl r # ans) st"
| session_Tx: "spec_tx C zs c ov = (r, ov') \<Longrightarrow> session_spec C zs (xs, ys, ov') evs ans st
    \<Longrightarrow> session_spec C zs (xs, ys, ov) (Tx c # evs) (Inr r # ans) st"

lemma db_request_refines:
  assumes "tx_rep P lim s xs ys zs" "Suc (length ys) < 2 ^ lim"
    and "engine_step (bplus_ops P DEFAULT_ORDER lim) q (tree (tx_db s)) = (r, t)"
  obtains xs' ys' where "spec_step (xs, ys) q r (xs', ys')" "tx_rep P lim (s\<lparr>tx_db := (tx_db s)\<lparr>tree := t\<rparr>\<rparr>) xs' ys' zs"
    "max (length xs') (length ys') \<le> Suc (max (length xs) (length ys))"
proof -
  note d = db_repD [OF tx_rep_db [OF assms(1)]]
  have st: "bp_state P DEFAULT_ORDER lim (tree (tx_db s)) xs ys" using d(1,2) by (simp add: bp_state_def)
  obtain xs' ys' where 1: "spec_step (xs, ys) q r (xs', ys')" "bp_state P DEFAULT_ORDER lim t xs' ys'"
    using bp.step_refines [OF st assms(2,3)] by blast
  have l: "later_file (lstorage (tree (tx_db s))) (lstorage t)" "\<not> closed (disk (lstorage t))"
    using bp_step_later [OF st assms(2,3) d(3)] by simp_all
  let ?s = "s\<lparr>tx_db := (tx_db s)\<lparr>tree := t\<rparr>\<rparr>"
  have "tx_rep P lim ?s xs' ys' zs"
    using 1(2) l by (intro tx_rep_same [OF assms(1)]) (simp_all add: db_rep_def is_closed_def bp_state_def same_handle_def)
  moreover have "puts [q] \<le> 1" by (cases q) auto
  then have "max (length xs') (length ys') \<le> Suc (max (length xs) (length ys))"
    using spec_step_length [OF 1(1)] d(5) by simp
  ultimately show thesis by (rule that [OF 1(1)])
qed

lemma session_refines:
  assumes "tx_rep P lim s xs ys zs" "distinct (map fst (overlay (txn s)))"
    and "Suc (max (length xs) (length ys) + length (overlay (txn s)) + length evs) < 2 ^ lim"
    and "session_run P lim evs s = (ans, s')"
  shows "\<exists>xs' ys'. session_spec (db_codec (tx_db s)) zs (xs, ys, overlay (txn s)) evs ans (xs', ys', overlay (txn s'))
    \<and> tx_rep P lim s' xs' ys' zs \<and> length xs' + length (overlay (txn s')) < 2 ^ lim \<and> distinct (map fst (overlay (txn s')))"
  using assms
proof (induction evs arbitrary: s xs ys ans)
  case Nil
  then show ?case by (intro exI [of _ xs] exI [of _ ys]) (auto intro: session_Nil)
next
  case (Cons ev evs)
  obtain a s1 where 1: "session_step P lim ev s = (a, s1)" by fastforce
  obtain ans' where 2: "session_run P lim evs s1 = (ans', s')" "ans = a # ans'"
    using Cons.prems(4) 1 by (auto split: prod.splits)
  show ?case
  proof (cases ev)
    case (Db q)
    obtain r t where r: "engine_step (bplus_ops P DEFAULT_ORDER lim) q (tree (tx_db s)) = (r, t)" by fastforce
    have a: "a = Inl r" and s1: "s1 = s\<lparr>tx_db := (tx_db s)\<lparr>tree := t\<rparr>\<rparr>" using 1 Db r by auto
    obtain xs1 ys1 where 3: "spec_step (xs, ys) q r (xs1, ys1)" "tx_rep P lim (s\<lparr>tx_db := (tx_db s)\<lparr>tree := t\<rparr>\<rparr>) xs1 ys1 zs"
      "max (length xs1) (length ys1) \<le> Suc (max (length xs) (length ys))"
      by (rule db_request_refines [OF Cons.prems(1) _ r]) (use Cons.prems(3) in simp)
    have rep: "tx_rep P lim s1 xs1 ys1 zs" "distinct (map fst (overlay (txn s1)))" using 3(2) s1 Cons.prems(2) by simp_all
    have "length (overlay (txn s1)) = length (overlay (txn s))" using s1 by simp
    then have b: "Suc (max (length xs1) (length ys1) + length (overlay (txn s1)) + length evs) < 2 ^ lim"
      using Cons.prems(3) 3(3) unfolding list.size by linarith
    obtain xs' ys' where 4: "session_spec (db_codec (tx_db s1)) zs (xs1, ys1, overlay (txn s1)) evs ans' (xs', ys', overlay (txn s'))"
      "tx_rep P lim s' xs' ys' zs" "length xs' + length (overlay (txn s')) < 2 ^ lim" "distinct (map fst (overlay (txn s')))"
      using Cons.IH [OF rep b 2(1)] by blast
    have "session_spec (db_codec (tx_db s)) zs (xs, ys, overlay (txn s)) (Db q # evs) (Inl r # ans') (xs', ys', overlay (txn s'))"
      by (rule session_Db [OF 3(1)]) (use 4(1) s1 in simp)
    then show ?thesis using 4(2-4) Db 2(2) a by blast
  next
    case (Tx c)
    obtain r where r: "tx_op_step P lim c s = (r, s1)" "a = Inr r" using 1 Tx by (auto split: prod.splits)
    note op = tx_op_refines [OF Cons.prems(1) r(1)]
    obtain xs' ys' where 4: "session_spec (db_codec (tx_db s1)) zs (xs, ys, overlay (txn s1)) evs ans' (xs', ys', overlay (txn s'))"
      "tx_rep P lim s' xs' ys' zs" "length xs' + length (overlay (txn s')) < 2 ^ lim" "distinct (map fst (overlay (txn s')))"
      using Cons.IH [OF op(2) _ _ 2(1)] Cons.prems(2,3) spec_tx_overlay [OF op(1)] by auto
    have "session_spec (db_codec (tx_db s)) zs (xs, ys, overlay (txn s)) (Tx c # evs) (Inr r # ans') (xs', ys', overlay (txn s'))"
      by (rule session_Tx [OF op(1)]) (use 4(1) op(3) in simp)
    then show ?thesis using 4(2-4) Tx 2(2) r(2) by blast
  qed
qed

end
