(* ===== verification/Compaction.thy ===== *)
theory Compaction
  imports Snapshots
begin

text \<open>
  Compaction: the content of a database written into the file beside it, which then takes the
  place of the old one.
\<close>

section \<open>Codecs that write what they read\<close>

definition faithful :: "'v codec \<Rightarrow> bool" where
  "faithful C \<longleftrightarrow> (\<forall>b v. decode C b = Inr v \<longrightarrow> (\<exists>b'. encode C v = Inr b' \<and> decode C b' = Inr v))"

lemma BytesCodec_faithful: "faithful BytesCodec"
  by (auto simp: faithful_def BytesCodec_def)

lemma decode_pairs_Nil [simp]: "decode_pairs C [] = Inr []"
  by (simp add: decode_pairs_def)

lemma decode_pairs_Cons: "decode_pairs C ((k, Some b) # ps)
    = bindR (decode C b) (\<lambda>v. bindR (decode_pairs C ps) (\<lambda>kvs. Inr ((k, v) # kvs)))"
  by (cases "decode C b") (simp_all add: decode_pairs_def decoded_def)

text \<open>The pairs as they are encoded again.\<close>

fun encodes :: "'v codec \<Rightarrow> (string \<times> 'v) list \<Rightarrow> string content \<Rightarrow> bool" where
  "encodes C [] [] \<longleftrightarrow> True"
| "encodes C ((k, v) # kvs) ((k', b) # bs) \<longleftrightarrow> k' = k \<and> encode C v = Inr b \<and> decode C b = Inr v \<and> encodes C kvs bs"
| "encodes C _ _ \<longleftrightarrow> False"

lemma encodes_exists:
  "faithful C \<Longrightarrow> decode_pairs C (somes ys) = Inr kvs \<Longrightarrow> \<exists>bs. encodes C kvs bs \<and> map fst bs = map fst ys"
proof (induction ys arbitrary: kvs)
  case (Cons kb ys)
  obtain k b where kb: "kb = (k, b)" by (cases kb)
  obtain v kvs' where v: "decode C b = Inr v" "decode_pairs C (somes ys) = Inr kvs'" "kvs = (k, v) # kvs'"
    using Cons.prems(2) by (cases "decode C b"; cases "decode_pairs C (somes ys)") (auto simp: kb decode_pairs_Cons)
  obtain b' where "encode C v = Inr b'" "decode C b' = Inr v" using Cons.prems(1) v(1) by (auto simp: faithful_def)
  moreover obtain bs where "encodes C kvs' bs" "map fst bs = map fst ys" using Cons.IH [OF Cons.prems(1) v(2)] by blast
  ultimately show ?case using v(3) by (intro exI [of _ "(k, b') # bs"]) (simp add: kb)
qed simp

lemma encodes_decode: "encodes C kvs bs \<Longrightarrow> decode_pairs C (somes bs) = Inr kvs"
  by (induction C kvs bs rule: encodes.induct) (auto simp: decode_pairs_Cons)

lemma encodes_fst: "encodes C kvs bs \<Longrightarrow> map fst bs = map fst kvs"
  by (induction C kvs bs rule: encodes.induct) auto

section \<open>Writing all pairs\<close>

definition upd_all :: "string content \<Rightarrow> string content \<Rightarrow> string content" where
  "upd_all bs zs = fold (\<lambda>(k, b). kv_upd k b) bs zs"

lemma upd_all_simps [simp]: "upd_all [] zs = zs" "upd_all ((k, b) # bs) zs = upd_all bs (kv_upd k b zs)"
  by (simp_all add: upd_all_def)

lemma kv_upd_last: "\<forall>k' \<in> fst ` set zs. k' < k \<Longrightarrow> kv_upd k b zs = zs @ [(k, b)]"
  by (induction zs) auto

lemma upd_all_append:
  "kv_sorted (zs @ bs) \<Longrightarrow> upd_all bs zs = zs @ bs"
proof (induction bs arbitrary: zs)
  case (Cons kb bs)
  obtain k b where kb: "kb = (k, b)" by (cases kb)
  have "kv_upd k b zs = zs @ [(k, b)]"
    using Cons.prems by (intro kv_upd_last) (auto simp: kb sorted_wrt_append strict_sorted_iff)
  then show ?case using Cons.IH [of "zs @ [kb]"] Cons.prems by (simp add: kb)
qed simp

lemma map_of_upd_all: "kv_sorted bs \<Longrightarrow> map_of (upd_all bs zs) k = (case map_of bs k of None \<Rightarrow> map_of zs k | Some b \<Rightarrow> Some b)"
proof (induction bs arbitrary: zs)
  case (Cons kb bs)
  obtain k' b where kb: "kb = (k', b)" by (cases kb)
  have "k' \<notin> fst ` set bs" using Cons.prems by (auto simp: kb)
  then have "map_of bs k' = None" by (simp add: map_of_eq_None_iff)
  then show ?case using Cons by (auto simp: kb map_of_kv_upd split: option.splits)
qed simp

lemma set_all_ok:
  assumes "db_rep P lim c xs ys" "encodes (db_codec c) kvs bs" "[] \<notin> fst ` set kvs" "length ys + length kvs < 2 ^ lim"
  obtains c' where "set_all P lim kvs c = (Inr (), c')" "db_rep P lim c' xs (upd_all bs ys)" "same_handle c c'"
    "disk (lstorage (tree c')) = disk (lstorage (tree c))"
  using assms
proof (induction kvs arbitrary: c ys bs thesis)
  case Nil
  then show ?case by (cases bs) (simp_all add: act_defs)
next
  case (Cons kv kvs)
  obtain k v where kv: "kv = (k, v)" by (cases kv)
  obtain b bs' where bs: "bs = (k, b) # bs'" "encode (db_codec c) v = Inr b" "encodes (db_codec c) kvs bs'"
    using Cons.prems(3) by (cases bs) (auto simp: kv)
  have k: "k \<noteq> []" "Suc (length ys) < 2 ^ lim" using Cons.prems(4,5) by (auto simp: kv)
  obtain c1 where c1: "db_setitem P lim k v c = (Inr (), c1)" "db_rep P lim c1 xs (kv_upd k b ys)" "same_handle c c1"
    "disk (lstorage (tree c1)) = disk (lstorage (tree c))"
    by (rule db_setitem_ok [OF Cons.prems(2) k bs(2)])
  have "length (kv_upd k b ys) \<le> Suc (length ys)" using length_kv_upd [OF db_repD(5) [OF Cons.prems(2)], of k b] by auto
  then have n: "length (kv_upd k b ys) + length kvs < 2 ^ lim" using Cons.prems(5) by simp
  have e: "encodes (db_codec c1) kvs bs'" "[] \<notin> fst ` set kvs" using bs(3) c1(3) Cons.prems(4) by (simp_all add: same_handle_def)
  obtain c' where "set_all P lim kvs c1 = (Inr (), c')" "db_rep P lim c' xs (upd_all bs' (kv_upd k b ys))" "same_handle c1 c'"
    "disk (lstorage (tree c')) = disk (lstorage (tree c1))"
    by (rule Cons.IH [OF _ c1(2) e n])
  then show ?case
    using c1(1,3,4) same_handle_trans [OF c1(3)] by (intro Cons.prems(1) [of c']) (simp_all add: kv bs(1) bindS_def)
qed

section \<open>The new file\<close>

lemma db_stats_ok:
  assumes "db_rep P lim d xs ys" "records (drop SUPERBLOCK_SIZE (live (disk (lstorage (tree d)))))"
  obtains stats where "db_stats d = (Inr stats, d)" "ss_key_count stats = int (length xs)"
proof (rule seen_meta [OF assms(1)])
  fix m
  assume m: "storage_inv (lstorage (tree d)) m" "bp_committed P DEFAULT_ORDER m (live (disk (lstorage (tree d)))) xs"
  obtain n where n: "count_records (lstorage (tree d)) = Inr n"
    using count_records_ok [OF _ assms(2)] storage_inv_writable [OF m(1)] by (auto simp: writable_def)
  have k: "key_count m = int (length xs)" using m(2) by (simp add: bp_committed_def)
  let ?stats = "\<lparr>ss_file_size = file_size (lstorage (tree d)), ss_root_address = root_address m, ss_record_count = n,
    ss_key_count = key_count m, ss_txn_id = txn_id m\<rparr>"
  have "db_stats d = (Inr ?stats, d)"
    by (simp add: db_stats_def assert_open_ok [OF assms(1)] bindS_def act_defs on_file_def on_tree_def on_storage_def storage_stats_def
        refresh_meta_inv [OF m(1)] n)
  then show thesis by (rule that) (simp add: k)
qed

lemma DBDB_live:
  assumes "db_rep P lim c zs zs"
  obtains d where "DBDB (live (disk (lstorage (tree c)))) True C DURABILITY_FULL = (Inr (), d)" "db_rep P lim d zs zs"
    "db_codec d = C" "crash_at_flush (disk (lstorage (tree d))) = None"
    "full_file (lstorage (tree c)) \<Longrightarrow> live (disk (lstorage (tree d))) = live (disk (lstorage (tree c)))"
proof (rule bp_repE [OF db_repD(2) [OF assms]])
  fix m
  assume m: "bp_inv P (tree c) m zs zs" "order (tree c) = DEFAULT_ORDER" "0 < lim" "length zs < 2 ^ lim"
  have i: "storage_inv (lstorage (tree c)) m" "bp_committed P DEFAULT_ORDER m (live (disk (lstorage (tree c)))) zs"
    using m(1,2) by (simp_all add: bp_inv_def)
  obtain t where t: "bp_open DEFAULT_ORDER (live (disk (lstorage (tree c)))) = (Inr (), t)" "bp_inv P t m zs zs"
    "order t = DEFAULT_ORDER" "\<not> closed (disk (lstorage t))" "crash_at_flush (disk (lstorage t)) = None"
    "live (disk (lstorage t)) = take (data_length m) (live (disk (lstorage (tree c))))"
    by (rule bp_open_recovers [OF i DEFAULT_ORDER_ge storage_inv_simps(5) [OF i(1)] refl])
  have "bp_rep P DEFAULT_ORDER lim t zs zs" using t(2,3) m(3,4) by (intro bp_repI)
  moreover have "data_length m = length (live (disk (lstorage (tree c))))" if "full_file (lstorage (tree c))"
    using that i(1) by (auto simp: full_file_def storage_inv_def)
  ultimately show thesis
    using t(1,4-6) db_repD(1) [OF assms]
    by (intro that [of "\<lparr>db_path = True, db_codec = C, tree = t, open_snapshots = 0\<rparr>"])
      (simp_all add: DBDB_open db_rep_def is_closed_def)
qed

lemma compact_fill_ok:
  assumes "db_rep P lim c zs zs" "encodes (db_codec c) kvs bs" "[] \<notin> fst ` set kvs" "length zs + length kvs < 2 ^ lim"
    and "crash_at_flush (disk (lstorage (tree c))) = None" "records (drop SUPERBLOCK_SIZE (live (disk (lstorage (tree c)))))"
  obtains (ok) stats c' where "compact_fill P lim kvs c = (Inr stats, c')" "db_rep P lim c' (upd_all bs zs) (upd_all bs zs)"
      "ss_key_count stats = int (length (upd_all bs zs))" "full_file (lstorage (tree c'))"
      "records (drop SUPERBLOCK_SIZE (live (disk (lstorage (tree c')))))"
  | (fails) c' where "compact_fill P lim kvs c = (Inl StructError, c')"
proof -
  obtain c1 where c1: "set_all P lim kvs c = (Inr (), c1)" "db_rep P lim c1 zs (upd_all bs zs)" "same_handle c c1"
    "disk (lstorage (tree c1)) = disk (lstorage (tree c))"
    by (rule set_all_ok [OF assms(1-4)])
  have commit: "db_commit P c1 = on_tree (bp_commit P) c1"
    by (simp add: db_commit_def assert_open_ok [OF c1(2)] bindS_def)
  show thesis
    using c1(2)
  proof (cases rule: tree_commit)
    case (ok c2)
    have r: "records (drop SUPERBLOCK_SIZE (live (disk (lstorage (tree c2)))))" using ok(6) assms(6) c1(4) by simp
    obtain stats where "db_stats c2 = (Inr stats, c2)" "ss_key_count stats = int (length (upd_all bs zs))"
      by (rule db_stats_ok [OF ok(2) r])
    then show thesis using c1(1) commit ok(1,2,7) r by (intro that(1) [of stats c2]) (simp_all add: compact_fill_def bindS_def)
  next
    case (fails e c2 t)
    have "e = StructError" using fails(2,5) c1(4) assms(5) by auto
    then show thesis using c1(1) commit fails(1) by (intro that(2) [of c2]) (simp add: compact_fill_def bindS_def)
  qed
qed

lemma db_close_ok:
  obtains d' where "db_close d = (Inr (), d')" "db_codec d' = db_codec d" "db_path d' = db_path d"
    "open_snapshots d' = open_snapshots d" "is_closed d'"
  by (cases "locked (lstorage (tree d))")
    (auto simp: db_close_def on_file_def on_tree_def on_storage_def storage_close_def bindS_def act_defs unlock_eq
      is_closed_def disk_close_def)

lemma compact_into:
  assumes d: "db_rep P lim d xs ys" "db_path d" "open_snapshots d = 0" "decode_pairs (db_codec d) (somes ys) = Inr kvs"
    and kvs: "encodes (db_codec d) kvs bs" "[] \<notin> fst ` set kvs" "length zs + length kvs < 2 ^ lim"
    and c: "DBDB tmp True (db_codec d) DURABILITY_FULL = (Inr (), c)" "db_rep P lim c zs zs" "db_codec c = db_codec d"
      "crash_at_flush (disk (lstorage (tree c))) = None" "records (drop SUPERBLOCK_SIZE (live (disk (lstorage (tree c)))))"
  obtains (ok) stats d' where "compact P lim tmp DURABILITY_FULL d = (Inr stats, d')"
      "db_rep P lim d' (upd_all bs zs) (upd_all bs zs)" "db_codec d' = db_codec d" "db_path d'" "open_snapshots d' = 0"
      "ss_key_count stats = int (length (upd_all bs zs))"
  | (fails) d' where "compact P lim tmp DURABILITY_FULL d = (Inl StructError, d')" "db_rep P lim d' xs ys" "same_handle d d'"
proof -
  obtain d1 where d1: "db_items P lim d = (Inr kvs, d1)" "db_rep P lim d1 xs ys" "same_handle d d1"
    by (rule db_items_ok [OF d(1)]) (use d(4) in simp)
  have C: "db_codec d1 = db_codec d" using d1(3) by (simp add: same_handle_def)
  have e: "encodes (db_codec c) kvs bs" using kvs(1) c(3) by simp
  note fill = compact_fill_ok [OF c(2) e kvs(2,3) c(4,5)]
  show thesis
  proof (cases rule: fill)
    case (1 stats c')
    obtain r where r: "DBDB (live (disk (lstorage (tree c')))) True (db_codec d) DURABILITY_FULL = (Inr (), r)"
      "db_rep P lim r (upd_all bs zs) (upd_all bs zs)"
      by (rule DBDB_live [OF 1(2)])
    obtain d2 where close: "db_close d1 = (Inr (), d2)" "db_codec d2 = db_codec d1" "db_path d2 = db_path d1"
      "open_snapshots d2 = open_snapshots d1"
      by (rule db_close_ok)
    let ?d = "d2\<lparr>tree := tree r\<rparr>"
    have "compact P lim tmp DURABILITY_FULL d = (Inr stats, ?d)"
      using d(2,3) d1(1) C c(1) 1(1) r(1) close(1)
      by (simp add: compact_def assert_open_ok [OF d(1)] bindS_def act_defs)
    then show thesis
      using r(2) close C d(2,3) d1(3) 1(3)
      by (intro that(1) [of stats ?d]) (simp_all add: db_rep_def is_closed_def same_handle_def)
  next
    case (2 c')
    then have "compact P lim tmp DURABILITY_FULL d = (Inl StructError, d1)"
      using d(2,3) d1(1) C c(1) by (simp add: compact_def assert_open_ok [OF d(1)] bindS_def act_defs)
    then show thesis by (rule that(2) [OF _ d1(2,3)])
  qed
qed

section \<open>Listings\<close>

text \<open>What is known of a database that listed the pairs \<open>kvs\<close>.\<close>

definition listed :: "'v codec \<Rightarrow> string content \<Rightarrow> (string \<times> 'v) list \<Rightarrow> string content \<Rightarrow> bool" where
  "listed C ys kvs bs \<longleftrightarrow> decode_pairs C (somes ys) = Inr kvs \<and> encodes C kvs bs \<and> map fst bs = map fst ys \<and> kv_sorted bs"

lemma db_items_listed:
  assumes "db_rep P lim d xs ys" "db_items P lim d = (Inr kvs, d1)" "faithful (db_codec d)"
  obtains bs where "db_rep P lim d1 xs ys" "same_handle d d1" "listed (db_codec d) ys kvs bs"
proof -
  have d1: "decode_pairs (db_codec d) (somes ys) = Inr kvs" "db_rep P lim d1 xs ys" "same_handle d d1"
    by (rule db_items_ok [OF assms(1)], use assms(2) in simp)+
  obtain bs where "encodes (db_codec d) kvs bs" "map fst bs = map fst ys" using encodes_exists [OF assms(3) d1(1)] by blast
  then show thesis using d1 db_repD(5) [OF assms(1)] by (intro that [of bs]) (simp_all add: listed_def)
qed

lemma listedD:
  assumes "listed C ys kvs bs"
  shows "decode_pairs C (somes ys) = Inr kvs" "encodes C kvs bs" "decode_pairs C (somes bs) = Inr kvs"
    "length kvs = length ys" "length bs = length kvs" "upd_all bs [] = bs" "kv_sorted bs" "map fst kvs = map fst ys"
proof -
  have l: "decode_pairs C (somes ys) = Inr kvs" "encodes C kvs bs" "map fst bs = map fst ys" "kv_sorted bs"
    using assms unfolding listed_def by blast+
  note e = encodes_fst [OF l(2)]
  show "decode_pairs C (somes ys) = Inr kvs" "encodes C kvs bs" "kv_sorted bs" "map fst kvs = map fst ys" using l e by simp_all
  show "decode_pairs C (somes bs) = Inr kvs" by (rule encodes_decode [OF l(2)])
  show "length bs = length kvs" by (rule map_eq_imp_length_eq [OF e])
  show "length kvs = length ys" using map_eq_imp_length_eq [OF e] map_eq_imp_length_eq [OF l(3)] by simp
  show "upd_all bs [] = bs" using upd_all_append [of "[]" bs] l(4) by simp
qed

lemma encodes_lookup:
  "encodes C kvs bs \<Longrightarrow> distinct (map fst bs) \<Longrightarrow> (k, v) \<in> set kvs \<Longrightarrow> \<exists>b. map_of bs k = Some b \<and> decode C b = Inr v"
proof (induction C kvs bs rule: encodes.induct)
  case (2 C k' v' kvs k'' b bs)
  show ?case
  proof (cases "k = k'")
    case True
    have "k' \<notin> fst ` set kvs" using 2(2,3) encodes_fst [of C kvs bs] by (auto simp flip: set_map)
    then have "v = v'" using 2(4) True by (auto simp: rev_image_eqI)
    then show ?thesis using 2(2) True by simp
  next
    case False
    then show ?thesis using 2 by auto
  qed
qed auto

lemma decode_pairs_del:
  "decode_pairs C (somes ys) = Inr kvs \<Longrightarrow> \<exists>kvs'. decode_pairs C (somes (kv_del k ys)) = Inr kvs' \<and> set kvs' \<subseteq> set kvs"
proof (induction ys arbitrary: kvs)
  case (Cons kb ys)
  obtain k' b where kb: "kb = (k', b)" by (cases kb)
  obtain v kvs' where v: "decode C b = Inr v" "decode_pairs C (somes ys) = Inr kvs'" "kvs = (k', v) # kvs'"
    using Cons.prems by (cases "decode C b"; cases "decode_pairs C (somes ys)") (auto simp: kb decode_pairs_Cons)
  obtain kvs'' where "decode_pairs C (somes (kv_del k ys)) = Inr kvs''" "set kvs'' \<subseteq> set kvs'" using Cons.IH [OF v(2)] by blast
  then show ?case using v by (auto simp: kb decode_pairs_Cons)
qed simp

lemma listed_del:
  assumes "listed C ys kvs bs" "kv_sorted ys" "faithful C"
  obtains kvs' bs' where "listed C (kv_del k ys) kvs' bs'" "set kvs' \<subseteq> set kvs" "map_of bs' k = None"
proof -
  obtain kvs' where k: "decode_pairs C (somes (kv_del k ys)) = Inr kvs'" "set kvs' \<subseteq> set kvs"
    using decode_pairs_del [OF listedD(1) [OF assms(1)], of k] by blast
  obtain bs' where bs: "encodes C kvs' bs'" "map fst bs' = map fst (kv_del k ys)" using encodes_exists [OF assms(3) k(1)] by blast
  have "map_of (kv_del k ys) k = None" using map_of_kv_del [OF assms(2), of k] by simp
  then have "k \<notin> set (map fst bs')" by (simp add: map_of_eq_None_iff bs(2))
  then have "map_of bs' k = None" by (simp add: map_of_eq_None_iff)
  moreover have "kv_sorted bs'" using kv_sorted_del [OF assms(2)] bs(2) by simp
  ultimately show thesis using k bs by (intro that [of kvs' bs']) (simp_all add: listed_def)
qed

text \<open>A compaction that finds the file which an earlier one filled.\<close>

lemma compact_stale:
  assumes d: "db_rep P lim d xs ys" "db_path d" "open_snapshots d = 0" "listed (db_codec d) ys kvs bs" "[] \<notin> fst ` set kvs"
    and c: "db_rep P lim c zs zs" "full_file (lstorage (tree c))" "records (drop SUPERBLOCK_SIZE (live (disk (lstorage (tree c)))))"
    and n: "length zs + length kvs < 2 ^ lim" and x: "compact P lim (live (disk (lstorage (tree c)))) DURABILITY_FULL d = (x, d')"
  shows "x = Inl StructError \<or> db_rep P lim d' (upd_all bs zs) (upd_all bs zs) \<and> db_codec d' = db_codec d"
proof -
  note ls = listedD [OF d(4)]
  obtain c2 where c2: "DBDB (live (disk (lstorage (tree c)))) True (db_codec d) DURABILITY_FULL = (Inr (), c2)" "db_rep P lim c2 zs zs"
    "db_codec c2 = db_codec d" "crash_at_flush (disk (lstorage (tree c2))) = None"
    "live (disk (lstorage (tree c2))) = live (disk (lstorage (tree c)))"
    by (rule DBDB_live [OF c(1)]) (use c(2) in simp)
  have r: "records (drop SUPERBLOCK_SIZE (live (disk (lstorage (tree c2)))))" using c(3) c2(5) by simp
  show ?thesis
    by (rule compact_into [OF d(1-3) ls(1,2) d(5) n c2(1-4) r]) (use x in simp_all)
qed

end
