(* ===== verification/DatabaseProperties.thy ===== *)
theory DatabaseProperties
  imports Sessions Compaction
begin

text \<open>
  The properties of the database handle, its snapshots and its transactions. They start from
  a database that was just created and are about every run from there.
\<close>

section \<open>Runs of a new database\<close>

lemma spec_run_length:
  "spec_run c qs rs c' \<Longrightarrow> kv_sorted (fst c) \<and> kv_sorted (snd c)
    \<Longrightarrow> max (length (fst c')) (length (snd c')) \<le> max (length (fst c)) (length (snd c)) + puts qs"
proof (induction rule: spec_run.induct)
  case (spec_run_Cons c q r c' qs rs c'')
  have "kv_sorted (fst c') \<and> kv_sorted (snd c')"
    using spec_run_Cons.hyps(1) spec_run_Cons.prems by (cases rule: spec_step.cases) (auto simp: kv_sorted_upd kv_sorted_del)
  moreover have "max (length (fst c')) (length (snd c')) \<le> max (length (fst c)) (length (snd c)) + puts [q]"
    using spec_step_length [OF spec_run_Cons.hyps(1)] spec_run_Cons.prems by simp
  moreover have "puts (q # qs) = puts [q] + puts qs" by (cases q) auto
  ultimately show ?case using spec_run_Cons.IH by linarith
qed simp

lemma new_database_run:
  assumes "pickle_ok P" "0 < lim" "length f < SUPERBLOCK_SIZE" "DBDB f has_path C DURABILITY_FULL = (x, d)"
    and "engine_run (bplus_ops P DEFAULT_ORDER lim) qs (tree d) = (rs, t)" "Suc (puts qs) < 2 ^ lim"
  obtains xs ys where "spec_run ([], []) qs rs (xs, ys)" "db_rep P lim (d\<lparr>tree := t\<rparr>) xs ys" "x = Inr ()"
    "db_path d = has_path" "db_codec d = C" "max (length xs) (length ys) \<le> puts qs"
proof -
  note d = DBDB_fresh [OF assms(1,3,2,4)]
  have st: "bp_state P DEFAULT_ORDER lim (tree d) [] []" using db_repD(1,2) [OF d(2)] by (simp add: bp_state_def)
  obtain xs ys where r: "spec_run ([], []) qs rs (xs, ys)" "bp_state P DEFAULT_ORDER lim t xs ys"
    using bp.run_refines [OF st _ assms(5)] assms(6) by auto
  have "\<not> closed (disk (lstorage t))" using bp_run_later [OF st _ assms(5) db_repD(3) [OF d(2)]] assms(6) by simp
  then have "db_rep P lim (d\<lparr>tree := t\<rparr>) xs ys" using r(2) by (simp add: db_rep_def is_closed_def bp_state_def)
  moreover have "max (length xs) (length ys) \<le> puts qs" using spec_run_length [OF r(1)] by simp
  ultimately show thesis using r(1) d by (intro that)
qed

text \<open>A database to which the properties are applied: a new file, the codec of byte strings.\<close>

lemma no_file: "length [] < SUPERBLOCK_SIZE"
  by (simp add: layout_defs)

lemma new_bytes_database:
  obtains d rs t where "DBDB [] True BytesCodec DURABILITY_FULL = (Inr (), d)"
    "engine_run (bplus_ops string_pickle DEFAULT_ORDER lim) qs (tree d) = (rs, t)"
proof -
  obtain x d where d: "DBDB [] True BytesCodec DURABILITY_FULL = (x, d)" by fastforce
  then have "x = Inr ()" using DBDB_fresh(1) [OF string_pickle_ok no_file _ d, of 4] by simp
  moreover obtain rs t where "engine_run (bplus_ops string_pickle DEFAULT_ORDER lim) qs (tree d) = (rs, t)" by fastforce
  ultimately show thesis using d that by blast
qed

lemma one_pair_database:
  obtains d rs t d1 where "DBDB [] True BytesCodec DURABILITY_FULL = (Inr (), d)"
    "engine_run (bplus_ops string_pickle DEFAULT_ORDER 4) [Put ''a'' [1]] (tree d) = (rs, t)"
    "db_items string_pickle 4 (d\<lparr>tree := t\<rparr>) = (Inr [(''a'', PyBytes [1])], d1)"
proof -
  obtain d rs t where d: "DBDB [] True BytesCodec DURABILITY_FULL = (Inr (), d)"
    "engine_run (bplus_ops string_pickle DEFAULT_ORDER 4) [Put ''a'' [1]] (tree d) = (rs, t)"
    by (rule new_bytes_database)
  have b: "0 < (4::nat)" "Suc (puts [Put ''a'' [1]]) < 2 ^ 4" by simp_all
  obtain xs ys where r: "spec_run ([], []) [Put ''a'' [1]] rs (xs, ys)" "db_rep string_pickle 4 (d\<lparr>tree := t\<rparr>) xs ys" "db_codec d = BytesCodec"
    by (rule new_database_run [OF string_pickle_ok b(1) no_file d b(2)])
  have "ys = [(''a'', [1])]" using r(1) by (auto elim!: spec_run_ConsE simp: spec_step_simps elim: spec_run.cases)
  then have "\<exists>d1. db_items string_pickle 4 (d\<lparr>tree := t\<rparr>) = (Inr [(''a'', PyBytes [1])], d1)"
    by (rule_tac db_items_ok [OF r(2)]) (use r(3) in \<open>simp add: decode_pairs_def decoded_def BytesCodec_def\<close>)
  then show thesis using d that by blast
qed

section \<open>Snapshots\<close>

text \<open>
  C5. Snapshot isolation. Whatever was done with a database before a snapshot is taken, the
  snapshot opens and reads the content of the last commit, not the writes staged since; and
  whatever is done afterwards, commits, failed commits and power failures included, every
  later read through the snapshot still gives that content.
\<close>

theorem snapshot_isolation:
  assumes "pickle_ok P" "0 < lim" "length f < SUPERBLOCK_SIZE" "DBDB f True C DURABILITY_FULL = (Inr (), d)"
    and "engine_run (bplus_ops P DEFAULT_ORDER lim) qs (tree d) = (rs, t)" "db_snapshot (d\<lparr>tree := t\<rparr>) = (x, d1)"
    and "engine_run (bplus_ops P DEFAULT_ORDER lim) qs' (tree d1) = (rs', t')" "Suc (puts qs + puts qs') < 2 ^ lim"
  shows "\<exists>sn xs ys. x = Inr sn \<and> spec_run ([], []) qs rs (xs, ys) \<and> sn_len sn = int (length xs)
    \<and> sn_items P lim (snapshot_sees (file_seen (d1\<lparr>tree := t'\<rparr>)) sn) = decode_pairs C (somes xs)
    \<and> (\<forall>k. sn_raw P lim (snapshot_sees (file_seen (d1\<lparr>tree := t'\<rparr>)) sn) k = Inr (map_of xs k))
    \<and> (\<forall>p a b. sn_scan P lim (snapshot_sees (file_seen (d1\<lparr>tree := t'\<rparr>)) sn) p a b
         = decode_pairs C (somes (filter (\<lambda>(k, v). in_bounds a b k \<and> has_prefix p k) xs)))"
proof -
  obtain xs ys where r: "spec_run ([], []) qs rs (xs, ys)" "db_rep P lim (d\<lparr>tree := t\<rparr>) xs ys"
    "db_path d = True" "db_codec d = C" "max (length xs) (length ys) \<le> puts qs"
    by (rule new_database_run [OF assms(1-5)]) (use assms(8) in simp)
  obtain sn g where sn: "db_snapshot (d\<lparr>tree := t\<rparr>) = (Inr sn, d\<lparr>tree := t\<rparr>\<lparr>open_snapshots := open_snapshots (d\<lparr>tree := t\<rparr>) + 1\<rparr>)"
    "keeps (lstorage (tree (d\<lparr>tree := t\<rparr>))) g" "sn_holds P lim sn g xs" "sn_codec sn = db_codec (d\<lparr>tree := t\<rparr>)" "\<not> sn_closed sn"
    by (rule db_snapshot_ok [OF r(2)]) (use r(3) in simp)
  have d1: "tree d1 = t" "x = Inr sn" using sn(1) assms(6) by auto
  have st: "bp_state P DEFAULT_ORDER lim t xs ys" "\<not> closed (disk (lstorage t))"
    using db_repD(1-3) [OF r(2)] by (simp_all add: bp_state_def)
  have "later_file (lstorage t) (lstorage t')"
    using bp_run_later [OF st(1) _ _ st(2), of qs' rs' t'] assms(7,8) r(5) d1(1) by simp
  then have k: "keeps (lstorage (tree (d1\<lparr>tree := t'\<rparr>))) g" using sn(2) by (simp add: later_file_def)
  have "sn_len sn = int (length xs)" using sn(3) by (simp add: sn_len_def sn_holds_def)
  then show ?thesis using r(1,4) d1(2) sn(4) sn_reads_later [OF sn(3) k] by auto
qed

theorem snapshot_isolation_witness:
  "\<exists>d rs t x d1 rs' t'. DBDB [] True BytesCodec DURABILITY_FULL = (Inr (), d)
    \<and> engine_run (bplus_ops string_pickle DEFAULT_ORDER 4) [Put ''a'' [1], Commit, Put ''b'' [2]] (tree d) = (rs, t)
    \<and> db_snapshot (d\<lparr>tree := t\<rparr>) = (x, d1)
    \<and> engine_run (bplus_ops string_pickle DEFAULT_ORDER 4) [Remove ''a'', Commit, PowerLoss] (tree d1) = (rs', t')
    \<and> (\<exists>sn xs ys. x = Inr sn \<and> spec_run ([], []) [Put ''a'' [1], Commit, Put ''b'' [2]] rs (xs, ys) \<and> sn_len sn = int (length xs)
      \<and> sn_items string_pickle 4 (snapshot_sees (file_seen (d1\<lparr>tree := t'\<rparr>)) sn) = decode_pairs BytesCodec (somes xs)
      \<and> (\<forall>k. sn_raw string_pickle 4 (snapshot_sees (file_seen (d1\<lparr>tree := t'\<rparr>)) sn) k = Inr (map_of xs k))
      \<and> (\<forall>p a b. sn_scan string_pickle 4 (snapshot_sees (file_seen (d1\<lparr>tree := t'\<rparr>)) sn) p a b
         = decode_pairs BytesCodec (somes (filter (\<lambda>(k, v). in_bounds a b k \<and> has_prefix p k) xs))))"
proof -
  let ?qs = "[Put ''a'' [1], Commit, Put ''b'' [2]]" and ?qs' = "[Remove ''a'', Commit, PowerLoss]"
  obtain d rs t where d: "DBDB [] True BytesCodec DURABILITY_FULL = (Inr (), d)"
    "engine_run (bplus_ops string_pickle DEFAULT_ORDER 4) ?qs (tree d) = (rs, t)"
    by (rule new_bytes_database)
  obtain x d1 where s: "db_snapshot (d\<lparr>tree := t\<rparr>) = (x, d1)" by fastforce
  obtain rs' t' where r': "engine_run (bplus_ops string_pickle DEFAULT_ORDER 4) ?qs' (tree d1) = (rs', t')" by fastforce
  have b: "0 < (4::nat)" "Suc (puts ?qs + puts ?qs') < 2 ^ 4" by simp_all
  show ?thesis using snapshot_isolation [OF string_pickle_ok b(1) no_file d s r' b(2)] d s r' by blast
qed

section \<open>Transactions\<close>

lemma new_database_session:
  assumes "pickle_ok P" "0 < lim" "length f < SUPERBLOCK_SIZE" "DBDB f True C DURABILITY_FULL = (Inr (), d)"
    and "engine_run (bplus_ops P DEFAULT_ORDER lim) qs (tree d) = (rs, t)"
    and "tx_begin \<lparr>tx_db = d\<lparr>tree := t\<rparr>, txn = Transaction\<rparr> = (x, s)" "session_run P lim evs s = (ans, s')"
    and "Suc (puts qs + length evs) < 2 ^ lim"
  obtains zs ys xs' ys' where "x = Inr ()" "spec_run ([], []) qs rs (zs, ys)"
    "session_spec C zs (zs, ys, []) evs ans (xs', ys', overlay (txn s'))" "tx_rep P lim s' xs' ys' zs"
    "length xs' + length (overlay (txn s')) < 2 ^ lim" "distinct (map fst (overlay (txn s')))"
proof -
  obtain zs ys where r: "spec_run ([], []) qs rs (zs, ys)" "db_rep P lim (d\<lparr>tree := t\<rparr>) zs ys"
    "db_path d = True" "db_codec d = C" "max (length zs) (length ys) \<le> puts qs"
    by (rule new_database_run [OF assms(1-5)]) (use assms(8) in simp)
  let ?s = "\<lparr>tx_db = d\<lparr>tree := t\<rparr>, txn = Transaction\<rparr>"
  have rep: "db_rep P lim (tx_db ?s) zs ys" "db_path (tx_db ?s)" "base (txn ?s) = None"
    using r(2,3) by (simp_all add: Transaction_def)
  obtain s0 where "tx_begin ?s = (Inr (), s0)" "tx_rep P lim s0 zs ys zs" "overlay (txn s0) = overlay (txn ?s)"
    "tx_db s0 = (tx_db ?s)\<lparr>open_snapshots := open_snapshots (tx_db ?s) + 1\<rparr>"
    by (rule tx_begin_ok [OF rep])
  then have s: "x = Inr ()" "tx_rep P lim s zs ys zs" "overlay (txn s) = []" "db_codec (tx_db s) = C"
    using assms(6) r(4) by (auto simp: Transaction_def)
  have "Suc (max (length zs) (length ys) + length (overlay (txn s)) + length evs) < 2 ^ lim"
    using s(3) r(5) assms(8) by (simp del: max.bounded_iff)
  then obtain xs' ys' where "session_spec C zs (zs, ys, []) evs ans (xs', ys', overlay (txn s'))" "tx_rep P lim s' xs' ys' zs"
    "length xs' + length (overlay (txn s')) < 2 ^ lim" "distinct (map fst (overlay (txn s')))"
    using session_refines [OF s(2) _ _ assms(7)] s(3,4) by auto
  then show thesis by (rule that [OF s(1) r(1)])
qed

text \<open>
  C4. Isolation of transactions. While a transaction runs, its calls and the requests of other
  threads on the same database may interleave in any order: every read of the transaction
  is answered from the content committed when it began, overlaid with its own writes, and
  never shows a write or a commit of the others; and nothing of its own writes is seen by
  them, their requests are answered as if it was not there.
\<close>

theorem transaction_isolation:
  assumes "pickle_ok P" "0 < lim" "length f < SUPERBLOCK_SIZE" "DBDB f True C DURABILITY_FULL = (Inr (), d)"
    and "engine_run (bplus_ops P DEFAULT_ORDER lim) qs (tree d) = (rs, t)"
    and "tx_begin \<lparr>tx_db = d\<lparr>tree := t\<rparr>, txn = Transaction\<rparr> = (x, s)" "session_run P lim evs s = (ans, s')"
    and "Suc (puts qs + length evs) < 2 ^ lim"
  shows "x = Inr () \<and> (\<exists>zs ys xs' ys'. spec_run ([], []) qs rs (zs, ys)
    \<and> session_spec C zs (zs, ys, []) evs ans (xs', ys', overlay (txn s')))"
  by (rule new_database_session [OF assms]) blast

theorem transaction_isolation_witness:
  "\<exists>d rs t x s ans s'. DBDB [] True BytesCodec DURABILITY_FULL = (Inr (), d)
    \<and> engine_run (bplus_ops string_pickle DEFAULT_ORDER 4) [Put ''a'' [1], Commit] (tree d) = (rs, t)
    \<and> tx_begin \<lparr>tx_db = d\<lparr>tree := t\<rparr>, txn = Transaction\<rparr> = (x, s)
    \<and> session_run string_pickle 4 [Tx (TxSet ''b'' (PyBytes [2])), Db (Put ''a'' [3]), Db Commit, Tx (TxGet ''a'')] s = (ans, s')
    \<and> x = Inr () \<and> (\<exists>zs ys xs' ys'. spec_run ([], []) [Put ''a'' [1], Commit] rs (zs, ys)
      \<and> session_spec BytesCodec zs (zs, ys, []) [Tx (TxSet ''b'' (PyBytes [2])), Db (Put ''a'' [3]), Db Commit, Tx (TxGet ''a'')]
          ans (xs', ys', overlay (txn s')))"
proof -
  let ?evs = "[Tx (TxSet ''b'' (PyBytes [2])), Db (Put ''a'' [3]), Db Commit, Tx (TxGet ''a'')]"
  obtain d rs t where d: "DBDB [] True BytesCodec DURABILITY_FULL = (Inr (), d)"
    "engine_run (bplus_ops string_pickle DEFAULT_ORDER 4) [Put ''a'' [1], Commit] (tree d) = (rs, t)"
    by (rule new_bytes_database)
  obtain x s where s: "tx_begin \<lparr>tx_db = d\<lparr>tree := t\<rparr>, txn = Transaction\<rparr> = (x, s)" by fastforce
  obtain ans s' where r: "session_run string_pickle 4 ?evs s = (ans, s')" by fastforce
  have b: "0 < (4::nat)" "Suc (puts [Put ''a'' [1], Commit] + length ?evs) < 2 ^ 4" by simp_all
  show ?thesis using transaction_isolation [OF string_pickle_ok b(1) no_file d s r b(2)] d s r by blast
qed



section \<open>The write lock\<close>

text \<open>
  C33. A deletion of a missing key leaves the write lock held. Whatever was done with the database
  before, when \<open>del db[key]\<close> has raised \<open>KeyError\<close> the handle holds the lock and shows the content it
  showed before, and it holds the lock after every sequence of reads and writes that follows. A
  commit that returns releases it, and so does closing the database. (For the default index, the
  B+ tree.)
\<close>

theorem missing_delete_holds_lock:
  assumes "pickle_ok P" "0 < lim" "length f < SUPERBLOCK_SIZE" "DBDB f True C DURABILITY_FULL = (Inr (), d)"
    and "engine_run (bplus_ops P DEFAULT_ORDER lim) qs (tree d) = (rs, t)"
    and "db_delitem P lim k (d\<lparr>tree := t\<rparr>) = (Inl KeyError, d1)"
    and "engine_run (bplus_ops P DEFAULT_ORDER lim) qs' (tree d1) = (rs', t')" "list_all (\<lambda>q. q \<noteq> Commit \<and> q \<noteq> PowerLoss) qs'"
    and "Suc (puts qs + puts qs') < 2 ^ lim" "db_commit P (d1\<lparr>tree := t'\<rparr>) = (x, d2)" "db_close (d1\<lparr>tree := t'\<rparr>) = (y, d3)"
  shows "locked (lstorage (tree d1)) \<and> fst (logical_items (bplus_class P lim) (tree d1)) = fst (logical_items (bplus_class P lim) t)
    \<and> locked (lstorage t') \<and> (x = Inr () \<longrightarrow> \<not> locked (lstorage (tree d2))) \<and> \<not> locked (lstorage (tree d3))"
proof -
  have q: "Suc (puts qs) < 2 ^ lim" using assms(9) by simp
  obtain xs ys where rep: "db_rep P lim (d\<lparr>tree := t\<rparr>) xs ys" and len: "max (length xs) (length ys) \<le> puts qs"
    by (rule new_database_run [OF assms(1-5) q])
  have k: "k \<noteq> []" using assms(6) by (auto simp: db_delitem_def validate_key_def assert_open_ok [OF rep] bindS_def act_defs)
  obtain d1' where "db_delitem P lim k (d\<lparr>tree := t\<rparr>) = (if k \<in> fst ` set ys then Inr () else Inl KeyError, d1')"
    "db_rep P lim d1' xs (kv_del k ys)" "locked (lstorage (tree d1'))"
    by (rule db_delitem_ok [OF rep k])
  then have d1: "db_rep P lim d1 xs ys" "locked (lstorage (tree d1))"
    using assms(6) by (auto simp: kv_del_absent split: if_splits)
  have t: "bp_rep P DEFAULT_ORDER lim t xs ys" using db_repD(2) [OF rep] by simp
  have items: "fst (logical_items (bplus_class P lim) u) = Inr (somes ys)" if "bp_rep P DEFAULT_ORDER lim u xs ys" for u
    by (rule bpl.items_ok [OF that]) simp
  have st: "bp_state P DEFAULT_ORDER lim (tree d1) xs ys" using db_repD(1,2) [OF d1(1)] by (simp add: bp_state_def)
  have b: "Suc (max (length xs) (length ys) + puts qs') < 2 ^ lim" using len assms(9) by linarith
  have l: "locked (lstorage t')" by (rule bp.run_keeps_lock [OF st b assms(7,8) d1(2)])
  obtain xs' ys' where "bp_state P DEFAULT_ORDER lim t' xs' ys'" using bp.run_refines [OF st b assms(7)] by blast
  moreover have "\<not> closed (disk (lstorage t'))" using bp_run_later [OF st b assms(7) db_repD(3) [OF d1(1)]] by simp
  ultimately have t': "db_rep P lim (d1\<lparr>tree := t'\<rparr>) xs' ys'" by (simp add: db_rep_def is_closed_def bp_state_def)
  have "x = Inr () \<longrightarrow> \<not> locked (lstorage (tree d2))"
    using t' by (cases rule: tree_commit) (use assms(10) in \<open>auto simp: db_commit_def assert_open_ok [OF t'] bindS_def\<close>)
  moreover have "\<not> locked (lstorage (tree d3))"
    using assms(11) l by (auto simp: db_close_def on_file_def on_tree_def on_storage_def storage_close_def bindS_def act_defs unlock_eq)
  ultimately show ?thesis using d1(2) l items [OF db_repD(2) [OF d1(1)]] items [OF t] by simp
qed

theorem missing_delete_holds_lock_witness:
  "\<exists>d rs t d1 rs' t'. DBDB [] True BytesCodec DURABILITY_FULL = (Inr (), d)
    \<and> engine_run (bplus_ops string_pickle DEFAULT_ORDER 4) [Put ''a'' [1], Commit] (tree d) = (rs, t)
    \<and> db_delitem string_pickle 4 ''b'' (d\<lparr>tree := t\<rparr>) = (Inl KeyError, d1)
    \<and> engine_run (bplus_ops string_pickle DEFAULT_ORDER 4) [Get ''a'', Items] (tree d1) = (rs', t') \<and> locked (lstorage t')"
proof -
  let ?qs = "[Put ''a'' [1], Commit]" and ?qs' = "[Get ''a'', Items] :: string request list"
  obtain d rs t where d: "DBDB [] True BytesCodec DURABILITY_FULL = (Inr (), d)"
    "engine_run (bplus_ops string_pickle DEFAULT_ORDER 4) ?qs (tree d) = (rs, t)"
    by (rule new_bytes_database)
  have b: "0 < (4::nat)" "Suc (puts ?qs) < 2 ^ 4" "Suc (puts ?qs + puts ?qs') < 2 ^ 4" "''b'' \<noteq> []"
    "list_all (\<lambda>q. q \<noteq> Commit \<and> q \<noteq> PowerLoss) ?qs'" by simp_all
  obtain xs ys where rep: "spec_run ([], []) ?qs rs (xs, ys)" "db_rep string_pickle 4 (d\<lparr>tree := t\<rparr>) xs ys"
    by (rule new_database_run [OF string_pickle_ok b(1) no_file d b(2)])
  then have no: "''b'' \<notin> fst ` set ys" by (auto elim!: spec_run_ConsE spec_run.cases simp: spec_step_simps)
  obtain d1 where d1: "db_delitem string_pickle 4 ''b'' (d\<lparr>tree := t\<rparr>) = (Inl KeyError, d1)"
    by (rule db_delitem_ok [OF rep(2) b(4)]) (use no in simp)
  obtain rs' t' where r: "engine_run (bplus_ops string_pickle DEFAULT_ORDER 4) ?qs' (tree d1) = (rs', t')" by fastforce
  obtain x d2 where c: "db_commit string_pickle (d1\<lparr>tree := t'\<rparr>) = (x, d2)" by fastforce
  obtain y d3 where e: "db_close (d1\<lparr>tree := t'\<rparr>) = (y, d3)" by fastforce
  have "locked (lstorage t')"
    using missing_delete_holds_lock [OF string_pickle_ok b(1) no_file d d1 r b(5,3) c e] by blast
  then show ?thesis using d d1 r by blast
qed

section \<open>Compaction\<close>

lemma new_database_compacts:
  assumes "pickle_ok P" "0 < lim" "length f < SUPERBLOCK_SIZE" "DBDB f True C DURABILITY_FULL = (Inr (), d)" "faithful C"
    and "engine_run (bplus_ops P DEFAULT_ORDER lim) qs (tree d) = (rs, t)" "Suc (puts qs) < 2 ^ lim"
    and "db_items P lim (d\<lparr>tree := t\<rparr>) = (Inr kvs, d1)" "[] \<notin> fst ` set kvs"
    and "length tmp < SUPERBLOCK_SIZE" "compact P lim tmp DURABILITY_FULL d1 = (x, d2)"
  shows "(\<exists>stats d3. x = Inr stats \<and> ss_key_count stats = int (length kvs) \<and> db_items P lim d2 = (Inr kvs, d3)
      \<and> (\<exists>e e'. DBDB (file_seen d2) True C DURABILITY_FULL = (Inr (), e) \<and> db_items P lim e = (Inr kvs, e')))
    \<or> x = Inl StructError \<and> (\<exists>d3. db_items P lim d2 = (Inr kvs, d3))"
proof (rule new_database_run [OF assms(1-4,6,7)])
  fix xs ys
  assume rep: "db_rep P lim (d\<lparr>tree := t\<rparr>) xs ys" and C: "db_path d = True" "db_codec d = C" and len: "max (length xs) (length ys) \<le> puts qs"
  obtain bs where d1: "db_rep P lim d1 xs ys" "same_handle (d\<lparr>tree := t\<rparr>) d1" "listed (db_codec (d\<lparr>tree := t\<rparr>)) ys kvs bs"
    by (rule db_items_listed [OF rep assms(8)]) (use assms(5) C in simp)
  have h: "db_path d1" "open_snapshots d1 = 0" and C1: "db_codec d1 = C"
    using d1(2) C DBDB_fresh(5) [OF assms(1,3,2,4)] by (simp_all add: same_handle_def)
  have l: "listed C ys kvs bs" using d1(3) C by simp
  note ls = listedD [OF l]
  obtain y c where c: "DBDB tmp True C DURABILITY_FULL = (y, c)" by fastforce
  note fresh = DBDB_fresh [OF assms(1,10,2) c]
  have n: "length [] + length kvs < 2 ^ lim" using len assms(7) ls(4) by simp
  have items: "\<exists>d'. db_items P lim d0 = (Inr kvs, d')" if "db_rep P lim d0 us zs" "decode_pairs (db_codec d0) (somes zs) = Inr kvs" for d0 us zs
    by (rule db_items_ok [OF that(1)]) (use that(2) in simp)
  have k: "decode_pairs (db_codec d1) (somes ys) = Inr kvs" "encodes (db_codec d1) kvs bs"
    "DBDB tmp True (db_codec d1) DURABILITY_FULL = (Inr (), c)" "db_codec c = db_codec d1"
    using ls c fresh(1,4) C1 by simp_all
  note outcome = compact_into [OF d1(1) h k(1,2) assms(9) n k(3) fresh(2) k(4) fresh(6,7)]
  show ?thesis
  proof (cases rule: outcome)
    case (1 stats d')
    then have d2: "x = Inr stats" "db_rep P lim d2 bs bs" "db_codec d2 = C" "ss_key_count stats = int (length kvs)"
      using assms(11) C1 ls(5,6) by simp_all
    obtain e where e: "bp_open DEFAULT_ORDER (durable_bytes (disk (lstorage (tree d2)))) = (Inr (), e)"
      "bp_rep P DEFAULT_ORDER lim e bs bs" "\<not> closed (disk (lstorage e))"
      by (rule bp_rep_reopen [OF db_repD(2) [OF d2(2)]])
    let ?e = "\<lparr>db_path = True, db_codec = C, tree = e, open_snapshots = 0\<rparr>"
    have "DBDB (file_seen d2) True C DURABILITY_FULL = (Inr (), ?e)" "db_rep P lim ?e bs bs"
      using e assms(1) by (simp_all add: DBDB_open file_seen_def db_rep_def is_closed_def)
    then show ?thesis using items [of d2 bs bs] items [of ?e bs bs] d2 ls(3) by auto
  next
    case (2 d')
    then show ?thesis using items [of d2 xs ys] assms(11) C1 ls(1) by (auto simp: same_handle_def)
  qed
qed

text \<open>
  C12. Compaction keeps the data. While snapshots are open (\<open>n\<close> of them), \<open>compact\<close> raises
  \<open>ImmuStoreError\<close> and changes nothing. Otherwise it returns, or raises \<open>struct.error\<close>. When it returns,
  the database shows the pairs it showed before, the statistics it returns count them, and the new file
  opens with them; when it raises, the database shows them still. This is for a codec that
  encodes every value it has decoded, when all values can be listed, and when there is no file
  left at the path of the new one.
\<close>

theorem compaction_preserves:
  assumes "pickle_ok P" "0 < lim" "length f < SUPERBLOCK_SIZE" "DBDB f True C DURABILITY_FULL = (Inr (), d)" "faithful C"
    and "engine_run (bplus_ops P DEFAULT_ORDER lim) qs (tree d) = (rs, t)" "Suc (puts qs) < 2 ^ lim"
    and "db_items P lim (d\<lparr>tree := t\<rparr>) = (Inr kvs, d1)" "[] \<notin> fst ` set kvs"
    and "length tmp < SUPERBLOCK_SIZE" "compact P lim tmp DURABILITY_FULL (d1\<lparr>open_snapshots := n\<rparr>) = (x, d2)"
  shows "if n > 0 then x = Inl ImmuStoreError \<and> d2 = d1\<lparr>open_snapshots := n\<rparr>
    else (\<exists>stats d3. x = Inr stats \<and> ss_key_count stats = int (length kvs) \<and> db_items P lim d2 = (Inr kvs, d3)
           \<and> (\<exists>e e'. DBDB (file_seen d2) True C DURABILITY_FULL = (Inr (), e) \<and> db_items P lim e = (Inr kvs, e')))
         \<or> x = Inl StructError \<and> (\<exists>d3. db_items P lim d2 = (Inr kvs, d3))"
proof -
  obtain xs ys where rep: "db_rep P lim (d\<lparr>tree := t\<rparr>) xs ys" and C: "db_path d = True" "db_codec d = C"
    by (rule new_database_run [OF assms(1-4,6,7)])
  obtain bs where d1: "db_rep P lim d1 xs ys" "same_handle (d\<lparr>tree := t\<rparr>) d1"
    by (rule db_items_listed [OF rep assms(8)]) (use assms(5) C in simp)
  have h: "db_path d1" "open_snapshots d1 = 0"
    using d1(2) C DBDB_fresh(5) [OF assms(1,3,2,4)] by (simp_all add: same_handle_def)
  show ?thesis
  proof (cases "n = 0")
    case True
    then have "compact P lim tmp DURABILITY_FULL d1 = (x, d2)" using assms(11) h(2) by (cases d1) simp
    then show ?thesis using new_database_compacts [OF assms(1-10)] True by simp
  next
    case False
    have "db_rep P lim (d1\<lparr>open_snapshots := n\<rparr>) xs ys" using d1(1) by (simp add: db_rep_def is_closed_def)
    then have "compact P lim tmp DURABILITY_FULL (d1\<lparr>open_snapshots := n\<rparr>) = (Inl ImmuStoreError, d1\<lparr>open_snapshots := n\<rparr>)"
      using h(1) False by (simp add: compact_def bindS_def act_defs assert_open_ok)
    then show ?thesis using assms(11) False by simp
  qed
qed

theorem compaction_preserves_witness:
  "\<exists>d rs t d1 x d2 y d3. DBDB [] True BytesCodec DURABILITY_FULL = (Inr (), d)
    \<and> engine_run (bplus_ops string_pickle DEFAULT_ORDER 4) [Put ''a'' [1]] (tree d) = (rs, t)
    \<and> db_items string_pickle 4 (d\<lparr>tree := t\<rparr>) = (Inr [(''a'', PyBytes [1])], d1)
    \<and> compact string_pickle 4 [] DURABILITY_FULL (d1\<lparr>open_snapshots := 0\<rparr>) = (x, d2)
    \<and> compact string_pickle 4 [] DURABILITY_FULL (d1\<lparr>open_snapshots := 1\<rparr>) = (y, d3) \<and> y = Inl ImmuStoreError
    \<and> (\<exists>d4. db_items string_pickle 4 d2 = (Inr [(''a'', PyBytes [1])], d4))"
proof -
  obtain d rs t d1 where d: "DBDB [] True BytesCodec DURABILITY_FULL = (Inr (), d)"
    "engine_run (bplus_ops string_pickle DEFAULT_ORDER 4) [Put ''a'' [1]] (tree d) = (rs, t)"
    "db_items string_pickle 4 (d\<lparr>tree := t\<rparr>) = (Inr [(''a'', PyBytes [1])], d1)"
    by (rule one_pair_database)
  obtain x d2 where c: "compact string_pickle 4 [] DURABILITY_FULL (d1\<lparr>open_snapshots := 0\<rparr>) = (x, d2)" by fastforce
  obtain y d3 where c1: "compact string_pickle 4 [] DURABILITY_FULL (d1\<lparr>open_snapshots := 1\<rparr>) = (y, d3)" by fastforce
  have b: "0 < (4::nat)" "Suc (puts [Put ''a'' [1]]) < 2 ^ 4" "[] \<notin> fst ` set [(''a'', PyBytes [1])]" by simp_all
  note p = compaction_preserves [OF string_pickle_ok b(1) no_file d(1) BytesCodec_faithful d(2) b(2) d(3) b(3) no_file]
  have "\<exists>d4. db_items string_pickle 4 d2 = (Inr [(''a'', PyBytes [1])], d4)" using p [OF c] by auto
  moreover have "y = Inl ImmuStoreError" using p [OF c1] by simp
  ultimately show ?thesis using d c c1 by blast
qed



end
