(* ===== verification/PyText.thy ===== *)
theory PyText
  imports Prelude
begin

text \<open>
  Python's text as the network code uses it: strings and their UTF-8 form, decimal integers,
  \<open>int()\<close> and \<open>split()\<close> on byte strings.

  A Python string is represented by its UTF-8 form, one character of a HOL string per byte.
  Encoding is then the identity on the bytes and decoding the check that they are
  well-formed; the comparison of strings, \<open>startswith\<close> and concatenation are the same on both
  forms. The error of a failed decoding is a \<open>ValueError\<close>, of which it is a subclass.
\<close>

section \<open>UTF-8\<close>

definition byte_of :: "char \<Rightarrow> byte" where
  "byte_of c = word_of_nat (of_char c)"

definition chr_of :: "byte \<Rightarrow> char" where
  "chr_of b = char_of (unat b)"

lemma chr_of_byte_of [simp]: "chr_of (byte_of c) = c"
  by (simp add: chr_of_def byte_of_def unat_of_nat)

lemma byte_of_chr_of [simp]: "byte_of (chr_of b) = b"
proof -
  have "unat b < 256" using unsigned_less [of b, where ?'a = nat] by simp
  then show ?thesis by (simp add: chr_of_def byte_of_def)
qed

definition str_encode :: "string \<Rightarrow> bytes" where
  "str_encode s = map byte_of s"

definition continuation :: "byte \<Rightarrow> bool" where
  "continuation b \<longleftrightarrow> 0x80 \<le> b \<and> b \<le> 0xBF"

text \<open>The second byte of a sequence of three and of four bytes: no overlong forms, no surrogates, nothing above U+10FFFF.\<close>

definition second_of_three :: "byte \<Rightarrow> byte \<Rightarrow> bool" where
  "second_of_three b c \<longleftrightarrow> continuation c \<and> 0xE0 \<le> b \<and> b \<le> 0xEF \<and> (b = 0xE0 \<longrightarrow> 0xA0 \<le> c) \<and> (b = 0xED \<longrightarrow> c \<le> 0x9F)"

definition second_of_four :: "byte \<Rightarrow> byte \<Rightarrow> bool" where
  "second_of_four b c \<longleftrightarrow> continuation c \<and> 0xF0 \<le> b \<and> b \<le> 0xF4 \<and> (b = 0xF0 \<longrightarrow> 0x90 \<le> c) \<and> (b = 0xF4 \<longrightarrow> c \<le> 0x8F)"

function utf8_valid :: "bytes \<Rightarrow> bool" where
  "utf8_valid bs =
     (case bs of
        [] \<Rightarrow> True
      | b # r \<Rightarrow>
          if b < 0x80 then utf8_valid r
          else if 0xC2 \<le> b \<and> b \<le> 0xDF then r \<noteq> [] \<and> continuation (hd r) \<and> utf8_valid (drop 1 r)
          else if b < 0xF0 then 2 \<le> length r \<and> second_of_three b (hd r) \<and> continuation (r ! 1) \<and> utf8_valid (drop 2 r)
          else 3 \<le> length r \<and> second_of_four b (hd r) \<and> continuation (r ! 1) \<and> continuation (r ! 2) \<and> utf8_valid (drop 3 r))"
  by pat_completeness auto
termination by (relation "measure length") auto

declare utf8_valid.simps [simp del]

definition str_decode :: "bytes \<Rightarrow> string result" where
  "str_decode bs = (if utf8_valid bs then Inr (map chr_of bs) else Inl ValueError)"

definition valid_str :: "string \<Rightarrow> bool" where
  "valid_str s \<longleftrightarrow> utf8_valid (str_encode s)"

lemma str_decode_encode: "valid_str s \<Longrightarrow> str_decode (str_encode s) = Inr s"
  by (simp add: valid_str_def str_decode_def str_encode_def comp_def)

lemma str_encode_decode: "str_decode bs = Inr s \<Longrightarrow> str_encode s = bs \<and> valid_str s"
  by (auto simp: valid_str_def str_decode_def str_encode_def comp_def split: if_splits)

section \<open>Decimal numbers\<close>

fun digits :: "nat \<Rightarrow> bytes" where
  "digits n = (if n < 10 then [word_of_nat (48 + n)] else digits (n div 10) @ [word_of_nat (48 + n mod 10)])"

declare digits.simps [simp del]

definition int_str :: "int \<Rightarrow> bytes" where
  "int_str n = (if n < 0 then 45 # digits (nat (- n)) else digits (nat n))"

definition is_digit :: "byte \<Rightarrow> bool" where
  "is_digit b \<longleftrightarrow> 48 \<le> b \<and> b \<le> 57"

definition is_space :: "byte \<Rightarrow> bool" where
  "is_space b \<longleftrightarrow> b = 32 \<or> (9 \<le> b \<and> b \<le> 13)"

definition strip :: "bytes \<Rightarrow> bytes" where
  "strip bs = rev (dropWhile is_space (rev (dropWhile is_space bs)))"

text \<open>The digits of \<open>int(b)\<close>: single underscores may stand between them.\<close>

fun read_digits :: "nat \<Rightarrow> bytes \<Rightarrow> nat option" where
  "read_digits acc [] = Some acc"
| "read_digits acc (c # cs) =
     (if is_digit c then read_digits (10 * acc + (unat c - 48)) cs
      else if c = 95 \<and> cs \<noteq> [] \<and> is_digit (hd cs) then read_digits acc cs
      else None)"

definition read_nat :: "bytes \<Rightarrow> nat option" where
  "read_nat bs = (if bs \<noteq> [] \<and> is_digit (hd bs) then read_digits 0 bs else None)"

definition py_int :: "bytes \<Rightarrow> int result" where
  "py_int bs =
     (let s = strip bs;
          (neg, ds) = (case s of c # cs \<Rightarrow> if c = 45 then (True, cs) else if c = 43 then (False, cs) else (False, s) | [] \<Rightarrow> (False, s))
      in case read_nat ds of None \<Rightarrow> Inl ValueError | Some n \<Rightarrow> Inr (if neg then - int n else int n))"

lemma digit_byte: "d < 10 \<Longrightarrow> is_digit (word_of_nat (48 + d)) \<and> unat (word_of_nat (48 + d) :: byte) = 48 + d"
proof -
  assume d: "d < 10"
  then have u: "unat (word_of_nat (48 + d) :: byte) = 48 + d"
    unfolding unat_of_nat by simp
  then have "is_digit (word_of_nat (48 + d))" unfolding is_digit_def word_le_nat_alt u using d by simp
  then show ?thesis using u by blast
qed

lemma digits_digits: "list_all is_digit (digits n) \<and> digits n \<noteq> []"
proof (induction n rule: digits.induct)
  case (1 n)
  show ?case using 1 digit_byte [of n] digit_byte [of "n mod 10"] by (subst digits.simps) (auto simp: digits.simps [of n])
qed

lemma read_digits_append:
  "list_all is_digit as \<Longrightarrow> read_digits acc as = Some n \<Longrightarrow> read_digits acc (as @ bs) = read_digits n bs"
  by (induction as arbitrary: acc) auto

lemma read_digits_digits: "read_digits 0 (digits n) = Some n"
proof (induction n rule: digits.induct)
  case (1 n)
  show ?case
  proof (cases "n < 10")
    case True
    then show ?thesis using digit_byte [of n] by (simp add: digits.simps [of n])
  next
    case False
    have "read_digits 0 (digits (n div 10) @ [word_of_nat (48 + n mod 10)]) = Some (10 * (n div 10) + n mod 10)"
      using read_digits_append [OF conjunct1 [OF digits_digits] 1 [OF False]] digit_byte [of "n mod 10"] by simp
    then show ?thesis using False by (simp add: digits.simps [of n])
  qed
qed

lemma read_nat_digits [simp]: "read_nat (digits n) = Some n"
  using digits_digits [of n] read_digits_digits [of n] by (cases "digits n") (auto simp: read_nat_def)

lemma is_digit_not_space: "is_digit b \<Longrightarrow> \<not> is_space b \<and> b \<noteq> 45 \<and> b \<noteq> 43 \<and> b \<noteq> 13 \<and> b \<noteq> 10"
  by (auto simp: is_digit_def is_space_def word_le_nat_alt)

lemma strip_no_space: "list_all (\<lambda>b. \<not> is_space b) bs \<Longrightarrow> strip bs = bs"
proof -
  assume a: "list_all (\<lambda>b. \<not> is_space b) bs"
  have "dropWhile is_space xs = xs" if "list_all (\<lambda>b. \<not> is_space b) xs" for xs using that by (cases xs) auto
  from this [OF a] this [of "rev bs"] a show ?thesis by (simp add: strip_def)
qed

text \<open>\<open>int(str(n)) == n\<close>.\<close>

lemma py_int_int_str [simp]: "py_int (int_str n) = Inr n"
proof -
  have d: "list_all (\<lambda>b. \<not> is_space b) (digits m) \<and> hd (digits m) \<noteq> 45 \<and> hd (digits m) \<noteq> 43" for m
    using digits_digits [of m] is_digit_not_space by (cases "digits m") (auto simp: list_all_iff)
  then have s: "strip (digits m) = digits m" "strip (45 # digits m) = 45 # digits m" for m
    using strip_no_space [of "digits m"] strip_no_space [of "45 # digits m"] by (simp_all add: is_space_def word_le_nat_alt)
  have c: "(case digits m of [] \<Rightarrow> a | x # xs \<Rightarrow> if x = 45 then b xs else if x = 43 then e xs else g) = g" for m a b e g
    using d [of m] digits_digits [of m] by (cases "digits m") auto
  show ?thesis by (simp add: py_int_def int_str_def s c Let_def split: option.splits)
qed

section \<open>Words of a line\<close>

text \<open>\<open>line.split()\<close>: the maximal runs of bytes that are not white space.\<close>

function split_words :: "bytes \<Rightarrow> bytes list" where
  "split_words bs =
     (let r = dropWhile is_space bs in
      if r = [] then [] else takeWhile (\<lambda>b. \<not> is_space b) r # split_words (dropWhile (\<lambda>b. \<not> is_space b) r))"
  by pat_completeness auto
termination
proof (relation "measure length")
  fix bs r :: bytes
  assume r: "r = dropWhile is_space bs" "r \<noteq> []"
  have "\<not> is_space (hd r)" using r hd_dropWhile by blast
  then have "length (dropWhile (\<lambda>b. \<not> is_space b) r) < length r"
    using r(2) length_dropWhile_le [of "\<lambda>b. \<not> is_space b" "tl r"] by (cases r) auto
  then show "(dropWhile (\<lambda>b. \<not> is_space b) r, bs) \<in> measure length"
    using r(1) length_dropWhile_le [of is_space bs] by simp
qed simp

declare split_words.simps [simp del]

end
