(* ===== verification/Resp.thy ===== *)
theory Resp
  imports PyText
begin

text \<open>
  \<open>resp.py\<close>: the wire protocol of the server. The state of a reader is the sequence of bytes
  that are still to come, up to the end of the stream. The bound of \<open>read_reply\<close> is the
  recursion limit of Python, for nested arrays. Two limits are not modelled: that of a stream
  reader on the length of a line (64 KiB, beyond which \<open>readuntil\<close> raises \<open>LimitOverrunError\<close>),
  and that of \<open>int\<close> on the number of digits.
\<close>

section \<open>The reader\<close>

definition CRLF :: bytes where
  "CRLF = [13, 10]"

text \<open>The first line and what follows it.\<close>

fun split_line :: "bytes \<Rightarrow> (bytes \<times> bytes) option" where
  "split_line (b # c # r) =
     (if b = 13 \<and> c = 10 then Some ([], r) else map_option (\<lambda>(l, r'). (b # l, r')) (split_line (c # r)))"
| "split_line r = None"

definition readuntil_crlf :: "(bytes, bytes) act" where
  "readuntil_crlf r =
     (case split_line r of None \<Rightarrow> (Inl IncompleteReadError, []) | Some (l, r') \<Rightarrow> (Inr (l @ CRLF), r'))"

definition readexactly :: "int \<Rightarrow> (bytes, bytes) act" where
  "readexactly n r =
     (if n < 0 then (Inl ValueError, r)
      else if length r < nat n then (Inl IncompleteReadError, [])
      else (Inr (take (nat n) r), drop (nat n) r))"

section \<open>Encoding\<close>

text \<open>\<open>ROther\<close> is a value of any other type.\<close>

datatype resp =
    RNone
  | RSimple string
  | RError string
  | RBool bool
  | RInt int
  | RBytes bytes
  | RStr string
  | RList "resp list"
  | ROther

definition bulk :: "bytes \<Rightarrow> bytes" where
  "bulk raw = 36 # digits (length raw) @ CRLF @ raw @ CRLF"

fun resp_encode :: "resp \<Rightarrow> bytes result" where
  "resp_encode RNone = Inr ([36, 45, 49] @ CRLF)"
| "resp_encode (RSimple s) = Inr (43 # str_encode s @ CRLF)"
| "resp_encode (RError s) = Inr (45 # str_encode s @ CRLF)"
| "resp_encode (RBool b) = Inr (58 # (if b then [49] else [48]) @ CRLF)"
| "resp_encode (RInt n) = Inr (58 # int_str n @ CRLF)"
| "resp_encode (RBytes b) = Inr (bulk b)"
| "resp_encode (RStr s) = Inr (bulk (str_encode s))"
| "resp_encode (RList vs) = bindR (mapR resp_encode vs) (\<lambda>ps. Inr (42 # digits (length vs) @ CRLF @ concat ps))"
| "resp_encode ROther = Inl TypeError"

datatype command_arg = ArgStr string | ArgBytes bytes

fun arg_raw :: "command_arg \<Rightarrow> bytes" where
  "arg_raw (ArgStr s) = str_encode s"
| "arg_raw (ArgBytes b) = b"

definition encode_command :: "command_arg list \<Rightarrow> bytes" where
  "encode_command args = 42 # digits (length args) @ CRLF @ concat (map (bulk \<circ> arg_raw) args)"

section \<open>Reading\<close>

lemma split_line_length: "split_line r = Some (l, r') \<Longrightarrow> length r = length l + 2 + length r'"
  by (induction r arbitrary: l rule: split_line.induct) (auto split: if_splits)

text \<open>The first line that is not blank, without its end.\<close>

function read_request_line :: "(bytes, bytes) act" where
  "read_request_line r =
     (case split_line r of
        None \<Rightarrow> (Inl IncompleteReadError, [])
      | Some (l, r') \<Rightarrow> if l = [] then read_request_line r' else (Inr l, r'))"
  by pat_completeness auto
termination
  by (relation "measure length") (auto dest: split_line_length)

declare read_request_line.simps [simp del]

fun read_args :: "nat \<Rightarrow> (bytes, bytes list) act" where
  "read_args 0 = ret []"
| "read_args (Suc n) =
     bindS readuntil_crlf (\<lambda>line.
     let header = butlast (butlast line) in
     if take 1 header \<noteq> [36] then raise ProtocolError
     else
       bindS (lift (\<lambda>_. py_int (drop 1 header))) (\<lambda>len.
       bindS (readexactly len) (\<lambda>data.
       bindS (readexactly 2) (\<lambda>_.
       bindS (read_args n) (\<lambda>args. ret (data # args))))))"

text \<open>\<open>except (IncompleteReadError, ConnectionError): return None\<close>\<close>

definition at_eof :: "(bytes, 'a) act \<Rightarrow> (bytes, 'a option) act" where
  "at_eof m r = (case m r of (Inl IncompleteReadError, r') \<Rightarrow> (Inr None, r') | (Inl e, r') \<Rightarrow> (Inl e, r') | (Inr x, r') \<Rightarrow> (Inr (Some x), r'))"

definition read_command :: "(bytes, bytes list option) act" where
  "read_command =
     bindS (at_eof read_request_line) (\<lambda>l.
       case l of
         None \<Rightarrow> ret None
       | Some line \<Rightarrow>
           if take 1 line \<noteq> [42] then ret (Some (split_words line))
           else
             (case py_int (drop 1 line) of
                Inl e \<Rightarrow> raise ProtocolError
              | Inr count \<Rightarrow> if count \<le> 0 then ret (Some []) else at_eof (read_args (nat count))))"

fun read_many :: "('s, 'a) act \<Rightarrow> nat \<Rightarrow> ('s, 'a list) act" where
  "read_many m 0 = ret []"
| "read_many m (Suc n) = bindS m (\<lambda>x. bindS (read_many m n) (\<lambda>xs. ret (x # xs)))"

fun read_reply :: "nat \<Rightarrow> (bytes, resp) act" where
  "read_reply 0 = raise RecursionError"
| "read_reply (Suc lim) =
     bindS readuntil_crlf (\<lambda>line.
     let kind = take 1 line; rest = take (length line - 3) (drop 1 line) in
     if kind = [43] then lift (\<lambda>_. bindR (str_decode rest) (\<lambda>s. Inr (RSimple s)))
     else if kind = [45] then lift (\<lambda>_. bindR (str_decode rest) (\<lambda>s. Inr (RError s)))
     else if kind = [58] then lift (\<lambda>_. bindR (py_int rest) (\<lambda>n. Inr (RInt n)))
     else if kind = [36] then
       bindS (lift (\<lambda>_. py_int rest)) (\<lambda>len.
       if len = -1 then ret RNone
       else
         bindS (readexactly len) (\<lambda>data.
         bindS (readexactly 2) (\<lambda>_.
           lift (\<lambda>_. bindR (str_decode data) (\<lambda>s. Inr (RStr s))))))
     else if kind = [42] then
       bindS (lift (\<lambda>_. py_int rest)) (\<lambda>count.
       if count = -1 then ret RNone
       else bindS (read_many (read_reply lim) (nat count)) (\<lambda>vs. ret (RList vs)))
     else raise ProtocolError)"

section \<open>Lines\<close>

definition no_crlf :: "bytes \<Rightarrow> bool" where
  "no_crlf l \<longleftrightarrow> (\<forall>i. Suc i < length l \<longrightarrow> \<not> (l ! i = 13 \<and> l ! Suc i = 10))"

lemma no_crlf_Cons2: "no_crlf (b # c # l) \<longleftrightarrow> \<not> (b = 13 \<and> c = 10) \<and> no_crlf (c # l)"
  unfolding no_crlf_def by (auto simp: less_Suc_eq_0_disj)

lemma split_line_app: "no_crlf l \<Longrightarrow> split_line (l @ CRLF @ r) = Some (l, r)"
proof (induction l)
  case (Cons b l)
  then show ?case by (cases l) (auto simp: CRLF_def no_crlf_Cons2)
qed (simp add: CRLF_def)

lemma no_crlf_digits: "list_all is_digit ds \<Longrightarrow> no_crlf (b # ds)"
  using is_digit_not_space by (auto simp: no_crlf_def list_all_length nth_Cons split: nat.splits)

lemma no_crlf_number: "no_crlf (b # digits n)" "no_crlf (b # int_str k)"
proof -
  show 1: "no_crlf (b # digits n)" for b n using digits_digits by (intro no_crlf_digits) blast
  show "no_crlf (b # int_str k)" using 1 [of 45] 1 by (simp add: int_str_def no_crlf_Cons2)
qed

lemma readuntil_line: "no_crlf l \<Longrightarrow> readuntil_crlf (l @ CRLF @ r) = (Inr (l @ CRLF), r)"
  by (simp add: readuntil_crlf_def split_line_app)

lemma readexactly_app: "readexactly (int (length d)) (d @ r) = (Inr d, r)"
  by (simp add: readexactly_def)

lemma readexactly_crlf: "readexactly 2 (CRLF @ r) = (Inr CRLF, r)"
  using readexactly_app [of CRLF r] by (simp add: CRLF_def)

lemma py_int_digits [simp]: "py_int (digits n) = Inr (int n)"
  using py_int_int_str [of "int n"] by (simp add: int_str_def)

lemma read_bulk:
  "bindS (lift (\<lambda>_. py_int (digits (length d)))) (\<lambda>len. bindS (readexactly len) (\<lambda>data. bindS (readexactly 2) (\<lambda>_. f data))) (d @ CRLF @ r)
    = f d r"
  by (simp add: bindS_def act_defs readexactly_app readexactly_crlf)

section \<open>Requests\<close>

lemma readuntil_bulk: "readuntil_crlf (bulk d @ s) = (Inr (36 # digits (length d) @ CRLF), d @ CRLF @ s)"
  using readuntil_line [OF no_crlf_number(1) [of 36 "length d"], of "d @ CRLF @ s"] by (simp add: bulk_def)

lemma read_args_Suc: "read_args (Suc n) (bulk d @ s) = bindS (read_args n) (\<lambda>args. ret (d # args)) s"
proof -
  define line where "line = 36 # digits (length d) @ CRLF"
  have h: "take 1 (butlast (butlast line)) = [36]" "drop 1 (butlast (butlast line)) = digits (length d)"
    by (simp_all add: line_def CRLF_def butlast_append)
  have "readuntil_crlf (bulk d @ s) = (Inr line, d @ CRLF @ s)" by (simp add: readuntil_bulk line_def)
  then have "read_args (Suc n) (bulk d @ s) =
      bindS (lift (\<lambda>_. py_int (digits (length d)))) (\<lambda>len. bindS (readexactly len) (\<lambda>data. bindS (readexactly 2) (\<lambda>_.
        bindS (read_args n) (\<lambda>args. ret (data # args))))) (d @ CRLF @ s)"
    by (simp add: bindS_def [of readuntil_crlf] Let_def h [simplified])
  then show ?thesis using read_bulk [of d] by simp
qed

lemma read_args_app: "read_args (length ds) (concat (map bulk ds) @ r) = (Inr ds, r)"
proof (induction ds)
  case (Cons d ds)
  then show ?case using read_args_Suc [of "length ds" d "concat (map bulk ds) @ r"] by (simp add: bindS_def act_defs)
qed (simp add: act_defs)

lemma read_request_line_app: "no_crlf l \<Longrightarrow> l \<noteq> [] \<Longrightarrow> read_request_line (l @ CRLF @ r) = (Inr l, r)"
  by (simp add: read_request_line.simps [of "l @ CRLF @ r"] split_line_app)

lemma read_command_app: "read_command (encode_command args @ r) = (Inr (Some (map arg_raw args)), r)"
proof -
  let ?l = "42 # digits (length args)"
  have line: "at_eof read_request_line (?l @ CRLF @ s) = (Inr (Some ?l), s)" for s
    using read_request_line_app [of ?l s] no_crlf_number(1) by (simp add: at_eof_def)
  have args: "read_args (length args) (concat (map (bulk \<circ> arg_raw) args) @ r) = (Inr (map arg_raw args), r)"
    using read_args_app [of "map arg_raw args" r] by (simp add: comp_def)
  show ?thesis
    using line [of "concat (map (bulk \<circ> arg_raw) args) @ r"] args
    by (auto simp: read_command_def encode_command_def bindS_def act_defs at_eof_def)
qed

section \<open>Replies\<close>

text \<open>What a client gets for a value, and the values that can be sent: text without an end of line in it where it is sent as a line.\<close>

fun received :: "resp \<Rightarrow> resp" where
  "received (RBool b) = RInt (if b then 1 else 0)"
| "received (RBytes b) = RStr (map chr_of b)"
| "received (RList vs) = RList (map received vs)"
| "received v = v"

fun sendable :: "resp \<Rightarrow> bool" where
  "sendable (RSimple s) \<longleftrightarrow> valid_str s \<and> no_crlf (str_encode s)"
| "sendable (RError s) \<longleftrightarrow> valid_str s \<and> no_crlf (str_encode s)"
| "sendable (RBytes b) \<longleftrightarrow> utf8_valid b"
| "sendable (RStr s) \<longleftrightarrow> valid_str s"
| "sendable (RList vs) \<longleftrightarrow> (\<forall>v \<in> set vs. sendable v)"
| "sendable ROther \<longleftrightarrow> False"
| "sendable v \<longleftrightarrow> True"

text \<open>Arrays in arrays at most \<open>lim\<close> deep.\<close>

fun fits :: "nat \<Rightarrow> resp \<Rightarrow> bool" where
  "fits 0 v \<longleftrightarrow> False"
| "fits (Suc lim) (RList vs) \<longleftrightarrow> (\<forall>v \<in> set vs. fits lim v)"
| "fits (Suc lim) v \<longleftrightarrow> True"

lemma read_reply_line:
  assumes "readuntil_crlf s = (Inr (k # l @ CRLF), r)"
  shows "read_reply (Suc lim) s =
    (if k = 43 then (bindR (str_decode l) (\<lambda>s. Inr (RSimple s)), r)
     else if k = 45 then (bindR (str_decode l) (\<lambda>s. Inr (RError s)), r)
     else if k = 58 then (bindR (py_int l) (\<lambda>n. Inr (RInt n)), r)
     else if k = 36 then
       bindS (lift (\<lambda>_. py_int l)) (\<lambda>len.
       if len = -1 then ret RNone
       else bindS (readexactly len) (\<lambda>data. bindS (readexactly 2) (\<lambda>_. lift (\<lambda>_. bindR (str_decode data) (\<lambda>s. Inr (RStr s)))))) r
     else if k = 42 then
       bindS (lift (\<lambda>_. py_int l)) (\<lambda>count.
       if count = -1 then ret RNone else bindS (read_many (read_reply lim) (nat count)) (\<lambda>vs. ret (RList vs))) r
     else (Inl ProtocolError, r))"
proof -
  have "take (length (k # l @ CRLF) - 3) (drop 1 (k # l @ CRLF)) = l" by (simp add: CRLF_def)
  then show ?thesis using assms by (simp add: bindS_def [of readuntil_crlf] act_defs Let_def)
qed

lemma line_reply: "no_crlf (k # l) \<Longrightarrow> readuntil_crlf (k # l @ CRLF @ r) = (Inr (k # l @ CRLF), r)"
  using readuntil_line [of "k # l" r] by simp

lemma read_reply_bulk: "read_reply (Suc lim) (bulk d @ r) = (bindR (str_decode d) (\<lambda>s. Inr (RStr s)), r)"
  using read_reply_line [OF readuntil_bulk [of d r], of lim] by (simp add: bindS_def act_defs readexactly_app readexactly_crlf)

lemma line_values:
  "sendable v \<Longrightarrow> \<not> (\<exists>vs. v = RList vs)
    \<Longrightarrow> \<exists>bs. resp_encode v = Inr bs \<and> (\<forall>r. read_reply (Suc lim) (bs @ r) = (Inr (received v), r))"
proof (cases v)
  case RNone
  have "no_crlf [36, 45, 49]" by (simp add: no_crlf_def nth_Cons split: nat.splits)
  from read_reply_line [OF line_reply [OF this]] show ?thesis
    using RNone by (simp add: bindS_def act_defs py_int_def Let_def strip_def is_space_def read_nat_def is_digit_def)
next
  case (RSimple s)
  assume "sendable v"
  then have "no_crlf (43 # str_encode s)" "valid_str s" using RSimple by (auto simp: no_crlf_def nth_Cons split: nat.splits)
  then show ?thesis using RSimple read_reply_line [OF line_reply] str_decode_encode by simp
next
  case (RError s)
  assume "sendable v"
  then have "no_crlf (45 # str_encode s)" "valid_str s" using RError by (auto simp: no_crlf_def nth_Cons split: nat.splits)
  then show ?thesis using RError read_reply_line [OF line_reply] str_decode_encode by simp
next
  case (RBool b)
  have e: "resp_encode v = resp_encode (RInt (if b then 1 else 0))" by (simp add: RBool int_str_def digits.simps)
  show ?thesis using RBool read_reply_line [OF line_reply [OF no_crlf_number(2)]] unfolding e by simp
next
  case (RInt n)
  then show ?thesis using read_reply_line [OF line_reply [OF no_crlf_number(2)]] by simp
next
  case (RBytes b)
  assume "sendable v"
  then show ?thesis using RBytes read_reply_bulk by (simp add: str_decode_def)
next
  case (RStr s)
  assume "sendable v"
  then show ?thesis using RStr read_reply_bulk str_decode_encode by simp
qed simp_all

lemma read_many_app:
  "length bss = length vs \<Longrightarrow> (\<And>v bs r. (v, bs) \<in> set (zip vs bss) \<Longrightarrow> m (bs @ r) = (Inr (f v), r))
    \<Longrightarrow> read_many m (length vs) (concat bss @ r) = (Inr (map f vs), r)"
proof (induction bss vs rule: list_induct2)
  case (Cons bs bss v vs)
  have "m (bs @ concat bss @ r) = (Inr (f v), concat bss @ r)" "read_many m (length vs) (concat bss @ r) = (Inr (map f vs), r)"
    using Cons.prems Cons.IH by auto
  then show ?case by (simp add: bindS_def act_defs)
qed (simp add: act_defs)

lemma read_reply_app:
  "fits lim v \<Longrightarrow> sendable v \<Longrightarrow> \<exists>bs. resp_encode v = Inr bs \<and> (\<forall>r. read_reply lim (bs @ r) = (Inr (received v), r))"
proof (induction lim arbitrary: v)
  case (Suc lim)
  show ?case
  proof (cases "\<exists>vs. v = RList vs")
    case False
    then show ?thesis using line_values Suc.prems(2) by blast
  next
    case True
    then obtain vs where v: "v = RList vs" by blast
    have "\<exists>bs. resp_encode v = Inr bs \<and> (\<forall>r. read_reply lim (bs @ r) = (Inr (received v), r))" if "v \<in> set vs" for v
      using Suc v that by simp
    then obtain f where f: "\<And>v. v \<in> set vs \<Longrightarrow> resp_encode v = Inr (f v) \<and> (\<forall>r. read_reply lim (f v @ r) = (Inr (received v), r))"
      by metis
    have e: "mapR resp_encode vs = Inr (map f vs)" using f by (simp add: mapR_eq_Inr list_all2_map2 list.rel_refl_strong)
    have line: "readuntil_crlf (42 # digits (length vs) @ CRLF @ s) = (Inr (42 # digits (length vs) @ CRLF), s)" for s
      using readuntil_line [OF no_crlf_number(1) [of 42 "length vs"], of s] by simp
    have "read_many (read_reply lim) (length vs) (concat (map f vs) @ r) = (Inr (map received vs), r)" for r
      by (rule read_many_app) (use f in \<open>auto simp: zip_map2 in_set_zip\<close>)
    then show ?thesis using v e read_reply_line [OF line] by (simp add: bindS_def act_defs)
  qed
qed simp

section \<open>Properties\<close>

text \<open>
  C14. Replies survive the wire. Take \<open>None\<close>, booleans, integers, strings, byte strings that are
  UTF-8, status and error texts that contain no line end, and lists of such values, nested as
  deep as the recursion limit allows. The value is encoded, and a client that reads the bytes
  gets the value back and leaves what follows it in the stream; booleans arrive as 0 and 1,
  byte strings as text.
\<close>

theorem resp_reply_roundtrip:
  assumes "fits lim v" "sendable v"
  shows "\<exists>bs. resp_encode v = Inr bs \<and> (\<forall>r. read_reply lim (bs @ r) = (Inr (received v), r))"
  by (rule read_reply_app [OF assms])

theorem resp_reply_roundtrip_witness:
  "\<exists>bs. resp_encode (RList [RStr ''message'', RInt 42, RNone]) = Inr bs
    \<and> (\<forall>r. read_reply 2 (bs @ r) = (Inr (received (RList [RStr ''message'', RInt 42, RNone])), r))"
proof (rule resp_reply_roundtrip)
  show "fits 2 (RList [RStr ''message'', RInt 42, RNone])" by (simp add: numeral_2_eq_2)
  show "sendable (RList [RStr ''message'', RInt 42, RNone])"
    by (simp add: valid_str_def str_encode_def byte_of_def utf8_valid.simps)
qed

text \<open>
  The condition on error texts matters, since the server puts the name of an unknown command
  into one: a text with a line end in it arrives cut off there, and the client takes the rest for
  the beginning of the next reply.
\<close>

lemma error_text_with_line_end:
  assumes "no_crlf (str_encode s)" "valid_str s"
  shows "\<exists>bs. resp_encode (RError (s @ [chr_of 13, chr_of 10] @ t)) = Inr bs
    \<and> read_reply (Suc lim) (bs @ r) = (Inr (RError s), str_encode t @ CRLF @ r)"
proof -
  have e: "str_encode (s @ [chr_of 13, chr_of 10] @ t) = str_encode s @ CRLF @ str_encode t"
    by (simp add: str_encode_def CRLF_def)
  have "no_crlf (45 # str_encode s)" using assms(1) by (auto simp: no_crlf_def nth_Cons split: nat.splits)
  then have "readuntil_crlf ((45 # str_encode s) @ CRLF @ str_encode t @ CRLF @ r) = (Inr ((45 # str_encode s) @ CRLF), str_encode t @ CRLF @ r)"
    by (rule readuntil_line)
  then have "readuntil_crlf (45 # str_encode s @ CRLF @ str_encode t @ CRLF @ r) = (Inr (45 # str_encode s @ CRLF), str_encode t @ CRLF @ r)"
    by simp
  from read_reply_line [OF this, of lim] show ?thesis
    using str_decode_encode [OF assms(2)] unfolding resp_encode.simps e by (intro exI conjI) (rule refl, simp)
qed

text \<open>
  C15. Requests survive the wire, and they may be sent ahead: the reader gets every request of a
  stream in which they follow each other, with the arguments the client gave, and stops
  exactly at the end of the last one.
\<close>

theorem resp_requests_roundtrip:
  "read_many read_command (length reqs) (concat (map encode_command reqs) @ r) = (Inr (map (Some \<circ> map arg_raw) reqs), r)"
  by (rule read_many_app) (auto simp: read_command_app in_set_zip)

lemma read_args_fails:
  "read_args (Suc k) s = (Inl e, r) \<Longrightarrow> read_args (length ds + Suc k) (concat (map bulk ds) @ s) = (Inl e, r)"
proof (induction ds)
  case (Cons d ds)
  then show ?case
    using read_args_Suc [of "length ds + Suc k" d "concat (map bulk ds) @ s"] by (simp add: bindS_def act_defs)
qed simp

text \<open>
  C39. Requests that are not well-formed. A count that is no number makes \<open>read_command\<close> raise
  \<open>ProtocolError\<close>. When the count is \<open>n\<close> and a part of the request, after any number of complete ones,
  does not begin with a dollar sign, it raises \<open>ProtocolError\<close> too. But when the length of that part is no number, or
  negative, it raises \<open>ValueError\<close>. In each case the line with the mistake is consumed and nothing after it.
\<close>

theorem resp_malformed:
  assumes "no_crlf (42 # h)" "no_crlf g" "take 1 g \<noteq> [36]" "no_crlf (36 # l)"
  shows "(py_int h = Inl e \<longrightarrow> read_command (42 # h @ CRLF @ r) = (Inl ProtocolError, r))
    \<and> (py_int h = Inr n \<and> int (length ds) < n
         \<longrightarrow> read_command (42 # h @ CRLF @ concat (map bulk ds) @ g @ CRLF @ r) = (Inl ProtocolError, r)
         \<and> (py_int l = Inl ValueError \<or> py_int l = Inr m \<and> m < 0
              \<longrightarrow> read_command (42 # h @ CRLF @ concat (map bulk ds) @ 36 # l @ CRLF @ r) = (Inl ValueError, r)))"
proof -
  have line: "at_eof read_request_line (42 # h @ CRLF @ s) = (Inr (Some (42 # h)), s)" for s
    using read_request_line_app [OF assms(1), of s] by (simp add: at_eof_def)
  have g: "readuntil_crlf (g @ CRLF @ r) = (Inr (g @ CRLF), r)" by (rule readuntil_line [OF assms(2)])
  have l: "readuntil_crlf (36 # l @ CRLF @ r) = (Inr (36 # l @ CRLF), r)" using readuntil_line [OF assms(4), of r] by simp
  have b: "butlast (butlast (s @ CRLF)) = s" for s by (simp add: CRLF_def butlast_append)
  have 1: "read_args (Suc k) (g @ CRLF @ r) = (Inl ProtocolError, r)" for k
    using g assms(3) by (simp add: bindS_def act_defs Let_def b)
  have 2: "read_args (Suc k) (36 # l @ CRLF @ r) = (Inl ValueError, r)"
    if "py_int l = Inl ValueError \<or> py_int l = Inr m \<and> m < 0" for k
    using that l b [of "36 # l"] by (auto simp: bindS_def act_defs Let_def readexactly_def)
  have args: "read_command (42 # h @ CRLF @ concat (map bulk ds) @ s) = (Inl e, r)"
    if "py_int h = Inr n" "int (length ds) < n" "\<And>k. read_args (Suc k) s = (Inl e, r)" "e \<noteq> IncompleteReadError" for s e
  proof -
    have "nat n = length ds + Suc (nat n - Suc (length ds))" using that(2) by linarith
    then have "read_args (nat n) (concat (map bulk ds) @ s) = (Inl e, r)"
      using read_args_fails [OF that(3), where ds = ds] by metis
    then show ?thesis
      using line [of "concat (map bulk ds) @ s"] that by (cases e) (simp_all add: read_command_def bindS_def act_defs at_eof_def)
  qed
  show ?thesis using line args [OF _ _ 1] args [OF _ _ 2] by (auto simp: read_command_def bindS_def act_defs)
qed

theorem resp_malformed_witness:
  "read_command (42 # [50] @ CRLF @ bulk [104] @ [43] @ CRLF @ []) = (Inl ProtocolError, [])
    \<and> read_command (42 # [50] @ CRLF @ bulk [104] @ 36 # [45, 49] @ CRLF @ []) = (Inl ValueError, [])"
proof -
  have 1: "py_int [50] = Inr 2" and 2: "py_int [45, 49] = Inr (-1)"
    by (simp_all add: py_int_def Let_def strip_def is_space_def read_nat_def is_digit_def)
  have 3: "no_crlf [42, 50]" "no_crlf [43]" "no_crlf [36, 45, 49]" by (simp_all add: no_crlf_def nth_Cons split: nat.splits)
  show ?thesis using resp_malformed [of "[50]" "[43]" "[45, 49]" _ "[]" 2 "[[104]]" "-1"] 1 2 3 by simp
qed

end
