(* ===== verification/Pubsub.thy ===== *)
theory Pubsub
  imports Prelude "HOL-Library.AList"
begin

text \<open>
  \<open>pubsub.py\<close>: the broker of the change feed. The dictionary of subscribers is an association
  list in insertion order, a set of queues the list of its elements; the queues themselves are
  objects, so their contents are kept by identity. The text of a message is what
  \<open>json.dumps\<close> makes of the change, a parameter here.
\<close>

section \<open>The broker\<close>

datatype message = Message (channel: string) (payload: string)

record 'q broker =
  subscribers :: "(string \<times> 'q list) list"
  queue_maxsize :: nat
  dropped :: nat
  queues :: "'q \<Rightarrow> message list"

definition DEFAULT_QUEUE_MAXSIZE :: nat where
  "DEFAULT_QUEUE_MAXSIZE = 1024"

definition ChangeBroker :: "nat \<Rightarrow> 'q broker" where
  "ChangeBroker maxsize = \<lparr>subscribers = [], queue_maxsize = maxsize, dropped = 0, queues = (\<lambda>q. [])\<rparr>"

text \<open>\<open>q\<close> is the identity of the new object.\<close>

definition new_queue :: "'q \<Rightarrow> 'q broker \<Rightarrow> 'q broker" where
  "new_queue q b = b\<lparr>queues := (queues b)(q := [])\<rparr>"

definition subscribe :: "string \<Rightarrow> 'q \<Rightarrow> 'q broker \<Rightarrow> 'q broker" where
  "subscribe p q b =
     (let qs = (case map_of (subscribers b) p of None \<Rightarrow> [] | Some qs \<Rightarrow> qs) in
      b\<lparr>subscribers := AList.update p (List.insert q qs) (subscribers b)\<rparr>)"

definition unsubscribe :: "string \<Rightarrow> 'q \<Rightarrow> 'q broker \<Rightarrow> 'q broker" where
  "unsubscribe p q b =
     (case map_of (subscribers b) p of
        None \<Rightarrow> b
      | Some qs \<Rightarrow>
          if qs = [] then b
          else if remove1 q qs = [] then b\<lparr>subscribers := AList.delete p (subscribers b)\<rparr>
          else b\<lparr>subscribers := AList.update p (remove1 q qs) (subscribers b)\<rparr>)"

definition unsubscribe_all :: "'q \<Rightarrow> 'q broker \<Rightarrow> 'q broker" where
  "unsubscribe_all q b = fold (\<lambda>p. unsubscribe p q) (map fst (subscribers b)) b"

definition prefixes_of :: "'q broker \<Rightarrow> string list" where
  "prefixes_of b = map fst (subscribers b)"

text \<open>\<open>queue.put_nowait\<close>: a queue of size 0 has no bound.\<close>

definition put_nowait :: "message \<Rightarrow> 'q \<Rightarrow> 'q broker \<Rightarrow> 'q broker" where
  "put_nowait m q b =
     (if queue_maxsize b = 0 \<or> length (queues b q) < queue_maxsize b
      then b\<lparr>queues := (queues b)(q := queues b q @ [m])\<rparr>
      else b\<lparr>dropped := dropped b + 1\<rparr>)"

fun publish_to :: "(string \<Rightarrow> string \<Rightarrow> string option \<Rightarrow> string) \<Rightarrow> string \<Rightarrow> string \<Rightarrow> string option
    \<Rightarrow> (string \<times> 'q list) list \<Rightarrow> 'q broker \<Rightarrow> 'q broker" where
  "publish_to js key op v [] b = b"
| "publish_to js key op v ((p, qs) # subs) b =
     publish_to js key op v subs (if prefix p key then fold (put_nowait (Message p (js key op v))) qs b else b)"

definition publish :: "(string \<Rightarrow> string \<Rightarrow> string option \<Rightarrow> string) \<Rightarrow> string \<Rightarrow> string \<Rightarrow> string option \<Rightarrow> 'q broker \<Rightarrow> 'q broker" where
  "publish js key op v b = (if subscribers b = [] then b else publish_to js key op v (subscribers b) b)"

section \<open>Well-formed brokers\<close>

definition broker_ok :: "'q broker \<Rightarrow> bool" where
  "broker_ok b \<longleftrightarrow> distinct (map fst (subscribers b))
     \<and> (\<forall>p qs. map_of (subscribers b) p = Some qs \<longrightarrow> distinct qs \<and> qs \<noteq> [])
     \<and> (queue_maxsize b > 0 \<longrightarrow> (\<forall>q. length (queues b q) \<le> queue_maxsize b))"

definition subscribed :: "'q broker \<Rightarrow> string \<Rightarrow> 'q \<Rightarrow> bool" where
  "subscribed b p q \<longleftrightarrow> (\<exists>qs. map_of (subscribers b) p = Some qs \<and> q \<in> set qs)"

lemma broker_ok_new: "broker_ok (ChangeBroker n)"
  by (simp add: broker_ok_def ChangeBroker_def)

lemma broker_ok_queue: "broker_ok b \<Longrightarrow> broker_ok (new_queue q b)"
  by (auto simp: broker_ok_def new_queue_def)

lemma broker_ok_subscribe: "broker_ok b \<Longrightarrow> broker_ok (subscribe p q b)"
  by (auto simp: broker_ok_def subscribe_def Let_def distinct_update update_conv' List.insert_def split: option.splits if_splits)

lemma subscribed_subscribe: "subscribed (subscribe p q b) p' q' \<longleftrightarrow> subscribed b p' q' \<or> p' = p \<and> q' = q"
  by (cases "map_of (subscribers b) p") (auto simp: subscribed_def subscribe_def Let_def update_conv')

lemma broker_ok_unsubscribe: "broker_ok b \<Longrightarrow> broker_ok (unsubscribe p q b)"
  by (auto simp: broker_ok_def unsubscribe_def distinct_update distinct_delete update_conv' delete_conv'
      simp del: map_of_eq_Some_iff split: option.splits if_splits)

lemma subscribed_unsubscribe:
  "broker_ok b \<Longrightarrow> subscribed (unsubscribe p q b) p' q' \<longleftrightarrow> subscribed b p' q' \<and> \<not> (p' = p \<and> q' = q)"
proof -
  assume b: "broker_ok b"
  have d: "set (remove1 q qs) = set qs - {q}" if "map_of (subscribers b) p = Some qs" for qs
    using that b by (simp add: broker_ok_def set_remove1_eq)
  show ?thesis
  proof (cases "map_of (subscribers b) p")
    case None
    then show ?thesis by (auto simp: subscribed_def unsubscribe_def)
  next
    case (Some qs)
    then have "qs \<noteq> []" using b by (simp add: broker_ok_def)
    show ?thesis
    proof (cases "remove1 q qs = []")
      case True
      then have "set qs - {q} = {}" using d [OF Some] by simp
      then show ?thesis using True Some \<open>qs \<noteq> []\<close> by (auto simp: subscribed_def unsubscribe_def delete_conv')
    next
      case False
      then show ?thesis
        using d [OF Some] Some \<open>qs \<noteq> []\<close> by (auto simp: subscribed_def unsubscribe_def update_conv')
    qed
  qed
qed

lemma unsubscribe_all_ok:
  assumes "broker_ok b"
  shows "broker_ok (unsubscribe_all q b)" "subscribed (unsubscribe_all q b) p q' \<longleftrightarrow> subscribed b p q' \<and> q' \<noteq> q"
proof -
  have f: "broker_ok (fold (\<lambda>p. unsubscribe p q) ps b)
      \<and> (\<forall>p q'. subscribed (fold (\<lambda>p. unsubscribe p q) ps b) p q' \<longleftrightarrow> subscribed b p q' \<and> \<not> (p \<in> set ps \<and> q' = q))" for ps
    using assms by (induction ps arbitrary: b) (auto simp: broker_ok_unsubscribe subscribed_unsubscribe)
  show "broker_ok (unsubscribe_all q b)" using f by (simp add: unsubscribe_all_def)
  have "p \<in> set (map fst (subscribers b))" if "subscribed b p q'" for q'
    using that by (auto simp: subscribed_def dest: map_of_SomeD intro: rev_image_eqI)
  then show "subscribed (unsubscribe_all q b) p q' \<longleftrightarrow> subscribed b p q' \<and> q' \<noteq> q"
    using f [of "map fst (subscribers b)"] by (auto simp: unsubscribe_all_def)
qed

section \<open>Delivery\<close>

text \<open>A message offered to a queue of bounded size.\<close>

definition offer :: "nat \<Rightarrow> message \<Rightarrow> message list \<Rightarrow> message list" where
  "offer n m ms = (if n = 0 \<or> length ms < n then ms @ [m] else ms)"

lemma put_nowait_simps [simp]:
  "subscribers (put_nowait m q b) = subscribers b" "queue_maxsize (put_nowait m q b) = queue_maxsize b"
  "queues (put_nowait m q b) = (queues b)(q := offer (queue_maxsize b) m (queues b q))"
  by (auto simp: put_nowait_def offer_def)

lemma put_all_simps [simp]:
  "subscribers (fold (put_nowait m) qs b) = subscribers b" "queue_maxsize (fold (put_nowait m) qs b) = queue_maxsize b"
  by (induction qs arbitrary: b) simp_all

lemma put_all_queues:
  "distinct qs \<Longrightarrow> queues (fold (put_nowait m) qs b) q = (if q \<in> set qs then offer (queue_maxsize b) m (queues b q) else queues b q)"
  by (induction qs arbitrary: b) auto

definition matching :: "(string \<times> 'q list) list \<Rightarrow> string \<Rightarrow> 'q \<Rightarrow> string list" where
  "matching subs key q = map fst (filter (\<lambda>(p, qs). prefix p key \<and> q \<in> set qs) subs)"

lemma publish_to_simps [simp]:
  "subscribers (publish_to js key op v subs b) = subscribers b" "queue_maxsize (publish_to js key op v subs b) = queue_maxsize b"
  by (induction js key op v subs b rule: publish_to.induct) simp_all

lemma publish_to_queues:
  "\<forall>(p, qs) \<in> set subs. distinct qs \<Longrightarrow> queues (publish_to js key op v subs b) q
    = fold (\<lambda>p. offer (queue_maxsize b) (Message p (js key op v))) (matching subs key q) (queues b q)"
  by (induction js key op v subs b rule: publish_to.induct) (auto simp: matching_def put_all_queues)

text \<open>Nothing is lost without being counted.\<close>

definition accounted :: "'q set \<Rightarrow> 'q broker \<Rightarrow> nat" where
  "accounted Q b = dropped b + (\<Sum>q \<in> Q. length (queues b q))"

lemma put_nowait_accounted: "finite Q \<Longrightarrow> q \<in> Q \<Longrightarrow> accounted Q (put_nowait m q b) = Suc (accounted Q b)"
  by (auto simp: accounted_def put_nowait_def sum.remove [of Q q])

lemma put_all_accounted:
  "finite Q \<Longrightarrow> set qs \<subseteq> Q \<Longrightarrow> accounted Q (fold (put_nowait m) qs b) = accounted Q b + length qs"
  by (induction qs arbitrary: b) (auto simp: put_nowait_accounted)

definition deliveries :: "(string \<times> 'q list) list \<Rightarrow> string \<Rightarrow> nat" where
  "deliveries subs key = sum_list (map (\<lambda>(p, qs). if prefix p key then length qs else 0) subs)"

lemma publish_to_accounted:
  "finite Q \<Longrightarrow> \<forall>(p, qs) \<in> set subs. set qs \<subseteq> Q
    \<Longrightarrow> accounted Q (publish_to js key op v subs b) = accounted Q b + deliveries subs key"
  by (induction js key op v subs b rule: publish_to.induct) (auto simp: deliveries_def put_all_accounted)

lemma offers_bound: "0 < n \<Longrightarrow> length ms \<le> n \<Longrightarrow> length (fold (\<lambda>p. offer n (f p)) ps ms) \<le> n"
  by (induction ps arbitrary: ms) (auto simp: offer_def)

lemma publish_to_publish: "publish js key op v b = publish_to js key op v (subscribers b) b"
  by (simp add: publish_def)

text \<open>
  C16. What a publication does. Every queue gets the message once for each of its subscriptions
  that is a prefix of the key, as far as the queue has room, and the other queues are
  left alone; the messages that found no room are counted, so that what is queued and what was
  dropped grow together by the number of deliveries; the broker stays well-formed, in
  particular no queue exceeds its bound.
\<close>

theorem publish_delivers:
  assumes "broker_ok b" "finite Q" "\<forall>p q. subscribed b p q \<longrightarrow> q \<in> Q"
  shows "queues (publish js key op v b) q
      = fold (\<lambda>p. offer (queue_maxsize b) (Message p (js key op v))) (matching (subscribers b) key q) (queues b q)
    \<and> (\<forall>p. p \<in> set (matching (subscribers b) key q) \<longleftrightarrow> subscribed b p q \<and> prefix p key)
    \<and> accounted Q (publish js key op v b) = accounted Q b + deliveries (subscribers b) key
    \<and> broker_ok (publish js key op v b)"
proof -
  have d: "\<forall>(p, qs) \<in> set (subscribers b). distinct qs"
    using assms(1) by (auto simp: broker_ok_def dest: map_of_is_SomeI)
  have Q: "\<forall>(p, qs) \<in> set (subscribers b). set qs \<subseteq> Q"
    using assms(1,3) by (auto simp: broker_ok_def subscribed_def)
  have q: "queues (publish js key op v b) q
      = fold (\<lambda>p. offer (queue_maxsize b) (Message p (js key op v))) (matching (subscribers b) key q) (queues b q)" for q
    unfolding publish_to_publish by (rule publish_to_queues [OF d])
  have "p \<in> set (matching (subscribers b) key q) \<longleftrightarrow> subscribed b p q \<and> prefix p key" for p
    using assms(1) by (force simp: matching_def subscribed_def broker_ok_def image_iff)
  moreover have "broker_ok (publish js key op v b)"
    using assms(1) offers_bound [of "queue_maxsize b" _ "\<lambda>p. Message p (js key op v)"] q by (auto simp: broker_ok_def publish_to_publish)
  ultimately show ?thesis using q publish_to_accounted [OF assms(2) Q] by (simp add: publish_to_publish)
qed

theorem publish_delivers_witness:
  "queues (publish (\<lambda>k op v. k) ''user:1'' ''set'' (Some ''x'') (subscribe ''user:'' (1::nat) (ChangeBroker 2))) 1
     = [Message ''user:'' ''user:1'']"
proof -
  let ?b = "subscribe ''user:'' (1::nat) (ChangeBroker 2)"
  have "broker_ok ?b" by (rule broker_ok_subscribe [OF broker_ok_new])
  moreover have "\<forall>p q. subscribed ?b p q \<longrightarrow> q \<in> {1}"
    by (simp add: subscribed_subscribe) (simp add: subscribed_def ChangeBroker_def)
  ultimately have "queues (publish (\<lambda>k op v. k) ''user:1'' ''set'' (Some ''x'') ?b) 1
      = fold (\<lambda>p. offer (queue_maxsize ?b) (Message p ''user:1'')) (matching (subscribers ?b) ''user:1'' 1) (queues ?b 1)"
    using publish_delivers [of ?b "{1}"] by simp
  then show ?thesis by (simp add: subscribe_def ChangeBroker_def Let_def matching_def offer_def prefix_def)
qed

end
