(* ===== verification/KVMachine.thy ===== *)
theory KVMachine
  imports DatabaseProperties RaftCluster
begin

text \<open>
  \<open>raft/statemachine.py\<close>: the state machine that applies the committed log to a database. The
  index of the last applied entry is a value like any other; \<open>mk\<close> makes the value of an index
  and \<open>as_int\<close> is \<open>int(value)\<close>.
\<close>

section \<open>The state machine\<close>

definition RAFT_APPLIED_KEY :: string where
  "RAFT_APPLIED_KEY = ''__raft_applied_index__''"

definition kv_applied_index :: "string pickle \<Rightarrow> nat \<Rightarrow> ('v \<Rightarrow> nat result) \<Rightarrow> ('v dbdb, nat) act" where
  "kv_applied_index P lim as_int =
     catch_key_error (bindS (db_getitem P lim RAFT_APPLIED_KEY) (\<lambda>v. lift (\<lambda>_. as_int v))) (ret 0)"

definition kv_apply :: "string pickle \<Rightarrow> nat \<Rightarrow> (nat \<Rightarrow> 'v) \<Rightarrow> nat \<Rightarrow> 'v command \<Rightarrow> ('v dbdb, unit) act" where
  "kv_apply P lim mk index command =
     bindS (case command of
        SetOp k v \<Rightarrow> db_setitem P lim k v
      | DelOp k \<Rightarrow> catch_key_error (db_delitem P lim k) (ret ())
      | NoOp \<Rightarrow> ret ()) (\<lambda>_.
     bindS (db_setitem P lim RAFT_APPLIED_KEY (mk index)) (\<lambda>_.
       db_commit P))"

text \<open>The entries from index \<open>i\<close> on, as the node applies them; an exception ends it.\<close>

fun kv_apply_all :: "string pickle \<Rightarrow> nat \<Rightarrow> (nat \<Rightarrow> 'v) \<Rightarrow> nat \<Rightarrow> 'v command list \<Rightarrow> ('v dbdb, unit) act" where
  "kv_apply_all P lim mk i [] = ret ()"
| "kv_apply_all P lim mk i (c # cs) = bindS (kv_apply P lim mk i c) (\<lambda>_. kv_apply_all P lim mk (Suc i) cs)"

section \<open>What it does to the content\<close>

definition enc :: "'v codec \<Rightarrow> 'v \<Rightarrow> bytes" where
  "enc C v = (case encode C v of Inl e \<Rightarrow> [] | Inr b \<Rightarrow> b)"

fun command_writes :: "'v codec \<Rightarrow> 'v command \<Rightarrow> string content \<Rightarrow> string content" where
  "command_writes C (SetOp k v) xs = kv_upd k (enc C v) xs"
| "command_writes C (DelOp k) xs = kv_del k xs"
| "command_writes C NoOp xs = xs"

fun kv_run :: "'v codec \<Rightarrow> (nat \<Rightarrow> 'v) \<Rightarrow> nat \<Rightarrow> 'v command list \<Rightarrow> string content \<Rightarrow> string content" where
  "kv_run C mk i [] xs = xs"
| "kv_run C mk i (c # cs) xs = kv_run C mk (Suc i) cs (kv_upd RAFT_APPLIED_KEY (enc C (mk i)) (command_writes C c xs))"

text \<open>Values that the codec takes, and commands about a key of the user.\<close>

definition codable :: "'v codec \<Rightarrow> 'v \<Rightarrow> bool" where
  "codable C v \<longleftrightarrow> encode C v = Inr (enc C v) \<and> decode C (enc C v) = Inr v"

fun good_command :: "'v codec \<Rightarrow> 'v command \<Rightarrow> bool" where
  "good_command C (SetOp k v) \<longleftrightarrow> k \<noteq> [] \<and> k \<noteq> RAFT_APPLIED_KEY \<and> codable C v"
| "good_command C (DelOp k) \<longleftrightarrow> k \<noteq> [] \<and> k \<noteq> RAFT_APPLIED_KEY"
| "good_command C NoOp \<longleftrightarrow> True"

lemma kv_run_snoc:
  "kv_run C mk i (cs @ [c]) xs = kv_upd RAFT_APPLIED_KEY (enc C (mk (i + length cs))) (command_writes C c (kv_run C mk i cs xs))"
  by (induction cs arbitrary: i xs) simp_all

lemma command_writes_sorted: "kv_sorted xs \<Longrightarrow> kv_sorted (command_writes C c xs)"
  by (cases c) (simp_all add: kv_sorted_upd kv_sorted_del)

lemma kv_run_sorted: "kv_sorted xs \<Longrightarrow> kv_sorted (kv_run C mk i cs xs)"
  by (induction cs arbitrary: i xs) (simp_all add: kv_sorted_upd command_writes_sorted)

lemma command_writes_length: "kv_sorted xs \<Longrightarrow> length (command_writes C c xs) \<le> Suc (length xs)"
  by (cases c) (auto simp: length_kv_upd length_kv_del)

lemma kv_run_length: "kv_sorted xs \<Longrightarrow> length (kv_run C mk i cs xs) \<le> length xs + 2 * length cs"
proof (induction cs arbitrary: i xs)
  case (Cons c cs)
  let ?new = "kv_upd RAFT_APPLIED_KEY (enc C (mk i)) (command_writes C c xs)"
  have s: "kv_sorted (command_writes C c xs)" by (rule command_writes_sorted [OF Cons.prems])
  have "length ?new \<le> length xs + 2"
    using command_writes_length [OF Cons.prems, of C c] length_kv_upd [OF s, of RAFT_APPLIED_KEY "enc C (mk i)"] by auto
  then show ?case using Cons.IH [OF kv_sorted_upd [OF s], of "Suc i" RAFT_APPLIED_KEY "enc C (mk i)"] by simp
qed simp

lemma kv_run_lookup:
  assumes "\<forall>c \<in> set cs. good_command C c" "kv_sorted xs" "map_of xs = Map.empty" "k \<noteq> RAFT_APPLIED_KEY"
  shows "map_of (kv_run C mk i cs xs) k = map_option (enc C) (foldl kv_step Map.empty cs k)"
  using assms(1)
proof (induction cs rule: rev_induct)
  case (snoc c cs)
  have s: "kv_sorted (kv_run C mk i cs xs)" by (rule kv_run_sorted [OF assms(2)])
  show ?case
    using snoc assms(4) by (cases c) (simp_all add: kv_run_snoc map_of_kv_upd map_of_kv_del [OF s])
qed (simp add: assms(3))

lemma kv_steps_codable:
  "\<forall>c \<in> set cs. good_command C c \<Longrightarrow> foldl kv_step Map.empty cs k = Some v \<Longrightarrow> codable C v"
proof (induction cs rule: rev_induct)
  case (snoc c cs)
  then show ?case by (cases c) (auto split: if_splits)
qed simp

lemma kv_run_index:
  "cs \<noteq> [] \<Longrightarrow> map_of (kv_run C mk 1 cs xs) RAFT_APPLIED_KEY = Some (enc C (mk (length cs)))"
  by (induction cs rule: rev_induct) (simp_all add: kv_run_snoc map_of_kv_upd)

section \<open>One entry\<close>

lemma applied_key [simp]: "RAFT_APPLIED_KEY \<noteq> []"
  by (simp add: RAFT_APPLIED_KEY_def)

lemma command_ok:
  assumes "db_rep P lim d xs ys" "good_command (db_codec d) c" "Suc (length ys) < 2 ^ lim"
  obtains d' where "(case c of SetOp k v \<Rightarrow> db_setitem P lim k v | DelOp k \<Rightarrow> catch_key_error (db_delitem P lim k) (ret ()) | NoOp \<Rightarrow> ret ()) d
      = (Inr (), d')" "db_rep P lim d' xs (command_writes (db_codec d) c ys)" "same_handle d d'"
    "disk (lstorage (tree d')) = disk (lstorage (tree d))"
proof (cases c)
  case (SetOp k v)
  have e: "encode (db_codec d) v = Inr (enc (db_codec d) v)" using SetOp assms(2) by (simp add: codable_def)
  have k: "k \<noteq> []" using SetOp assms(2) by simp
  obtain d' where "db_setitem P lim k v d = (Inr (), d')" "db_rep P lim d' xs (kv_upd k (enc (db_codec d) v) ys)" "same_handle d d'"
    "disk (lstorage (tree d')) = disk (lstorage (tree d))"
    by (rule db_setitem_ok [OF assms(1) k assms(3) e])
  then show thesis by (intro that [of d']) (simp_all add: SetOp)
next
  case (DelOp k)
  have k: "k \<noteq> []" using DelOp assms(2) by simp
  obtain d' where d': "on_tree (logical_delete (bplus_class P lim) k) d = (if k \<in> fst ` set ys then Inr () else Inl KeyError, d')"
    "db_rep P lim d' xs (kv_del k ys)" "same_handle d d'" "disk (lstorage (tree d')) = disk (lstorage (tree d))"
    by (rule tree_delete [OF assms(1)])
  then show thesis
    using k by (intro that [of d'])
      (simp_all add: DelOp catch_key_error_def db_delitem_def assert_open_ok [OF assms(1)] validate_key_def bindS_def act_defs)
next
  case NoOp
  then show thesis using assms(1) by (intro that [of d]) (simp_all add: act_defs)
qed

lemma kv_apply_ok:
  assumes "db_rep P lim d xs ys" "good_command (db_codec d) c" "length ys + 2 < 2 ^ lim" "codable (db_codec d) (mk i)"
    and new: "new = kv_upd RAFT_APPLIED_KEY (enc (db_codec d) (mk i)) (command_writes (db_codec d) c ys)"
  obtains (ok) d' where "kv_apply P lim mk i c d = (Inr (), d')" "db_rep P lim d' new new" "same_handle d d'"
      "crash_at_flush (disk (lstorage (tree d'))) = crash_at_flush (disk (lstorage (tree d)))"
  | (fails) e d' t where "kv_apply P lim mk i c d = (Inl e, d')" "e = StructError \<or> e = SimCrash"
      "bp_open DEFAULT_ORDER (file_seen d') = (Inr (), t)" "bp_rep P DEFAULT_ORDER lim t xs xs" "\<not> closed (disk (lstorage t))"
proof -
  have n: "Suc (length ys) < 2 ^ lim" using assms(3) by simp
  obtain d1 where d1: "(case c of SetOp k v \<Rightarrow> db_setitem P lim k v | DelOp k \<Rightarrow> catch_key_error (db_delitem P lim k) (ret ()) | NoOp \<Rightarrow> ret ()) d
      = (Inr (), d1)" "db_rep P lim d1 xs (command_writes (db_codec d) c ys)" "same_handle d d1"
    "disk (lstorage (tree d1)) = disk (lstorage (tree d))"
    by (rule command_ok [OF assms(1,2) n])
  have n1: "Suc (length (command_writes (db_codec d) c ys)) < 2 ^ lim"
    using command_writes_length [OF db_repD(5) [OF assms(1)], of "db_codec d" c] assms(3) by simp
  have e: "encode (db_codec d1) (mk i) = Inr (enc (db_codec d) (mk i))"
    using assms(4) d1(3) by (simp add: codable_def same_handle_def)
  obtain d2 where d2: "db_setitem P lim RAFT_APPLIED_KEY (mk i) d1 = (Inr (), d2)" "db_rep P lim d2 xs new" "same_handle d1 d2"
    "disk (lstorage (tree d2)) = disk (lstorage (tree d1))"
    by (rule db_setitem_ok [OF d1(2) applied_key n1 e]) (simp add: new)
  have eq: "kv_apply P lim mk i c d = on_tree (bp_commit P) d2"
    using d1(1) d2(1) by (simp add: kv_apply_def bindS_def db_commit_def assert_open_ok [OF d2(2)])
  have s: "same_handle d d2" by (rule same_handle_trans [OF d1(3) d2(3)])
  show thesis
    using d2(2)
  proof (cases rule: tree_commit)
    case (ok d')
    then show thesis using eq same_handle_trans [OF s] d1(4) d2(4) by (intro that(1) [of d']) simp_all
  next
    case (fails e d' t)
    then show thesis using eq by (intro that(2) [of e d' t]) simp_all
  qed
qed

section \<open>Runs\<close>

lemma kv_apply_all_ok:
  assumes "db_rep P lim d xs xs" "\<forall>c \<in> set cs. good_command (db_codec d) c" "length xs + 2 * length cs < 2 ^ lim" "\<forall>n. codable (db_codec d) (mk n)"
    and "kv_apply_all P lim mk i cs d = (r, d')"
  shows "\<exists>m t. m \<le> length cs \<and> bp_open DEFAULT_ORDER (file_seen d') = (Inr (), t) \<and> \<not> closed (disk (lstorage t))
      \<and> bp_rep P DEFAULT_ORDER lim t (kv_run (db_codec d) mk i (take m cs) xs) (kv_run (db_codec d) mk i (take m cs) xs)
      \<and> (r = Inr () \<longrightarrow> m = length cs \<and> db_rep P lim d' (kv_run (db_codec d) mk i cs xs) (kv_run (db_codec d) mk i cs xs) \<and> same_handle d d')"
  using assms
proof (induction cs arbitrary: d xs i)
  case Nil
  show ?case
    by (rule bp_rep_reopen [OF db_repD(2) [OF Nil.prems(1)]]) (use Nil.prems in \<open>auto simp: file_seen_def act_defs\<close>)
next
  case (Cons c cs)
  let ?new = "kv_upd RAFT_APPLIED_KEY (enc (db_codec d) (mk i)) (command_writes (db_codec d) c xs)"
  have c: "good_command (db_codec d) c" "length xs + 2 < 2 ^ lim" and i: "codable (db_codec d) (mk i)"
    using Cons.prems(2-4) by simp_all
  have b: "length ?new + 2 * length cs < 2 ^ lim"
    using Cons.prems(3) command_writes_length [OF db_repD(4) [OF Cons.prems(1)], of "db_codec d" c]
      length_kv_upd [OF command_writes_sorted [OF db_repD(4) [OF Cons.prems(1)]], of RAFT_APPLIED_KEY _ "db_codec d" c]
    by (simp split: if_splits)
  show ?case
    using Cons.prems(1) c i refl
  proof (cases rule: kv_apply_ok [where new = ?new and mk = mk and i = i])
    case (ok d1)
    have C: "db_codec d1 = db_codec d" using ok(3) by (simp add: same_handle_def)
    have "kv_apply_all P lim mk (Suc i) cs d1 = (r, d')" using Cons.prems(5) ok(1) by (simp add: bindS_def)
    from Cons.IH [OF ok(2) _ b _ this] obtain m t where "m \<le> length cs" "bp_open DEFAULT_ORDER (file_seen d') = (Inr (), t)"
      "\<not> closed (disk (lstorage t))"
      "bp_rep P DEFAULT_ORDER lim t (kv_run (db_codec d) mk (Suc i) (take m cs) ?new) (kv_run (db_codec d) mk (Suc i) (take m cs) ?new)"
      "r = Inr () \<longrightarrow> m = length cs \<and> db_rep P lim d' (kv_run (db_codec d) mk (Suc i) cs ?new) (kv_run (db_codec d) mk (Suc i) cs ?new) \<and> same_handle d1 d'"
      using Cons.prems(2,4) C by auto
    then show ?thesis using same_handle_trans [OF ok(3)] by (intro exI [of _ "Suc m"] exI [of _ t]) auto
  next
    case (fails e d1 t)
    then have "r = Inl e" "d' = d1" using Cons.prems(5) by (simp_all add: bindS_def)
    then show ?thesis using fails by (intro exI [of _ 0] exI [of _ t]) simp
  qed
qed

lemma kv_reads:
  assumes "db_rep P lim e (kv_run C mk 1 cs []) (kv_run C mk 1 cs [])" "db_codec e = C" "\<forall>n. codable C (mk n)"
    and "\<forall>c \<in> set cs. good_command C c" "\<forall>n. as_int (mk n) = Inr n"
  shows "fst (kv_applied_index P lim as_int e) = Inr (length cs)"
    "k \<noteq> [] \<Longrightarrow> k \<noteq> RAFT_APPLIED_KEY \<Longrightarrow> fst (db_get P lim k e) = Inr (foldl kv_step Map.empty cs k)"
proof -
  have dec: "decode C (enc C (mk n)) = Inr (mk n)" for n using assms(3) by (simp add: codable_def)
  show "fst (kv_applied_index P lim as_int e) = Inr (length cs)"
    by (rule db_getitem_ok [OF assms(1) applied_key])
      (use assms(2,5) dec kv_run_index [of cs C mk "[]"] in
        \<open>cases "cs = []", simp_all add: kv_applied_index_def catch_key_error_def bindS_def act_defs\<close>)
  show "fst (db_get P lim k e) = Inr (foldl kv_step Map.empty cs k)" if k: "k \<noteq> []" "k \<noteq> RAFT_APPLIED_KEY"
  proof -
    have l: "map_of (kv_run C mk 1 cs []) k = map_option (enc C) (foldl kv_step Map.empty cs k)"
      by (rule kv_run_lookup [OF assms(4) _ _ k(2)]) simp_all
    have dec: "decode C (enc C v) = Inr v" if "foldl kv_step Map.empty cs k = Some v" for v
      using kv_steps_codable [OF assms(4) that] by (simp add: codable_def)
    show ?thesis
      by (rule db_getitem_ok [OF assms(1) k(1)])
        (use assms(2) dec l in \<open>cases "foldl kv_step Map.empty cs k", simp_all add: db_get_def catch_key_error_def bindS_def act_defs\<close>)
  qed
qed

lemma kv_run_append: "kv_run C mk i (cs @ cs') xs = kv_run C mk (i + length cs) cs' (kv_run C mk i cs xs)"
  by (induction cs arbitrary: i xs) simp_all

text \<open>A database on a disk that will lose power at the \<open>n\<close>th flush from now.\<close>

definition armed :: "nat \<Rightarrow> 'v dbdb \<Rightarrow> 'v dbdb" where
  "armed n d = d\<lparr>tree := (tree d)\<lparr>lstorage := (lstorage (tree d))\<lparr>disk := arm_crash n (disk (lstorage (tree d)))\<rparr>\<rparr>\<rparr>"

lemma db_rep_armed: "db_rep P lim d xs ys \<Longrightarrow> db_rep P lim (armed n d) xs ys"
proof -
  assume d: "db_rep P lim d xs ys"
  let ?t = "(tree d)\<lparr>lstorage := (lstorage (tree d))\<lparr>disk := arm_crash n (disk (lstorage (tree d)))\<rparr>\<rparr>"
  obtain m where m: "bp_inv P (tree d) m xs ys" using db_repD(2) [OF d] by (auto simp: bp_rep_def)
  have "bp_inv P ?t m xs ys"
    using m by (auto simp: bp_inv_def storage_inv_def read_best_meta_file arm_crash_def extends_def intro: tree_rep_extends [rotated])
  then show ?thesis using d by (auto simp: armed_def db_rep_def bp_rep_def is_closed_def arm_crash_def)
qed

lemma armed_simps [simp]: "db_codec (armed n d) = db_codec d" "db_path (armed n d) = db_path d"
  by (simp_all add: armed_def)

text \<open>
  C6. Exactly once, across failures. While the entries of a log are applied to a new database the
  disk may fail at any flush. Whatever happened, the database opens again on the bytes
  that survived; the applied index it then reports is the number of entries whose effects it
  has, no more and no fewer, all of them when none failed; and a node that goes on from
  there, applying the entries after that index, ends with the effect of every entry exactly once.
\<close>

theorem kv_exactly_once:
  assumes "pickle_ok P" "0 < lim" "length f < SUPERBLOCK_SIZE" "DBDB f hp C DURABILITY_FULL = (Inr (), d)"
    and "\<forall>n. codable C (mk n) \<and> as_int (mk n) = Inr n" "\<forall>c \<in> set cs. good_command C c" "4 * length cs < 2 ^ lim"
    and "kv_apply_all P lim mk 1 cs (armed n d) = (r, d')"
  shows "\<exists>m e. m \<le> length cs \<and> (r = Inr () \<longrightarrow> m = length cs) \<and> DBDB (file_seen d') hp C DURABILITY_FULL = (Inr (), e)
    \<and> fst (kv_applied_index P lim as_int e) = Inr m
    \<and> (\<forall>k. k \<noteq> [] \<and> k \<noteq> RAFT_APPLIED_KEY \<longrightarrow> fst (db_get P lim k e) = Inr (foldl kv_step Map.empty (take m cs) k))
    \<and> (\<forall>e'. kv_apply_all P lim mk (Suc m) (drop m cs) e = (Inr (), e')
         \<longrightarrow> (\<forall>k. k \<noteq> [] \<and> k \<noteq> RAFT_APPLIED_KEY \<longrightarrow> fst (db_get P lim k e') = Inr (foldl kv_step Map.empty cs k)))"
proof -
  note d = DBDB_fresh [OF assms(1,3,2,4)]
  have b: "length ([] :: string content) + 2 * length cs < 2 ^ lim" using assms(7) by simp
  have mk: "\<forall>n. codable C (mk n)" "\<forall>n. as_int (mk n) = Inr n" using assms(5) by simp_all
  have C: "db_codec (armed n d) = C" "\<forall>i. codable (db_codec (armed n d)) (mk i)" "\<forall>c \<in> set cs. good_command (db_codec (armed n d)) c"
    using d(4) mk(1) assms(6) by simp_all
  obtain m t where m: "m \<le> length cs" "bp_open DEFAULT_ORDER (file_seen d') = (Inr (), t)" "\<not> closed (disk (lstorage t))"
    "bp_rep P DEFAULT_ORDER lim t (kv_run C mk 1 (take m cs) []) (kv_run C mk 1 (take m cs) [])" "r = Inr () \<longrightarrow> m = length cs"
    using kv_apply_all_ok [OF db_rep_armed [OF d(2)] C(3) b C(2) assms(8)] C(1) by auto
  let ?e = "\<lparr>db_path = hp, db_codec = C, tree = t, open_snapshots = 0\<rparr>"
  have e: "DBDB (file_seen d') hp C DURABILITY_FULL = (Inr (), ?e)" "db_rep P lim ?e (kv_run C mk 1 (take m cs) []) (kv_run C mk 1 (take m cs) [])"
    using m assms(1) by (simp_all add: DBDB_open db_rep_def is_closed_def)
  have good: "\<forall>c \<in> set (take m cs). good_command C c" "\<forall>c \<in> set (drop m cs). good_command (db_codec ?e) c"
    using assms(6) by (auto dest: in_set_takeD in_set_dropD)
  have C': "db_codec ?e = C" "\<forall>n. codable (db_codec ?e) (mk n)" using mk(1) by simp_all
  note reads = kv_reads [OF e(2) C'(1) mk(1) good(1) mk(2)]
  have again: "fst (db_get P lim k e') = Inr (foldl kv_step Map.empty cs k)"
    if run: "kv_apply_all P lim mk (Suc m) (drop m cs) ?e = (Inr (), e')" and k: "k \<noteq> []" "k \<noteq> RAFT_APPLIED_KEY" for e' k
  proof -
    have "length (kv_run C mk 1 (take m cs) []) + 2 * length (drop m cs) < 2 ^ lim"
      using kv_run_length [of "[]" C mk 1 "take m cs"] m(1) assms(7) by simp
    from kv_apply_all_ok [OF e(2) good(2) this C'(2) run]
    have "db_rep P lim e' (kv_run C mk (Suc m) (drop m cs) (kv_run C mk 1 (take m cs) []))
        (kv_run C mk (Suc m) (drop m cs) (kv_run C mk 1 (take m cs) []))" "db_codec e' = C"
      by (auto simp: same_handle_def)
    moreover have "kv_run C mk (Suc m) (drop m cs) (kv_run C mk 1 (take m cs) []) = kv_run C mk 1 cs []"
      using kv_run_append [of C mk 1 "take m cs" "drop m cs" "[]"] m(1) by simp
    ultimately show ?thesis using kv_reads(2) [OF _ _ mk(1) assms(6) mk(2) k] by simp
  qed
  show ?thesis using m(1,5) e(1) reads again by (intro exI [of _ m] exI [of _ ?e]) simp
qed

fun value_index :: "py_value \<Rightarrow> nat result" where
  "value_index (PyBytes b) = Inr (length b)"
| "value_index (PyOther n) = Inl TypeError"

theorem kv_exactly_once_witness:
  "\<exists>d r d'. DBDB [] False BytesCodec DURABILITY_FULL = (Inr (), d)
    \<and> kv_apply_all string_pickle 4 (\<lambda>n. PyBytes (replicate n 0)) 1 [SetOp ''a'' (PyBytes [1]), DelOp ''a''] (armed 3 d) = (r, d')
    \<and> (\<exists>m e. m \<le> 2 \<and> DBDB (file_seen d') False BytesCodec DURABILITY_FULL = (Inr (), e)
         \<and> fst (kv_applied_index string_pickle 4 value_index e) = Inr m)"
proof -
  let ?mk = "\<lambda>n. PyBytes (replicate n 0)" and ?cs = "[SetOp ''a'' (PyBytes [1]), DelOp ''a'']"
  obtain x d where x: "DBDB [] False BytesCodec DURABILITY_FULL = (x, d)" by fastforce
  then have d: "DBDB [] False BytesCodec DURABILITY_FULL = (Inr (), d)"
    using DBDB_fresh(1) [OF string_pickle_ok no_file _ x, of 4] by simp
  obtain r d' where r: "kv_apply_all string_pickle 4 ?mk 1 ?cs (armed 3 d) = (r, d')" by fastforce
  have h: "0 < (4::nat)" "\<forall>n. codable BytesCodec (?mk n) \<and> value_index (?mk n) = Inr n" "\<forall>c \<in> set ?cs. good_command BytesCodec c"
    "4 * length ?cs < 2 ^ 4"
    by (simp_all add: codable_def enc_def BytesCodec_def RAFT_APPLIED_KEY_def)
  show ?thesis using kv_exactly_once [OF string_pickle_ok h(1) no_file d h(2-4) r] d r by auto
qed

end
