(* ===== verification/RaftWire.thy ===== *)
theory RaftWire
  imports RaftProperties Resp KVMachine
begin

text \<open>
  \<open>raft/wire.py\<close> and \<open>raft/server.py\<close>: the messages of the nodes as JSON, the frames around them,
  and the server that hands what arrives to its node. Node ids are numbers. The JSON text is
  a parameter, with \<open>json_ok\<close> as what the code relies on. A message whose fields do not have the
  types of its class, or that has a command other than those of the state machine, which
  Python would pass on to the node, is an error here. An object with the same key twice stands for no
  dictionary. Time is not modelled: \<open>submit\<close> gives up after three seconds and \<open>_send\<close> after half a
  second, and here only the waiting that ends is described.
\<close>

section \<open>JSON\<close>

datatype json = JNull | JBool bool | JInt int | JStr string | JList "json list" | JObj "(string \<times> json) list"

record json_text =
  json_dumps :: "json \<Rightarrow> bytes"
  json_loads :: "bytes \<Rightarrow> json result"

definition json_ok :: "json_text \<Rightarrow> bool" where
  "json_ok J \<longleftrightarrow> (\<forall>j. json_loads J (json_dumps J j) = Inr j)"

fun jget :: "string \<Rightarrow> json \<Rightarrow> json result" where
  "jget k (JObj kvs) = (case map_of kvs k of None \<Rightarrow> Inl KeyError | Some j \<Rightarrow> Inr j)"
| "jget k _ = Inl TypeError"

fun jint :: "json \<Rightarrow> int result" where
  "jint (JInt n) = Inr n"
| "jint _ = Inl TypeError"

definition jnat :: "json \<Rightarrow> nat result" where
  "jnat j = bindR (jint j) (\<lambda>n. if n < 0 then Inl TypeError else Inr (nat n))"

fun jbool :: "json \<Rightarrow> bool result" where
  "jbool (JBool b) = Inr b"
| "jbool _ = Inl TypeError"

fun jstr :: "json \<Rightarrow> string result" where
  "jstr (JStr s) = Inr s"
| "jstr _ = Inl TypeError"

fun jlist :: "json \<Rightarrow> json list result" where
  "jlist (JList js) = Inr js"
| "jlist _ = Inl TypeError"

section \<open>Messages\<close>

text \<open>The dictionaries that are the commands.\<close>

fun command_json :: "json command \<Rightarrow> json" where
  "command_json (SetOp k v) = JObj [(''op'', JStr ''set''), (''key'', JStr k), (''value'', v)]"
| "command_json (DelOp k) = JObj [(''op'', JStr ''del''), (''key'', JStr k)]"
| "command_json NoOp = JObj [(''op'', JStr ''noop'')]"

definition json_command :: "json \<Rightarrow> json command result" where
  "json_command j =
     bindR (jget ''op'' j) (\<lambda>t. bindR (jstr t) (\<lambda>op.
       if op = ''set'' then bindR (jget ''key'' j) (\<lambda>k. bindR (jstr k) (\<lambda>k. bindR (jget ''value'' j) (\<lambda>v. Inr (SetOp k v))))
       else if op = ''del'' then bindR (jget ''key'' j) (\<lambda>k. bindR (jstr k) (\<lambda>k. Inr (DelOp k)))
       else if op = ''noop'' then Inr NoOp
       else Inl TypeError))"

fun body_to_dict :: "(nat, json) body \<Rightarrow> json" where
  "body_to_dict (RequestVote t c li lt) =
     JObj [(''term'', JInt (int t)), (''candidate_id'', JInt (int c)), (''last_log_index'', JInt (int li)), (''last_log_term'', JInt (int lt))]"
| "body_to_dict (RequestVoteReply t g) = JObj [(''term'', JInt (int t)), (''vote_granted'', JBool g)]"
| "body_to_dict (AppendEntries t l pi pt es lc) =
     JObj [(''term'', JInt (int t)), (''leader_id'', JInt (int l)), (''prev_log_index'', JInt (int pi)), (''prev_log_term'', JInt pt),
       (''entries'', JList (map (\<lambda>e. JList [JInt (int (eterm e)), command_json (ecommand e)]) es)), (''leader_commit'', JInt (int lc))]"
| "body_to_dict (AppendEntriesReply t okay m) = JObj [(''term'', JInt (int t)), (''success'', JBool okay), (''match_index'', JInt (int m))]"

fun body_kind :: "(nat, json) body \<Rightarrow> string" where
  "body_kind (RequestVote t c li lt) = ''RequestVote''"
| "body_kind (RequestVoteReply t g) = ''RequestVoteReply''"
| "body_kind (AppendEntries t l pi pt es lc) = ''AppendEntries''"
| "body_kind (AppendEntriesReply t okay m) = ''AppendEntriesReply''"

definition entry_of :: "json \<Rightarrow> json log_entry result" where
  "entry_of j = bindR (jlist j) (\<lambda>js.
     case js of
       [t, c] \<Rightarrow> bindR (jnat t) (\<lambda>t. bindR (json_command c) (\<lambda>c. Inr (LogEntry t c)))
     | _ \<Rightarrow> Inl ValueError)"

definition field :: "(json \<Rightarrow> 'a result) \<Rightarrow> string \<Rightarrow> json \<Rightarrow> 'a result" where
  "field f k d = bindR (jget k d) f"

definition dict_to_body :: "string \<Rightarrow> json \<Rightarrow> (nat, json) body result" where
  "dict_to_body kind d =
     (if kind = ''RequestVote'' then
        bindR (field jnat ''term'' d) (\<lambda>t. bindR (field jnat ''candidate_id'' d) (\<lambda>c.
        bindR (field jnat ''last_log_index'' d) (\<lambda>li. bindR (field jnat ''last_log_term'' d) (\<lambda>lt. Inr (RequestVote t c li lt)))))
      else if kind = ''RequestVoteReply'' then
        bindR (field jnat ''term'' d) (\<lambda>t. bindR (field jbool ''vote_granted'' d) (\<lambda>g. Inr (RequestVoteReply t g)))
      else if kind = ''AppendEntries'' then
        bindR (field (\<lambda>j. bindR (jlist j) (mapR entry_of)) ''entries'' d) (\<lambda>es.
        bindR (field jnat ''term'' d) (\<lambda>t. bindR (field jnat ''leader_id'' d) (\<lambda>l.
        bindR (field jnat ''prev_log_index'' d) (\<lambda>pi. bindR (field jint ''prev_log_term'' d) (\<lambda>pt.
        bindR (field jnat ''leader_commit'' d) (\<lambda>lc. Inr (AppendEntries t l pi pt es lc)))))))
      else if kind = ''AppendEntriesReply'' then
        bindR (field jnat ''term'' d) (\<lambda>t. bindR (field jbool ''success'' d) (\<lambda>okay.
        bindR (field jnat ''match_index'' d) (\<lambda>m. Inr (AppendEntriesReply t okay m))))
      else Inl TypeError)"

definition wire_encode :: "json_text \<Rightarrow> (nat, json) envelope \<Rightarrow> bytes" where
  "wire_encode J e =
     json_dumps J (JObj [(''src'', JInt (int (src e))), (''dst'', JInt (int (dst e))),
       (''kind'', JStr (body_kind (ebody e))), (''body'', body_to_dict (ebody e))])"

definition wire_decode :: "json_text \<Rightarrow> bytes \<Rightarrow> (nat, json) envelope result" where
  "wire_decode J raw =
     bindR (json_loads J raw) (\<lambda>data.
     bindR (field jnat ''src'' data) (\<lambda>s.
     bindR (field jnat ''dst'' data) (\<lambda>d.
     bindR (field jstr ''kind'' data) (\<lambda>kind.
     bindR (jget ''body'' data) (\<lambda>b.
     bindR (dict_to_body kind b) (\<lambda>body. Inr (Envelope s d body)))))))"

lemma json_command_json: "json_command (command_json c) = Inr c"
  by (cases c) (simp_all add: json_command_def)

lemma jnat_int [simp]: "jnat (JInt (int n)) = Inr n"
  by (simp add: jnat_def)

lemma entries_roundtrip: "mapR entry_of (map (\<lambda>e. JList [JInt (int (eterm e)), command_json (ecommand e)]) es) = Inr es"
  by (induction es) (simp_all add: entry_of_def json_command_json)

lemma body_roundtrip: "dict_to_body (body_kind b) (body_to_dict b) = Inr b"
  by (cases b) (simp_all add: dict_to_body_def field_def entries_roundtrip)

lemma wire_decode_encode: "json_ok J \<Longrightarrow> wire_decode J (wire_encode J e) = Inr e"
  by (cases e) (simp add: wire_decode_def wire_encode_def json_ok_def field_def body_roundtrip)

section \<open>Frames\<close>

definition frame :: "bytes \<Rightarrow> bytes result" where
  "frame data = bindR (pack_uint 4 (int (length data))) (\<lambda>h. Inr (h @ data))"

definition read_frame :: "(bytes, bytes option) act" where
  "read_frame = at_eof (bindS (readexactly 4) (\<lambda>h. readexactly (int (be_nat h))))"

lemma read_frame_frame: "frame data = Inr bs \<Longrightarrow> read_frame (bs @ r) = (Inr (Some data), r)"
proof -
  assume "frame data = Inr bs"
  then obtain h where h: "pack_uint 4 (int (length data)) = Inr h" "bs = h @ data" by (auto simp: frame_def bindR_eq_Inr)
  have "length h = 4" by (rule pack_uint_length [OF h(1)])
  then have "readexactly 4 (bs @ r) = (Inr h, data @ r)" using h(2) readexactly_app [of h "data @ r"] by simp
  moreover have "readexactly (int (be_nat h)) (data @ r) = (Inr data, r)"
    using pack_uint_roundtrip [OF h(1)] readexactly_app [of data r] by simp
  ultimately show ?thesis by (simp add: read_frame_def at_eof_def bindS_def)
qed

section \<open>The server\<close>

text \<open>\<open>_handle\<close>: the frame that arrives on a connection, handed to the node; the second component is what is then sent. Errors are ignored.\<close>

definition raft_handle ::
  "(json, 'm, 'g) raft_env \<Rightarrow> json_text \<Rightarrow> bytes \<Rightarrow> (nat, json, 'm, 'g) raft_node \<Rightarrow> (nat, json, 'm, 'g) raft_node \<times> (nat, json) envelope list" where
  "raft_handle E J stream s =
     (case fst (read_frame stream) of
        Inr (Some raw) \<Rightarrow>
          (case wire_decode J raw of
             Inl e \<Rightarrow> (s, [])
           | Inr env \<Rightarrow> (case node_step E env s of (Inr out, s') \<Rightarrow> (s', out) | (Inl e, s') \<Rightarrow> (s', [])))
      | _ \<Rightarrow> (s, []))"

text \<open>\<open>_send\<close>: where the frame goes; nowhere when the destination is no peer.\<close>

definition raft_send :: "json_text \<Rightarrow> (nat \<rightharpoonup> 'a) \<Rightarrow> (nat, json) envelope \<Rightarrow> ('a \<times> bytes) option result" where
  "raft_send J addresses env =
     (case addresses (dst env) of
        None \<Rightarrow> Inr None
      | Some address \<Rightarrow> bindR (frame (wire_encode J env)) (\<lambda>bs. Inr (Some (address, bs))))"

text \<open>\<open>submit\<close>: the index it waits for and what is sent; it returns the index as soon as \<open>submit_done\<close>.\<close>

definition submit :: "('v, 'm, 'g) raft_env \<Rightarrow> 'v command \<Rightarrow> (('i, 'v, 'm, 'g) raft_node, nat \<times> ('i, 'v) envelope list) act" where
  "submit E cmd =
     bindS (gets is_leader) (\<lambda>l. if \<not> l then raise NotLeaderError else propose E cmd)"

definition submit_done :: "nat \<Rightarrow> ('i, 'v, 'm, 'g) raft_node \<Rightarrow> bool" where
  "submit_done index s \<longleftrightarrow> index \<le> last_applied s"

section \<open>Starting on a database\<close>

text \<open>The state machine of the node of a server is its database.\<close>

definition kv_env :: "string pickle \<Rightarrow> nat \<Rightarrow> (nat \<Rightarrow> 'v) \<Rightarrow> (nat \<Rightarrow> nat \<Rightarrow> 'g \<Rightarrow> nat \<times> 'g) \<Rightarrow> ('v, 'v dbdb, 'g) raft_env" where
  "kv_env P lim mk rnd = \<lparr>randint = rnd, apply_fn = kv_apply P lim mk\<rparr>"

definition raft_server_start ::
  "string pickle \<Rightarrow> nat \<Rightarrow> (nat \<Rightarrow> 'v) \<Rightarrow> ('v \<Rightarrow> nat result) \<Rightarrow> (nat \<Rightarrow> nat \<Rightarrow> 'g \<Rightarrow> nat \<times> 'g)
     \<Rightarrow> 'i \<Rightarrow> 'i list \<Rightarrow> ('i, 'v) raft_log \<Rightarrow> 'g \<Rightarrow> raft_config \<Rightarrow> ('v dbdb, ('i, 'v, 'v dbdb, 'g) raft_node) act" where
  "raft_server_start P lim mk as_int rnd i ps l g cfg =
     bindS (kv_applied_index P lim as_int) (\<lambda>n.
       gets (\<lambda>db. RaftNode (kv_env P lim mk rnd) i ps db l g cfg n))"

definition raft_read :: "string pickle \<Rightarrow> nat \<Rightarrow> string \<Rightarrow> ('v dbdb, 'v option) act" where
  "raft_read P lim key = catch_key_error (bindS (db_getitem P lim key) (\<lambda>v. ret (Some v))) (ret None)"

section \<open>A text of JSON\<close>

text \<open>A format that satisfies \<open>json_ok\<close>, at which the witness is taken: a tag, the length in ones and a zero, the content.\<close>

definition put_str :: "string \<Rightarrow> bytes" where
  "put_str s = put_nats [length s] @ map (\<lambda>c. word_of_nat (of_char c)) s"

fun json_bytes :: "json \<Rightarrow> bytes" where
  "json_bytes JNull = [0]"
| "json_bytes (JBool b) = [1, if b then 1 else 0]"
| "json_bytes (JInt n) = (if n < 0 then 2 else 3) # put_nats [nat \<bar>n\<bar>]"
| "json_bytes (JStr s) = 4 # put_str s"
| "json_bytes (JList js) = 5 # put_nats [length js] @ concat (map json_bytes js)"
| "json_bytes (JObj kvs) = 6 # put_nats [length kvs] @ concat (map (\<lambda>(k, j). put_str k @ json_bytes j) kvs)"

fun get_one :: "nat \<Rightarrow> bytes \<Rightarrow> (nat \<times> bytes) option" where
  "get_one n [] = None"
| "get_one n (b # bs) = (if b = 0 then Some (n, bs) else get_one (Suc n) bs)"

definition get_str :: "bytes \<Rightarrow> (string \<times> bytes) option" where
  "get_str bs = map_option (\<lambda>(n, r). (map (\<lambda>b. char_of (unat b)) (take n r), drop n r)) (get_one 0 bs)"

fun many :: "(bytes \<Rightarrow> ('a \<times> bytes) option) \<Rightarrow> nat \<Rightarrow> bytes \<Rightarrow> ('a list \<times> bytes) option" where
  "many f 0 bs = Some ([], bs)"
| "many f (Suc n) bs = Option.bind (f bs) (\<lambda>(x, r). map_option (\<lambda>(xs, r). (x # xs, r)) (many f n r))"

definition get_pair :: "(bytes \<Rightarrow> (json \<times> bytes) option) \<Rightarrow> bytes \<Rightarrow> ((string \<times> json) \<times> bytes) option" where
  "get_pair f bs = Option.bind (get_str bs) (\<lambda>(k, r). map_option (\<lambda>(j, r). ((k, j), r)) (f r))"

fun json_parse :: "nat \<Rightarrow> bytes \<Rightarrow> (json \<times> bytes) option" where
  "json_parse (Suc fuel) (t # bs) =
     (if t = 0 then Some (JNull, bs)
      else if t = 1 then (case bs of [] \<Rightarrow> None | b # r \<Rightarrow> Some (JBool (b = 1), r))
      else if t = 2 then map_option (\<lambda>(n, r). (JInt (- int n), r)) (get_one 0 bs)
      else if t = 3 then map_option (\<lambda>(n, r). (JInt (int n), r)) (get_one 0 bs)
      else if t = 4 then map_option (\<lambda>(s, r). (JStr s, r)) (get_str bs)
      else Option.bind (get_one 0 bs) (\<lambda>(n, r).
        if t = 5 then map_option (\<lambda>(js, r). (JList js, r)) (many (json_parse fuel) n r)
        else map_option (\<lambda>(kvs, r). (JObj kvs, r)) (many (get_pair (json_parse fuel)) n r)))"
| "json_parse _ _ = None"

definition unary_json :: json_text where
  "unary_json = \<lparr>json_dumps = json_bytes,
     json_loads = (\<lambda>bs. case json_parse (length bs) bs of Some (j, []) \<Rightarrow> Inr j | _ \<Rightarrow> Inl ValueError)\<rparr>"

lemma get_one_put: "get_one k (put_nats [n] @ r) = Some (k + n, r)"
  by (induction n arbitrary: k) auto

lemma get_str_put: "get_str (put_str s @ r) = Some (s, r)"
proof -
  have "char_of (unat (word_of_nat (of_char c) :: byte)) = c" for c :: char
    by (simp add: unsigned_of_nat take_bit_eq_mod)
  then show ?thesis
    using get_one_put [of 0 "length s" "map (\<lambda>c. word_of_nat (of_char c)) s @ r"]
    by (simp add: get_str_def put_str_def comp_def)
qed

lemma many_put:
  "(\<And>x r. x \<in> set xs \<Longrightarrow> f (g x @ r) = Some (x, r)) \<Longrightarrow> many f (length xs) (concat (map g xs) @ r) = Some (xs, r)"
  by (induction xs) simp_all

lemma length_concat_le: "x \<in> set xs \<Longrightarrow> length (g x) \<le> length (concat (map g xs))"
  by (induction xs) auto

lemma json_parse_bytes: "length (json_bytes j) \<le> n \<Longrightarrow> json_parse n (json_bytes j @ r) = Some (j, r)"
proof (induction j arbitrary: n r)
  case (JList js)
  then obtain m where n: "n = Suc m" by (cases n) auto
  have "json_parse m (json_bytes j @ r) = Some (j, r)" if "j \<in> set js" for j r
    using JList.IH [OF that, of m] JList.prems n length_concat_le [OF that, of json_bytes] by simp
  then have "many (json_parse m) (length js) (concat (map json_bytes js) @ r) = Some (js, r)" by (rule many_put)
  then show ?case using get_one_put [of 0 "length js" "concat (map json_bytes js) @ r"] by (simp add: n)
next
  case (JObj kvs)
  then obtain m where n: "n = Suc m" by (cases n) auto
  let ?g = "\<lambda>(k, j). put_str k @ json_bytes j"
  have "get_pair (json_parse m) (?g kv @ r) = Some (kv, r)" if kv: "kv \<in> set kvs" for kv r
  proof -
    have "json_parse m (json_bytes (snd kv) @ r) = Some (snd kv, r)"
      using JObj.IH [OF kv, of "snd kv" m] JObj.prems n length_concat_le [OF kv, of ?g]
      by (cases kv) simp
    then show ?thesis by (cases kv) (simp add: get_pair_def get_str_put)
  qed
  then have "many (get_pair (json_parse m)) (length kvs) (concat (map ?g kvs) @ r) = Some (kvs, r)" by (rule many_put)
  then show ?case using get_one_put [of 0 "length kvs" "concat (map ?g kvs) @ r"] by (simp add: n)
next
  case (JInt i)
  then obtain m where "n = Suc m" by (cases n) auto
  then show ?case using get_one_put [of 0 "nat \<bar>i\<bar>" r] by (cases "i < 0") simp_all
next
  case (JStr s)
  then obtain m where "n = Suc m" by (cases n) auto
  then show ?case using get_str_put [of s r] by simp
next
  case JNull
  then show ?case by (cases n) auto
next
  case (JBool b)
  then show ?case by (cases n) auto
qed

lemma unary_json_ok: "json_ok unary_json"
  using json_parse_bytes [of _ _ "[]"] by (simp add: json_ok_def unary_json_def)

section \<open>Properties\<close>

lemma readexactly_short: "int (length bs) < n \<Longrightarrow> readexactly n bs = (Inl IncompleteReadError, [])"
  by (simp add: readexactly_def)

lemma read_frame_short:
  assumes "frame data = Inr bs" "n < length bs"
  shows "fst (read_frame (take n bs)) = Inr None"
proof -
  from assms(1) obtain h where h: "pack_uint 4 (int (length data)) = Inr h" "bs = h @ data" by (auto simp: frame_def bindR_eq_Inr)
  have len: "length h = 4" by (rule pack_uint_length [OF h(1)])
  show ?thesis
  proof (cases "n < 4")
    case True
    then show ?thesis by (simp add: read_frame_def at_eof_def bindS_def readexactly_short)
  next
    case False
    then have "readexactly 4 (take n bs) = (Inr h, take (n - 4) data)"
      using h(2) len readexactly_app [of h "take (n - 4) data"] by simp
    moreover have "length (take (n - 4) data) < be_nat h"
      using pack_uint_roundtrip [OF h(1)] assms(2) h(2) len False by simp
    ultimately show ?thesis by (simp add: read_frame_def at_eof_def bindS_def readexactly_short)
  qed
qed

text \<open>
  C13. A message between servers does what the message between nodes does: what \<open>_send\<close> writes
  for an envelope to a peer, up to the 4 GiB of a frame, makes \<open>_handle\<close> of the receiver take
  exactly the step of its node on that envelope and send what the step returns; when the
  connection breaks before the last byte, the receiver's node is left alone.
\<close>

theorem wire_delivery:
  assumes "json_ok J" "addresses (dst env) = Some a" "length (wire_encode J env) < 2 ^ 32"
  shows "\<exists>bs. raft_send J addresses env = Inr (Some (a, bs))
    \<and> raft_handle E J bs s
       = (snd (node_step E env s), case fst (node_step E env s) of Inl e \<Rightarrow> [] | Inr out \<Rightarrow> out)
    \<and> (\<forall>n < length bs. raft_handle E J (take n bs) s = (s, []))"
proof -
  obtain bs where bs: "frame (wire_encode J env) = Inr bs"
    using assms(3) by (auto simp: frame_def pack_uint_def)
  have "raft_send J addresses env = Inr (Some (a, bs))" using assms(2) bs by (simp add: raft_send_def)
  moreover have "raft_handle E J bs s
      = (snd (node_step E env s), case fst (node_step E env s) of Inl e \<Rightarrow> [] | Inr out \<Rightarrow> out)"
    using read_frame_frame [OF bs, of "[]"] wire_decode_encode [OF assms(1)]
    by (simp add: raft_handle_def split: prod.split sum.split)
  moreover have "raft_handle E J (take n bs) s = (s, [])" if "n < length bs" for n
    by (simp add: raft_handle_def read_frame_short [OF bs that])
  ultimately show ?thesis by blast
qed

definition vote_request :: "(nat, json) envelope" where
  "vote_request = Envelope 0 1 (RequestVote 1 0 0 0)"

lemma vote_request_fits: "length (wire_encode unary_json vote_request) < 2 ^ 32"
proof -
  have "length (wire_encode unary_json vote_request) < 500" by code_simp
  then show ?thesis by simp
qed

theorem wire_delivery_witness:
  "\<exists>bs. raft_send unary_json [1 \<mapsto> (8001 :: nat)] vote_request = Inr (Some (8001, bs))
    \<and> raft_handle (recorder_env min_randint) unary_json bs (nnodes start_net 1)
       = (snd (node_step (recorder_env min_randint) vote_request (nnodes start_net 1)),
          case fst (node_step (recorder_env min_randint) vote_request (nnodes start_net 1)) of Inl e \<Rightarrow> [] | Inr out \<Rightarrow> out)
    \<and> raft_handle (recorder_env min_randint) unary_json (take (length bs - 1) bs) (nnodes start_net 1) = (nnodes start_net 1, [])"
proof -
  have a: "[1 \<mapsto> (8001 :: nat)] (dst vote_request) = Some 8001" by (simp add: vote_request_def)
  obtain bs where bs: "raft_send unary_json [1 \<mapsto> (8001 :: nat)] vote_request = Inr (Some (8001, bs))"
      "raft_handle (recorder_env min_randint) unary_json bs (nnodes start_net 1)
         = (snd (node_step (recorder_env min_randint) vote_request (nnodes start_net 1)),
            case fst (node_step (recorder_env min_randint) vote_request (nnodes start_net 1)) of Inl e \<Rightarrow> [] | Inr out \<Rightarrow> out)"
      "\<forall>n < length bs. raft_handle (recorder_env min_randint) unary_json (take n bs) (nnodes start_net 1) = (nnodes start_net 1, [])"
    using wire_delivery [of unary_json "[1 \<mapsto> (8001 :: nat)]" vote_request, OF unary_json_ok a vote_request_fits, of "recorder_env min_randint" "nnodes start_net 1"] by blast
  have "bs \<noteq> []"
    using bs(1) by (auto simp: raft_send_def vote_request_def bindR_eq_Inr frame_def dest: pack_uint_length)
  then have "length bs - 1 < length bs" by simp
  then show ?thesis using bs by blast
qed

text \<open>A command that node 0 accepted and sent to nobody in time, while node 1 was elected by node 2 and wrote another one.\<close>

definition elected :: "(nat, unit) net" where
  "elected = foldl happen start_net
     [Tick 0, Deliver (Envelope 0 1 (RequestVote 1 0 0 0)), Deliver (Envelope 1 0 (RequestVoteReply 1 True))]"

definition overtaken :: "(nat, unit) net" where
  "overtaken = foldl happen (happen elected (Propose 0 (SetOp ''x'' 7)))
     [Tick 1, Deliver (Envelope 1 2 (RequestVote 2 1 0 0)), Deliver (Envelope 2 1 (RequestVoteReply 2 True)),
      Propose 1 (SetOp ''x'' 8),
      Deliver (Envelope 1 2 (AppendEntries 2 1 0 0 [LogEntry 2 NoOp, LogEntry 2 (SetOp ''x'' 8)] 0)),
      Deliver (Envelope 2 1 (AppendEntriesReply 2 True 2)),
      Tick 1, Deliver (Envelope 1 0 (AppendEntries 2 1 0 0 [LogEntry 2 NoOp, LogEntry 2 (SetOp ''x'' 8)] 2))]"

text \<open>
  C40. \<open>submit\<close> can report success for a command that is lost. From a reachable state of a cluster
  in which node 0 leads, \<open>submit\<close> proposes a command at an index and waits until that index is
  applied; the network can go on so that another leader overwrites the entry, and then the
  wait is over and \<open>submit\<close> returns the index, although node 0 has applied another command
  there and the submitted one is in no log of the cluster.
\<close>

theorem submit_of_lost_command:
  "\<exists>(c :: (nat, unit) net) c' cmd index out n.
     net_reach min_randint three c
     \<and> submit (recorder_env min_randint) cmd (nnodes c 0) = (Inr (index, out), n)
     \<and> (net_step min_randint three)\<^sup>*\<^sup>* (c\<lparr>nnodes := (nnodes c)(0 := n), sent := sent c \<union> set out\<rparr>) c'
     \<and> submit_done index (nnodes c' 0)
     \<and> (\<exists>other. other \<noteq> cmd \<and> (index, other) \<in> set (applied (machine (nnodes c' 0))))
     \<and> (\<nexists>i e. i \<in> three \<and> e \<in> set (entries (nlog (nnodes c' i))) \<and> ecommand e = cmd)"
proof -
  let ?E = "recorder_env min_randint" and ?cmd = "SetOp ''x'' (7 :: nat)"
  have reach: "net_reach min_randint three elected" unfolding elected_def by (rule run_reach)
  have "map_sum id fst (fst (submit ?E ?cmd (nnodes elected 0))) = Inr 2" by code_simp
  then obtain out n where sub: "submit ?E ?cmd (nnodes elected 0) = (Inr (2, out), n)"
    by (cases "submit ?E ?cmd (nnodes elected 0)"; cases "fst (submit ?E ?cmd (nnodes elected 0))") auto
  have "role (nnodes elected 0) = LEADER" by code_simp
  then have "propose ?E ?cmd (nnodes elected 0) = (Inr (2, out), n)"
    using sub by (simp add: submit_def bindS_def gets_def is_leader_def)
  then have c: "elected\<lparr>nnodes := (nnodes elected)(0 := n), sent := sent elected \<union> set out\<rparr> = happen elected (Propose 0 ?cmd)"
    by (simp add: put_node_def three_def)
  have "net_reach min_randint three (happen elected (Propose 0 ?cmd))"
    by (rule net_reach_steps [OF happen_steps [OF reach] reach])
  then have steps: "(net_step min_randint three)\<^sup>*\<^sup>* (happen elected (Propose 0 ?cmd)) overtaken"
    unfolding overtaken_def by (rule run_steps)
  have "submit_done 2 (nnodes overtaken 0)" by code_simp
  moreover have "(2, SetOp ''x'' 8) \<in> set (applied (machine (nnodes overtaken 0)))" by code_simp
  moreover have "entries (nlog (nnodes overtaken 0)) = [LogEntry 2 NoOp, LogEntry 2 (SetOp ''x'' 8)]"
    "entries (nlog (nnodes overtaken 1)) = [LogEntry 2 NoOp, LogEntry 2 (SetOp ''x'' 8)]"
    "entries (nlog (nnodes overtaken 2)) = [LogEntry 2 NoOp, LogEntry 2 (SetOp ''x'' 8)]"
    by (code_simp, code_simp, code_simp)
  then have "i \<in> three \<Longrightarrow> entries (nlog (nnodes overtaken i)) = [LogEntry 2 NoOp, LogEntry 2 (SetOp ''x'' 8)]" for i
    unfolding three_def by blast
  then have "\<nexists>i e. i \<in> three \<and> e \<in> set (entries (nlog (nnodes overtaken i))) \<and> ecommand e = ?cmd" by auto
  moreover have "SetOp ''x'' 8 \<noteq> ?cmd" by simp
  ultimately show ?thesis using reach sub steps unfolding c [symmetric] by blast
qed

end
