(* ===== verification/Spec2Isabelle.thy ===== *)
theory Spec2Isabelle
  imports BPlusProperties BinaryProperties RaftProperties DatabaseProperties Resp Pubsub RaftWire
begin

text \<open>
  A verification library for ImmuStore DB, the append-only key-value store under \<open>src/imustore\<close>.

  \<^bold>\<open>The program.\<close> A database is one file. \<open>physical.py\<close> keeps it: two meta slots with checksums, then
  records that are only appended; a commit flushes the records, writes the other slot and flushes
  again. \<open>bplus_tree.py\<close> and \<open>binary_tree.py\<close> are the two index engines, copy-on-write trees whose
  nodes are such records; \<open>logical.py\<close> is their common base class. \<open>interface.py\<close> has the database
  handle, transactions and compaction, \<open>mvcc.py\<close> the snapshots, \<open>codec.py\<close> the form of the values.
  \<open>raft/\<close> replicates commands over several nodes and applies the committed ones to a database.
  \<open>resp.py\<close> and \<open>pubsub.py\<close> are the protocol and the change feed of the network server.
  \<open>simdisk.py\<close> and \<open>raft/simulation.py\<close> are the disk and the network with faults that the tests run on.

  \<^bold>\<open>Conventions\<close> (\<open>Prelude\<close>, \<open>PyText\<close>). An operation that may raise returns \<open>Inl e\<close> with \<open>e\<close> one of the
  exceptions of \<open>py_error\<close>, or \<open>Inr x\<close>; a method is a function from the object to such a result and the
  new object, composed with \<open>bindS\<close> (the state at a raise is kept, as in Python) and \<open>finallyS\<close>.
  Objects are records with the fields of the class. Python's integers are \<open>int\<close>, or \<open>nat\<close> where the code
  keeps them non-negative; the fields of the file format have the width the \<open>struct\<close> formats give them,
  and packing a number that does not fit raises \<open>StructError\<close>.

  \<^bold>\<open>Storage.\<close> \<open>SimDisk\<close> is \<open>simdisk.py\<close>: current and durable bytes, and a crash armed at a flush.
  \<open>Physical\<close> is \<open>physical.py\<close> with the lock of \<open>locking.py\<close>, on that disk. Its lemmas: a record that was
  written is read back and damage to its payload is detected; a commit that returns survives a power failure;
  after a crash at any flush of a commit, opening the file gives the old or the new root; torn slots
  and a torn tail are repaired.

  \<^bold>\<open>Index engines.\<close> \<open>Logical\<close> is \<open>logical.py\<close>, \<open>BPlusTree\<close> is \<open>bplus_tree.py\<close> with \<open>audit.py\<close>,
  \<open>BinaryTree\<close> is \<open>binary_tree.py\<close>. The byte format of nodes (Python's \<open>pickle\<close>) is a parameter,
  with \<open>pickle_ok\<close> as the law that loading gives what was dumped; \<open>PickleInstance\<close> is a format that
  satisfies it, where the witnesses are. \<open>StoredTree\<close> has the contract \<open>versioned_tree\<close> of a tree
  in a growing file, \<open>LogicalEngine\<close> the contract \<open>logical_engine\<close> of what an engine class owes to
  its base class, and \<open>IndexContract\<close> the contract \<open>index_engine\<close>: every call acts on the committed and the
  shown content as the specification \<open>spec_step\<close> says. In it, runs of arbitrary requests, with crashes armed
  at any flush (\<open>CrashAt\<close>) and power failures, are proved to refine the specification, and a commit
  to return only when no crash is armed at one of its two flushes and to raise only for that
  reason or because a field of the file overflows (\<open>flush_run\<close>). \<open>BPlusRep\<close>, \<open>BPlusUpdate\<close>, \<open>BPlusStore\<close>, \<open>BPlusAudit\<close> and
  \<open>BPlusEngine\<close> prove the laws for the B+ tree (\<open>bt\<close> says which sorted list a tree in a file stands for, and
  that it is balanced with nodes half full), \<open>BinaryRep\<close> and \<open>BinaryEngine\<close> for the binary tree; both
  end in interpretations on the model's operations. \<open>BPlusProperties\<close> and \<open>BinaryProperties\<close> have the
  properties, among them that the two engines give the same replies.

  \<^bold>\<open>Database.\<close> \<open>Database\<close> is \<open>interface.py\<close>, \<open>mvcc.py\<close> and \<open>codec.py\<close> for the default B+ index; the
  codec is a parameter with the law \<open>codec_ok\<close>. \<open>DatabaseRefine\<close> relates a handle to the index contract,
  \<open>Snapshots\<close>, \<open>Transactions\<close>, \<open>Sessions\<close> and \<open>Compaction\<close> have the lemmas for these parts, and
  \<open>DatabaseProperties\<close> the properties: a snapshot keeps its content, a transaction reads its snapshot
  and its own writes whatever others do in between, its commit is all or nothing and refused after a
  conflicting commit, compaction keeps the content and refuses to run over open snapshots, and what
  a compaction over a left-over file and the deletion of a missing key do.

  \<^bold>\<open>Consensus.\<close> \<open>RaftLog\<close> is \<open>raft/messages.py\<close> and \<open>raft/log.py\<close>, \<open>RaftNode\<close> is \<open>raft/node.py\<close>,
  \<open>RaftCluster\<close> has the recorder of \<open>raft/statemachine.py\<close>, \<open>raft/simulation.py\<close> and a network in
  which messages are lost, delayed and repeated and nodes restart at any time. \<open>RaftSpec\<close> and
  \<open>RaftSafety\<close> prove the abstract protocol safe for any system of quorums that meet (the locale
  \<open>quorums\<close>, interpreted at majorities); \<open>RaftRefine\<close>, \<open>RaftHandlers\<close>, \<open>RaftSteps\<close> and \<open>RaftDrive\<close>
  prove with triples that the nodes refine it, \<open>RaftSim\<close> that the simulated cluster is such
  a network. \<open>RaftMachine\<close> shows that a node does the same whatever its state machine is, until that raises.
  \<open>RaftProperties\<close> has the properties: one leader in a term, matching logs, leader completeness,
  state machine safety, what is applied is the beginning of the log, promises are on disk.
  \<open>KVMachine\<close> is the state machine over a database (every command takes effect once, also over crashes),
  \<open>RaftWire\<close> is \<open>raft/wire.py\<close> and the message handling of \<open>raft/server.py\<close>.

  \<^bold>\<open>Protocol and change feed.\<close> \<open>Resp\<close> is \<open>resp.py\<close>: requests and replies are read back as they were
  written, and what malformed requests raise. \<open>Pubsub\<close> is \<open>pubsub.py\<close>: who gets a message, and
  that a full queue drops it and counts it.

  \<^bold>\<open>Bounds.\<close> Traversals follow addresses in a file and take a depth \<open>lim\<close>, Python's recursion limit;
  it suffices that a B+ tree has fewer than \<open>2 ^ lim\<close> keys, since its height is at most logarithmic, and that
  a binary tree has fewer than \<open>lim\<close> keys, since it is not balanced. Where a field of the file format would
  overflow, the operation raises \<open>StructError\<close>, and the theorems have that outcome. The loops of \<open>RaftCluster\<close> have the number of rounds the
  code gives them. No other fuel is used.

  \<^bold>\<open>What is not modelled.\<close> The disk is that of \<open>simdisk.py\<close>: flushes are atomic and only an armed crash
  makes one fail. The lock of a file is that of one process; waiting for another one is not modelled.
  After a commit that raised, a run goes on only after the file was opened again. A database with
  \<open>index="binary"\<close> is modelled as an engine, not below the handle. Left out of the consensus part: time
  (the timeout of \<open>submit\<close>), servers without a path for their log, which lose it in a restart, and a
  network in which a state machine raises in the middle of a step. Left out of \<open>resp.py\<close>: the limits
  on the length of a line and on the digits of a number. Not modelled at all: the command dispatch and
  the connections of \<open>server.py\<close>, \<open>admin.py\<close>, \<open>metrics.py\<close>, \<open>collection.py\<close>, \<open>simulation.py\<close> (its
  checks are theorems here), the command line tools, \<open>examples\<close> and \<open>bench\<close>.
\<close>

end
